(* ===== verification/Rust_Std.thy ===== *)
theory Rust_Std
  imports Main "HOL-Library.Char_ord" "HOL-Library.List_Lexorder" "HOL-Library.Option_ord"
    "HOL-Library.Product_Lexorder" "HOL-Library.Multiset"
begin

text \<open>
  What the crates use of the Rust standard library, as pure functions, with the lemmas the
  component theories share.

  A \<^verbatim>\<open>&str\<close> or \<^verbatim>\<open>String\<close> is modelled as the list of its UTF-8 bytes, a HOL \<^typ>\<open>string\<close>, so that
  \<^verbatim>\<open>len()\<close> is \<^const>\<open>length\<close> and the byte order of \<^verbatim>\<open>str\<close> is the lexicographic order of the list.
  \<^verbatim>\<open>Result<T, E>\<close> is the sum \<open>'e + 'a\<close> with \<^const>\<open>Inl\<close> for \<^verbatim>\<open>Err\<close>; \<^verbatim>\<open>Option\<close> is \<open>option\<close>.
  \<^verbatim>\<open>std::cmp::Ordering\<close> is the type \<open>ordering\<close> below, and the contract of \<^verbatim>\<open>Ord\<close> the locales
  \<open>rust_ord\<close> (reflexive, antisymmetric) and \<open>rust_total_ord\<close> (also transitive, with equality).
\<close>

named_theorems rust_str \<open>facts on the string functions of the standard library\<close>
named_theorems ord_simps \<open>facts on three-way comparison\<close>

section \<open>Three-way comparison\<close>

datatype ordering = Less | Equal | Greater

fun reverse :: "ordering \<Rightarrow> ordering" where
  "reverse Less = Greater"
| "reverse Equal = Equal"
| "reverse Greater = Less"

fun then_ord :: "ordering \<Rightarrow> ordering \<Rightarrow> ordering" where
  "then_ord Equal o2 = o2"
| "then_ord Less o2 = Less"
| "then_ord Greater o2 = Greater"

definition cmp_of :: "'a::linorder \<Rightarrow> 'a \<Rightarrow> ordering" where
  "cmp_of x y = (if x < y then Less else if x = y then Equal else Greater)"

lemma reverse_reverse [simp, ord_simps]: "reverse (reverse r) = r"
  by (cases r) simp_all

lemma reverse_eq [simp, ord_simps]:
  "reverse r = Equal \<longleftrightarrow> r = Equal"
  "reverse r = Less \<longleftrightarrow> r = Greater"
  "reverse r = Greater \<longleftrightarrow> r = Less"
  by (cases r; simp)+

lemma reverse_then [simp, ord_simps]: "reverse (then_ord a b) = then_ord (reverse a) (reverse b)"
  by (cases a) simp_all

lemma then_ord_assoc [simp, ord_simps]: "then_ord (then_ord a b) c = then_ord a (then_ord b c)"
  by (cases a) simp_all

lemma then_ord_Equal [simp, ord_simps]:
  "then_ord a Equal = a"
  "then_ord a b = Equal \<longleftrightarrow> a = Equal \<and> b = Equal"
  by (cases a; simp)+

lemma cmp_of_simps [simp, ord_simps]:
  "cmp_of x y = Less \<longleftrightarrow> x < y"
  "cmp_of x y = Equal \<longleftrightarrow> x = y"
  "cmp_of x y = Greater \<longleftrightarrow> y < x"
  by (auto simp: cmp_of_def)

lemma cmp_of_swap [ord_simps]: "cmp_of y x = reverse (cmp_of x y)"
  by (auto simp: cmp_of_def)

lemma cmp_of_self [simp, ord_simps]: "cmp_of x x = Equal"
  by simp

text \<open>The contract of \<^verbatim>\<open>Ord::cmp\<close> that a comparison keeps even when it is not transitive.\<close>

locale rust_ord =
  fixes cmp :: "'a \<Rightarrow> 'a \<Rightarrow> ordering"
  assumes cmp_refl: "cmp x x = Equal"
    and cmp_swap: "cmp y x = reverse (cmp x y)"
begin

lemma cmp_less_greater: "cmp x y = Less \<longleftrightarrow> cmp y x = Greater"
  by (subst cmp_swap) simp

lemma cmp_equal_sym: "cmp x y = Equal \<longleftrightarrow> cmp y x = Equal"
  by (subst cmp_swap) simp

lemma not_greater: "cmp x y \<noteq> Greater \<longleftrightarrow> cmp x y = Less \<or> cmp x y = Equal"
  by (cases "cmp x y") simp_all

lemma not_less_swap: "cmp y x \<noteq> Less \<longleftrightarrow> cmp x y \<noteq> Greater"
  by (subst cmp_swap) simp

end

text \<open>
  The whole contract, on the values a carrier admits: a total order whose equality is the equality
  of values.
\<close>

locale rust_total_ord = rust_ord cmp for cmp :: "'a \<Rightarrow> 'a \<Rightarrow> ordering" +
  fixes carrier :: "'a \<Rightarrow> bool"
  assumes cmp_eq: "carrier x \<Longrightarrow> carrier y \<Longrightarrow> cmp x y = Equal \<Longrightarrow> x = y"
    and cmp_trans: "carrier x \<Longrightarrow> carrier y \<Longrightarrow> carrier z \<Longrightarrow>
      cmp x y = Less \<Longrightarrow> cmp y z = Less \<Longrightarrow> cmp x z = Less"
begin

lemma cmp_trans_ge:
  assumes "carrier x" "carrier y" "carrier z"
    and "cmp x y \<noteq> Greater" and "cmp y z \<noteq> Greater"
  shows "cmp x z \<noteq> Greater"
proof (cases "cmp x y = Less \<and> cmp y z = Less")
  case True
  with cmp_trans [OF assms(1-3)] show ?thesis by simp
next
  case False
  with assms(4,5) have "cmp x y = Equal \<or> cmp y z = Equal"
    by (cases "cmp x y"; cases "cmp y z"; simp)
  then show ?thesis
  proof
    assume "cmp x y = Equal"
    from cmp_eq [OF assms(1,2) this] assms(5) show ?thesis by simp
  next
    assume "cmp y z = Equal"
    from cmp_eq [OF assms(2,3) this] assms(4) show ?thesis by simp
  qed
qed

end

interpretation cmp_of: rust_total_ord "cmp_of :: 'a::linorder \<Rightarrow> 'a \<Rightarrow> ordering" "\<lambda>_. True"
proof unfold_locales
  fix x y z :: "'a::linorder"
  show "cmp_of x x = Equal" by simp
  show "cmp_of y x = reverse (cmp_of x y)" by (rule cmp_of_swap)
  show "cmp_of x y = Equal \<Longrightarrow> x = y" by simp
  show "cmp_of x y = Less \<Longrightarrow> cmp_of y z = Less \<Longrightarrow> cmp_of x z = Less" by simp
qed

section \<open>Loops that make progress\<close>

text \<open>
  The contract of a loop or of threads that make progress: every step keeps an invariant and leaves less to do. What
  follows is shared by the loops of the library that are not structural: invariants of what is reached, the number of
  steps, induction over what is left, and that a last state is reached.
\<close>

locale descent =
  fixes step :: "'s \<Rightarrow> 's \<Rightarrow> bool" and good :: "'s \<Rightarrow> bool" and todo :: "'s \<Rightarrow> nat"
  assumes step_good: "good s \<Longrightarrow> step s s' \<Longrightarrow> good s'"
    and step_less: "good s \<Longrightarrow> step s s' \<Longrightarrow> todo s' < todo s"
begin

lemma steps_good: "step\<^sup>*\<^sup>* s s' \<Longrightarrow> good s \<Longrightarrow> good s'"
  by (induction rule: rtranclp_induct) (auto intro: step_good)

lemma steps_bounded: "(step ^^ n) s s' \<Longrightarrow> good s \<Longrightarrow> good s' \<and> n + todo s' \<le> todo s"
proof (induction n arbitrary: s')
  case (Suc n)
  then obtain t where "(step ^^ n) s t" "step t s'" by auto
  with Suc step_good [of t s'] step_less [of t s'] show ?case by fastforce
qed simp

lemma step_induct [consumes 1, case_names step]:
  assumes "good s" and "\<And>s. good s \<Longrightarrow> (\<And>s'. step s s' \<Longrightarrow> P s') \<Longrightarrow> P s"
  shows "P s"
  using assms(1)
proof (induction "todo s" arbitrary: s rule: less_induct)
  case less
  show ?case by (rule assms(2) [OF less.prems]) (use less step_good step_less in blast)
qed

lemma steps_end: "good s \<Longrightarrow> \<exists>s'. step\<^sup>*\<^sup>* s s' \<and> (\<forall>s''. \<not> step s' s'')"
proof (induction s rule: step_induct)
  case (step s)
  then show ?case by (cases "\<exists>s'. step s s'") (blast intro: converse_rtranclp_into_rtranclp)+
qed

end

section \<open>Strings\<close>

fun strip_prefix :: "'a list \<Rightarrow> 'a list \<Rightarrow> 'a list option" where
  "strip_prefix [] s = Some s"
| "strip_prefix (p # ps) [] = None"
| "strip_prefix (p # ps) (c # cs) = (if p = c then strip_prefix ps cs else None)"

definition strip_suffix :: "'a list \<Rightarrow> 'a list \<Rightarrow> 'a list option" where
  "strip_suffix p s = map_option rev (strip_prefix (rev p) (rev s))"

definition starts_with :: "'a list \<Rightarrow> 'a list \<Rightarrow> bool" where
  "starts_with p s \<longleftrightarrow> strip_prefix p s \<noteq> None"

definition ends_with :: "'a list \<Rightarrow> 'a list \<Rightarrow> bool" where
  "ends_with p s \<longleftrightarrow> strip_suffix p s \<noteq> None"

fun contains_sub :: "'a list \<Rightarrow> 'a list \<Rightarrow> bool" where
  "contains_sub p [] \<longleftrightarrow> p = []"
| "contains_sub p (c # cs) \<longleftrightarrow> starts_with p (c # cs) \<or> contains_sub p cs"

text \<open>\<^verbatim>\<open>str::split\<close> on one character: always at least one part.\<close>

fun split_on :: "'a \<Rightarrow> 'a list \<Rightarrow> 'a list list" where
  "split_on c [] = [[]]"
| "split_on c (x # xs) =
     (if x = c then [] # split_on c xs
      else (case split_on c xs of [] \<Rightarrow> [[x]] | w # ws \<Rightarrow> (x # w) # ws))"

fun split_once :: "'a \<Rightarrow> 'a list \<Rightarrow> ('a list \<times> 'a list) option" where
  "split_once c [] = None"
| "split_once c (x # xs) =
     (if x = c then Some ([], xs)
      else map_option (\<lambda>(a, b). (x # a, b)) (split_once c xs))"

definition rsplit_once :: "'a \<Rightarrow> 'a list \<Rightarrow> ('a list \<times> 'a list) option" where
  "rsplit_once c s = map_option (\<lambda>(a, b). (rev b, rev a)) (split_once c (rev s))"

fun join_with :: "'a list \<Rightarrow> 'a list list \<Rightarrow> 'a list" where
  "join_with sep [] = []"
| "join_with sep [w] = w"
| "join_with sep (w # v # ws) = w @ sep @ join_with sep (v # ws)"

text \<open>
  \<^verbatim>\<open>str::trim\<close> removes the characters with the Unicode \<^verbatim>\<open>White_Space\<close> property from both ends.
  These are their UTF-8 encodings: U+0009 to U+000D, U+0020, U+0085, U+00A0, U+1680, U+2000 to
  U+200A, U+2028, U+2029, U+202F, U+205F and U+3000.
\<close>

definition white_space :: "string list" where
  "white_space =
     [[CHR 0x09], [CHR 0x0A], [CHR 0x0B], [CHR 0x0C], [CHR 0x0D], [CHR 0x20],
      [CHR 0xC2, CHR 0x85], [CHR 0xC2, CHR 0xA0], [CHR 0xE1, CHR 0x9A, CHR 0x80],
      [CHR 0xE2, CHR 0x80, CHR 0x80], [CHR 0xE2, CHR 0x80, CHR 0x81], [CHR 0xE2, CHR 0x80, CHR 0x82],
      [CHR 0xE2, CHR 0x80, CHR 0x83], [CHR 0xE2, CHR 0x80, CHR 0x84], [CHR 0xE2, CHR 0x80, CHR 0x85],
      [CHR 0xE2, CHR 0x80, CHR 0x86], [CHR 0xE2, CHR 0x80, CHR 0x87], [CHR 0xE2, CHR 0x80, CHR 0x88],
      [CHR 0xE2, CHR 0x80, CHR 0x89], [CHR 0xE2, CHR 0x80, CHR 0x8A], [CHR 0xE2, CHR 0x80, CHR 0xA8],
      [CHR 0xE2, CHR 0x80, CHR 0xA9], [CHR 0xE2, CHR 0x80, CHR 0xAF], [CHR 0xE2, CHR 0x81, CHR 0x9F],
      [CHR 0xE3, CHR 0x80, CHR 0x80]]"

definition ws_prefix :: "string \<Rightarrow> string option" where
  "ws_prefix s = find (\<lambda>w. starts_with w s) white_space"

definition ws_suffix :: "string \<Rightarrow> string option" where
  "ws_suffix s = find (\<lambda>w. ends_with w s) white_space"

lemma white_space_nonempty: "w \<in> set white_space \<Longrightarrow> w \<noteq> []"
  by (auto simp: white_space_def)

lemma strip_prefix_Some [rust_str]: "strip_prefix p s = Some r \<longleftrightarrow> s = p @ r"
  by (induction p s rule: strip_prefix.induct) auto

lemma strip_prefix_append [simp]: "strip_prefix p (p @ r) = Some r"
  by (simp add: strip_prefix_Some)

lemma strip_suffix_Some [rust_str]: "strip_suffix p s = Some r \<longleftrightarrow> s = r @ p"
  by (auto simp: strip_suffix_def strip_prefix_Some rev_swap)

lemma strip_suffix_append [simp]: "strip_suffix p (r @ p) = Some r"
  by (simp add: strip_suffix_Some)

lemma starts_with_iff [rust_str]: "starts_with p s \<longleftrightarrow> (\<exists>r. s = p @ r)"
  by (auto simp: starts_with_def strip_prefix_Some)

lemma ends_with_iff [rust_str]: "ends_with p s \<longleftrightarrow> (\<exists>r. s = r @ p)"
  by (auto simp: ends_with_def strip_suffix_Some)

lemma find_Some_set: "find P xs = Some x \<Longrightarrow> P x \<and> x \<in> set xs"
  by (induction xs) (auto split: if_splits)

lemma find_None_all: "find P xs = None \<longleftrightarrow> (\<forall>x \<in> set xs. \<not> P x)"
  by (induction xs) auto

lemma ws_prefix_Some: "ws_prefix s = Some w \<Longrightarrow> \<exists>r. s = w @ r \<and> w \<noteq> []"
  unfolding ws_prefix_def
  by (drule find_Some_set) (auto simp: starts_with_iff dest: white_space_nonempty)

lemma ws_suffix_Some: "ws_suffix s = Some w \<Longrightarrow> \<exists>r. s = r @ w \<and> w \<noteq> []"
  unfolding ws_suffix_def
  by (drule find_Some_set) (auto simp: ends_with_iff dest: white_space_nonempty)

function trim_start :: "string \<Rightarrow> string" where
  "trim_start s = (case ws_prefix s of None \<Rightarrow> s | Some w \<Rightarrow> trim_start (drop (length w) s))"
  by pat_completeness auto
termination
  by (relation "measure length") (auto dest!: ws_prefix_Some)

function trim_end :: "string \<Rightarrow> string" where
  "trim_end s =
     (case ws_suffix s of None \<Rightarrow> s | Some w \<Rightarrow> trim_end (take (length s - length w) s))"
  by pat_completeness auto
termination
  by (relation "measure length") (auto dest!: ws_suffix_Some)

declare trim_start.simps [simp del] trim_end.simps [simp del]

definition trim :: "string \<Rightarrow> string" where
  "trim s = trim_end (trim_start s)"

subsection \<open>Trimming\<close>

lemma trim_start_done: "ws_prefix s = None \<Longrightarrow> trim_start s = s"
  by (simp add: trim_start.simps)

lemma trim_end_done: "ws_suffix s = None \<Longrightarrow> trim_end s = s"
  by (simp add: trim_end.simps)

lemma trim_start_no_ws: "ws_prefix (trim_start s) = None"
proof (induction s rule: trim_start.induct)
  case (1 s)
  then show ?case
    by (cases "ws_prefix s") (simp_all add: trim_start.simps [of s])
qed

lemma trim_end_no_ws: "ws_suffix (trim_end s) = None"
proof (induction s rule: trim_end.induct)
  case (1 s)
  then show ?case
    by (cases "ws_suffix s") (simp_all add: trim_end.simps [of s])
qed

lemma trim_end_prefix: "\<exists>r. s = trim_end s @ r"
proof (induction s rule: trim_end.induct)
  case (1 s)
  show ?case
  proof (cases "ws_suffix s")
    case None
    then show ?thesis by (simp add: trim_end_done)
  next
    case (Some w)
    let ?t = "take (length s - length w) s"
    from 1 [OF Some] obtain r where "?t = trim_end ?t @ r" by blast
    moreover have "trim_end s = trim_end ?t"
      using Some by (simp add: trim_end.simps [of s])
    moreover have "s = ?t @ drop (length s - length w) s" by simp
    ultimately have "s = trim_end s @ r @ drop (length s - length w) s"
      by (metis append.assoc)
    then show ?thesis by blast
  qed
qed

lemma trim_start_suffix: "\<exists>r. s = r @ trim_start s"
proof (induction s rule: trim_start.induct)
  case (1 s)
  show ?case
  proof (cases "ws_prefix s")
    case None
    then show ?thesis by (simp add: trim_start_done)
  next
    case (Some w)
    let ?t = "drop (length w) s"
    from 1 [OF Some] obtain r where "?t = r @ trim_start ?t" by blast
    moreover have "trim_start s = trim_start ?t"
      using Some by (simp add: trim_start.simps [of s])
    moreover have "s = take (length w) s @ ?t" by simp
    ultimately have "s = (take (length w) s @ r) @ trim_start s"
      by (metis append.assoc)
    then show ?thesis by blast
  qed
qed

lemma ws_prefix_None_prefix: "ws_prefix (s @ r) = None \<Longrightarrow> ws_prefix s = None"
  by (auto simp: ws_prefix_def find_None_all starts_with_iff)

lemma trim_no_ws: "ws_prefix (trim s) = None" "ws_suffix (trim s) = None"
proof -
  obtain r where "trim_start s = trim s @ r"
    using trim_end_prefix [of "trim_start s"] by (auto simp: trim_def)
  with trim_start_no_ws [of s] have "ws_prefix (trim s @ r) = None" by simp
  then show "ws_prefix (trim s) = None" by (rule ws_prefix_None_prefix)
  show "ws_suffix (trim s) = None"
    by (simp add: trim_def trim_end_no_ws)
qed

lemma trim_id: "ws_prefix s = None \<Longrightarrow> ws_suffix s = None \<Longrightarrow> trim s = s"
  by (simp add: trim_def trim_start_done trim_end_done)

lemma trim_trim [simp, rust_str]: "trim (trim s) = trim s"
  by (rule trim_id) (rule trim_no_ws)+

lemma trim_Nil [simp]: "trim [] = []"
  by (rule trim_id) (auto simp: ws_prefix_def ws_suffix_def find_None_all starts_with_iff
      ends_with_iff dest: white_space_nonempty)

lemma trim_infix: "\<exists>l r. s = l @ trim s @ r"
proof -
  obtain l where "s = l @ trim_start s" using trim_start_suffix by blast
  moreover obtain r where "trim_start s = trim s @ r"
    using trim_end_prefix [of "trim_start s"] by (auto simp: trim_def)
  ultimately have "s = l @ trim s @ r" by simp
  then show ?thesis by blast
qed

lemma set_trim: "set (trim s) \<subseteq> set s"
proof -
  obtain l r where "s = l @ trim s @ r" using trim_infix by blast
  then have "set s = set (l @ trim s @ r)" by (rule arg_cong)
  then show ?thesis by auto
qed

lemma length_trim: "length (trim s) \<le> length s"
proof -
  obtain l r where "s = l @ trim s @ r" using trim_infix by blast
  then have "length s = length l + length (trim s) + length r"
    by (metis add.assoc length_append)
  then show ?thesis by simp
qed

text \<open>A string whose first and last byte begin and end no white space is its own trimming.\<close>

definition ws_first :: "char set" where
  "ws_first = hd ` set white_space"

definition ws_last :: "char set" where
  "ws_last = last ` set white_space"

lemma ws_prefix_solid: "s \<noteq> [] \<Longrightarrow> hd s \<notin> ws_first \<Longrightarrow> ws_prefix s = None"
  unfolding ws_prefix_def find_None_all starts_with_iff
proof (intro ballI notI)
  fix w assume "hd s \<notin> ws_first" and w: "w \<in> set white_space" and "\<exists>r. s = w @ r"
  with white_space_nonempty [OF w] have "hd s = hd w" by auto
  with w \<open>hd s \<notin> ws_first\<close> show False by (auto simp: ws_first_def)
qed

lemma ws_suffix_solid: "s \<noteq> [] \<Longrightarrow> last s \<notin> ws_last \<Longrightarrow> ws_suffix s = None"
  unfolding ws_suffix_def find_None_all ends_with_iff
proof (intro ballI notI)
  fix w assume "last s \<notin> ws_last" and w: "w \<in> set white_space" and "\<exists>r. s = r @ w"
  with white_space_nonempty [OF w] have "last s = last w" by auto
  with w \<open>last s \<notin> ws_last\<close> show False by (auto simp: ws_last_def)
qed

lemma trim_solid:
  "s \<noteq> [] \<Longrightarrow> hd s \<notin> ws_first \<Longrightarrow> last s \<notin> ws_last \<Longrightarrow> trim s = s"
  by (simp add: trim_id ws_prefix_solid ws_suffix_solid)

lemma ws_first_eval: "ws_first = set
    [CHR 0x09, CHR 0x0A, CHR 0x0B, CHR 0x0C, CHR 0x0D, CHR 0x20, CHR 0xC2, CHR 0xE1, CHR 0xE2, CHR 0xE3]"
  by (auto simp: ws_first_def white_space_def)

lemma ws_last_eval: "ws_last = set
    [CHR 0x09, CHR 0x0A, CHR 0x0B, CHR 0x0C, CHR 0x0D, CHR 0x20, CHR 0x80, CHR 0x81, CHR 0x82,
     CHR 0x83, CHR 0x84, CHR 0x85, CHR 0x86, CHR 0x87, CHR 0x88, CHR 0x89, CHR 0x8A, CHR 0x9F,
     CHR 0xA0, CHR 0xA8, CHR 0xA9, CHR 0xAF]"
  by (simp add: ws_last_def white_space_def) auto

subsection \<open>Splitting and joining\<close>

lemma split_on_nonempty [simp]: "split_on c s \<noteq> []"
  by (cases s) (auto split: list.splits)

lemma split_on_fresh: "c \<notin> set s \<Longrightarrow> split_on c s = [s]"
  by (induction s) auto

lemma split_on_append: "c \<notin> set s \<Longrightarrow> split_on c (s @ c # r) = s # split_on c r"
  by (induction s) auto

lemma split_on_parts: "w \<in> set (split_on c s) \<Longrightarrow> c \<notin> set w"
  by (induction s arbitrary: w) (auto split: if_splits list.splits)

lemma split_on_chars: "w \<in> set (split_on c s) \<Longrightarrow> set w \<subseteq> set s"
proof (induction s arbitrary: w)
  case Nil
  then show ?case by simp
next
  case (Cons x s)
  obtain v vs where v: "split_on c s = v # vs" by (cases "split_on c s") simp_all
  show ?case
  proof (cases "x = c")
    case True
    with Cons show ?thesis by auto
  next
    case False
    with Cons.prems v have "w = x # v \<or> w \<in> set vs" by simp
    with Cons.IH v show ?thesis by fastforce
  qed
qed

lemma join_split [rust_str]: "join_with [c] (split_on c s) = s"
proof (induction s)
  case Nil
  then show ?case by simp
next
  case (Cons x s)
  obtain v vs where v: "split_on c s = v # vs" by (cases "split_on c s") simp_all
  with Cons.IH show ?case by (cases vs) auto
qed

lemma split_join [rust_str]:
  "ws \<noteq> [] \<Longrightarrow> (\<And>w. w \<in> set ws \<Longrightarrow> c \<notin> set w) \<Longrightarrow> split_on c (join_with [c] ws) = ws"
  by (induction "[c]" ws rule: join_with.induct) (auto simp: split_on_fresh split_on_append)

lemma split_once_Some [rust_str]: "split_once c s = Some (a, b) \<longleftrightarrow> s = a @ c # b \<and> c \<notin> set a"
proof (induction s arbitrary: a)
  case Nil
  then show ?case by simp
next
  case (Cons x s)
  then show ?case by (cases a) auto
qed

lemma split_once_None [rust_str]: "split_once c s = None \<longleftrightarrow> c \<notin> set s"
  by (induction s) auto

lemma rsplit_once_Some [rust_str]: "rsplit_once c s = Some (a, b) \<longleftrightarrow> s = a @ c # b \<and> c \<notin> set b"
proof
  assume "rsplit_once c s = Some (a, b)"
  then obtain x y where "split_once c (rev s) = Some (x, y)" "a = rev y" "b = rev x"
    by (auto simp: rsplit_once_def)
  then have "rev s = x @ c # y \<and> c \<notin> set x" by (simp add: split_once_Some)
  then have "s = rev y @ c # rev x" "c \<notin> set x"
    by (auto simp: rev_swap)
  with \<open>a = rev y\<close> \<open>b = rev x\<close> show "s = a @ c # b \<and> c \<notin> set b" by simp
next
  assume "s = a @ c # b \<and> c \<notin> set b"
  then have "split_once c (rev s) = Some (rev b, rev a)"
    by (simp add: split_once_Some)
  then show "rsplit_once c s = Some (a, b)"
    by (simp add: rsplit_once_def)
qed

lemma rsplit_once_None [rust_str]: "rsplit_once c s = None \<longleftrightarrow> c \<notin> set s"
  by (simp add: rsplit_once_def split_once_None)

section \<open>ASCII bytes\<close>

definition is_ascii_digit :: "char \<Rightarrow> bool" where
  "is_ascii_digit c \<longleftrightarrow> CHR ''0'' \<le> c \<and> c \<le> CHR ''9''"

definition is_ascii_upper :: "char \<Rightarrow> bool" where
  "is_ascii_upper c \<longleftrightarrow> CHR ''A'' \<le> c \<and> c \<le> CHR ''Z''"

definition is_ascii_lower :: "char \<Rightarrow> bool" where
  "is_ascii_lower c \<longleftrightarrow> CHR ''a'' \<le> c \<and> c \<le> CHR ''z''"

definition is_ascii_alphabetic :: "char \<Rightarrow> bool" where
  "is_ascii_alphabetic c \<longleftrightarrow> is_ascii_upper c \<or> is_ascii_lower c"

definition is_ascii_alphanumeric :: "char \<Rightarrow> bool" where
  "is_ascii_alphanumeric c \<longleftrightarrow> is_ascii_alphabetic c \<or> is_ascii_digit c"

definition is_ascii_graphic :: "char \<Rightarrow> bool" where
  "is_ascii_graphic c \<longleftrightarrow> CHR ''!'' \<le> c \<and> c \<le> CHR ''~''"

definition is_ascii_hexdigit :: "char \<Rightarrow> bool" where
  "is_ascii_hexdigit c \<longleftrightarrow> is_ascii_digit c \<or> CHR ''a'' \<le> c \<and> c \<le> CHR ''f'' \<or>
     CHR ''A'' \<le> c \<and> c \<le> CHR ''F''"

definition to_ascii_lower :: "char \<Rightarrow> char" where
  "to_ascii_lower c = (if is_ascii_upper c then char_of (of_char c + 32 :: nat) else c)"

definition to_ascii_lowercase :: "string \<Rightarrow> string" where
  "to_ascii_lowercase = map to_ascii_lower"

definition eq_ignore_ascii_case :: "string \<Rightarrow> string \<Rightarrow> bool" where
  "eq_ignore_ascii_case a b \<longleftrightarrow> to_ascii_lowercase a = to_ascii_lowercase b"

lemmas ascii_defs = is_ascii_digit_def is_ascii_upper_def is_ascii_lower_def
  is_ascii_alphabetic_def is_ascii_alphanumeric_def is_ascii_graphic_def is_ascii_hexdigit_def

section \<open>Results, and patterns of characters\<close>

text \<open>\<^verbatim>\<open>Result::and_then\<close>, which is also what the \<^verbatim>\<open>?\<close> operator does.\<close>

fun and_then :: "'e + 'a \<Rightarrow> ('a \<Rightarrow> 'e + 'b) \<Rightarrow> 'e + 'b" where
  "and_then (Inl e) f = Inl e"
| "and_then (Inr x) f = f x"

fun ok_or :: "'a option \<Rightarrow> 'e \<Rightarrow> 'e + 'a" where
  "ok_or None e = Inl e"
| "ok_or (Some x) e = Inr x"

text \<open>A pattern that is an array of characters.\<close>

definition strip_prefix_char :: "'a list \<Rightarrow> 'a list \<Rightarrow> 'a list option" where
  "strip_prefix_char cs s = (case s of [] \<Rightarrow> None | c # r \<Rightarrow> if c \<in> set cs then Some r else None)"

definition strip_suffix_char :: "'a list \<Rightarrow> 'a list \<Rightarrow> 'a list option" where
  "strip_suffix_char cs s = (if s \<noteq> [] \<and> last s \<in> set cs then Some (butlast s) else None)"

fun find_pos :: "('a \<Rightarrow> bool) \<Rightarrow> 'a list \<Rightarrow> nat option" where
  "find_pos P [] = None"
| "find_pos P (c # cs) = (if P c then Some 0 else map_option Suc (find_pos P cs))"

lemma and_then_Inr: "and_then r f = Inr y \<longleftrightarrow> (\<exists>x. r = Inr x \<and> f x = Inr y)"
  by (cases r) auto

lemma ok_or_Inr [simp]: "ok_or m e = Inr x \<longleftrightarrow> m = Some x"
  by (cases m) auto

lemma strip_prefix_char_Some: "strip_prefix_char cs s = Some r \<longleftrightarrow> (\<exists>c \<in> set cs. s = c # r)"
  by (auto simp: strip_prefix_char_def split: list.splits)

lemma strip_suffix_char_Some: "strip_suffix_char cs s = Some r \<longleftrightarrow> (\<exists>c \<in> set cs. s = r @ [c])"
  by (cases s rule: rev_cases) (auto simp: strip_suffix_char_def)

lemma find_pos_Some:
  "find_pos P s = Some n \<longleftrightarrow> n < length s \<and> P (s ! n) \<and> (\<forall>x \<in> set (take n s). \<not> P x)"
proof (induction s arbitrary: n)
  case (Cons c s)
  then show ?case by (cases n) auto
qed simp

lemma find_pos_None: "find_pos P s = None \<longleftrightarrow> (\<forall>x \<in> set s. \<not> P x)"
  by (induction s) auto

lemma find_pos_append:
  "\<forall>x \<in> set a. \<not> P x \<Longrightarrow> P c \<Longrightarrow> find_pos P (a @ c # b) = Some (length a)"
  by (induction a) auto

end
