(* ===== verification/Maven_Version.thy ===== *)
theory Maven_Version
  imports Rust_Std
begin

text \<open>
  Versions and their order: \<^verbatim>\<open>rv-maven-types/src/version.rs\<close>.

  The first part is the code: the tokenizer \<open>parse_items\<close> with its inner loop \<open>scan_token\<close>, the
  padding removal \<open>trim_padding\<close>, the comparison \<open>Version_cmp\<close> (\<^verbatim>\<open>impl Ord for Version\<close>), what
  \<^verbatim>\<open>impl Hash\<close> feeds the hasher (\<open>hash_input\<close>), and the merge sort of \<^verbatim>\<open>sort_by_key\<close>. Lower casing
  (\<^verbatim>\<open>str::to_lowercase\<close>, a Unicode table) is the argument \<open>lc\<close> of the parsing functions: every
  theorem holds for any such function, and examples use ASCII lower casing.

  The second part shows that \<open>trim_padding\<close> equals the structural \<open>trim_spec\<close> and leaves a list in
  the normal form \<open>normal\<close>, that the comparison is reflexive and antisymmetric on all versions,
  that equal versions feed the hasher the same data, that the order is a total order on the versions
  that start with a number, that numbers compare by their value, and that the merge sort permutes
  its input and puts every neighbouring pair in order although the order is not transitive.
\<close>

section \<open>The code\<close>

definition MAX_COMPONENT_BYTES :: nat where
  "MAX_COMPONENT_BYTES = 255"

datatype VersionError =
    InvalidVersion string
  | InvalidRange string
  | InvalidCoord string
  | UnresolvedProperty string

text \<open>Digits without leading zeros, so the longer number is the larger.\<close>

datatype Number = Digits string

fun digits_of :: "Number \<Rightarrow> string" where
  "digits_of (Digits d) = d"

text \<open>\<^verbatim>\<open>impl Ord for Number\<close>: by length, then as text.\<close>

instantiation Number :: linorder
begin

definition less_eq_Number :: "Number \<Rightarrow> Number \<Rightarrow> bool" where
  "less_eq_Number a b \<longleftrightarrow>
     (length (digits_of a), digits_of a) \<le> (length (digits_of b), digits_of b)"

definition less_Number :: "Number \<Rightarrow> Number \<Rightarrow> bool" where
  "less_Number a b \<longleftrightarrow>
     (length (digits_of a), digits_of a) < (length (digits_of b), digits_of b)"

instance
proof
  fix a b c :: Number
  show "(a < b) = (a \<le> b \<and> \<not> b \<le> a)"
    unfolding less_eq_Number_def less_Number_def by (rule less_le_not_le)
  show "a \<le> a"
    by (simp add: less_eq_Number_def)
  show "a \<le> b \<Longrightarrow> b \<le> c \<Longrightarrow> a \<le> c"
    unfolding less_eq_Number_def by (rule order_trans)
  show "a \<le> b \<Longrightarrow> b \<le> a \<Longrightarrow> a = b"
    by (cases a; cases b) (auto simp: less_eq_Number_def)
  show "a \<le> b \<or> b \<le> a"
    unfolding less_eq_Number_def by (rule linear)
qed

end

datatype Item = ItemMin | Qualifier int | Text string | Number Number | ItemMax

text \<open>The derived \<^verbatim>\<open>Ord\<close>: the variants in their order, then the payload.\<close>

fun item_key :: "Item \<Rightarrow> nat \<times> int \<times> string \<times> Number" where
  "item_key ItemMin = (0, 0, [], Digits [])"
| "item_key (Qualifier q) = (1, q, [], Digits [])"
| "item_key (Text t) = (2, 0, t, Digits [])"
| "item_key (Number n) = (3, 0, [], n)"
| "item_key ItemMax = (4, 0, [], Digits [])"

lemma item_key_inj: "item_key a = item_key b \<Longrightarrow> a = b"
  by (cases a; cases b) simp_all

instantiation Item :: linorder
begin

definition less_eq_Item :: "Item \<Rightarrow> Item \<Rightarrow> bool" where
  "less_eq_Item a b \<longleftrightarrow> item_key a \<le> item_key b"

definition less_Item :: "Item \<Rightarrow> Item \<Rightarrow> bool" where
  "less_Item a b \<longleftrightarrow> item_key a < item_key b"

instance
proof
  fix a b c :: Item
  show "(a < b) = (a \<le> b \<and> \<not> b \<le> a)"
    unfolding less_eq_Item_def less_Item_def by (rule less_le_not_le)
  show "a \<le> a"
    by (simp add: less_eq_Item_def)
  show "a \<le> b \<Longrightarrow> b \<le> c \<Longrightarrow> a \<le> c"
    unfolding less_eq_Item_def by (rule order_trans)
  show "a \<le> b \<Longrightarrow> b \<le> a \<Longrightarrow> a = b"
    unfolding less_eq_Item_def by (rule item_key_inj) (rule antisym)
  show "a \<le> b \<or> b \<le> a"
    unfolding less_eq_Item_def by (rule linear)
qed

end

fun is_number :: "Item \<Rightarrow> bool" where
  "is_number ItemMin = True"
| "is_number (Number n) = True"
| "is_number ItemMax = True"
| "is_number (Qualifier q) = False"
| "is_number (Text t) = False"

fun cmp_padding :: "Item \<Rightarrow> ordering" where
  "cmp_padding ItemMin = Less"
| "cmp_padding (Qualifier q) = cmp_of q 0"
| "cmp_padding (Number n) = (if n = Digits ''0'' then Equal else Greater)"
| "cmp_padding (Text t) = Greater"
| "cmp_padding ItemMax = Greater"

record Version =
  original :: string
  items :: "Item list"

text \<open>
  \<^verbatim>\<open>GenericVersion.comparePadding\<close>, on the slice \<^verbatim>\<open>items[index..]\<close>: the first item of the given kind
  that differs from the padding.
\<close>

definition compare_padding :: "Item list \<Rightarrow> bool option \<Rightarrow> ordering" where
  "compare_padding its number =
     (case find (\<lambda>rel. rel \<noteq> Equal)
        (map cmp_padding (filter (\<lambda>item. number = None \<or> number = Some (is_number item)) its)) of
        None \<Rightarrow> Equal
      | Some rel \<Rightarrow> rel)"

text \<open>
  The loop of \<^verbatim>\<open>Ord::cmp\<close>: the arguments are the slices from \<^verbatim>\<open>index\<close> on, and \<open>number\<close> the kind of the
  last pair that compared equal.
\<close>

fun cmp_items :: "bool \<Rightarrow> Item list \<Rightarrow> Item list \<Rightarrow> ordering" where
  "cmp_items number [] [] = Equal"
| "cmp_items number [] (that # others) = reverse (compare_padding (that # others) None)"
| "cmp_items number (this # these) [] = compare_padding (this # these) None"
| "cmp_items number (this # these) (that # others) =
     (if is_number this \<noteq> is_number that then
        (if is_number this = number then compare_padding (this # these) (Some number)
         else reverse (compare_padding (that # others) (Some number)))
      else (case cmp_of this that of
              Equal \<Rightarrow> cmp_items (is_number this) these others
            | rel \<Rightarrow> rel))"

definition Version_cmp :: "Version \<Rightarrow> Version \<Rightarrow> ordering" where
  "Version_cmp v w = cmp_items True (items v) (items w)"

definition Version_eq :: "Version \<Rightarrow> Version \<Rightarrow> bool" where
  "Version_eq v w \<longleftrightarrow> Version_cmp v w = Equal"

definition is_zero :: "Version \<Rightarrow> bool" where
  "is_zero v \<longleftrightarrow>
     (case items v of [] \<Rightarrow> False | item # _ \<Rightarrow> \<not> is_number item) \<or>
     list_all (\<lambda>item. cmp_padding item = Equal) (filter is_number (items v))"

text \<open>What \<^verbatim>\<open>impl Hash\<close> feeds the hasher: nothing for a version that equals \<^verbatim>\<open>0\<close>, else the items.\<close>

definition hash_input :: "Version \<Rightarrow> Item list option" where
  "hash_input v = (if \<not> is_zero v then Some (items v) else None)"

subsection \<open>Parsing\<close>

definition text_item :: "(string \<Rightarrow> string) \<Rightarrow> string \<Rightarrow> bool \<Rightarrow> bool \<Rightarrow> Item" where
  "text_item lc tok at_end before_digit =
     (let t = lc tok in
      if t = ''min'' \<and> at_end then ItemMin
      else if t = ''max'' \<and> at_end then ItemMax
      else if t = ''a'' \<and> before_digit then Qualifier (-5)
      else if t = ''b'' \<and> before_digit then Qualifier (-4)
      else if t = ''m'' \<and> before_digit then Qualifier (-3)
      else if t = ''alpha'' then Qualifier (-5)
      else if t = ''beta'' then Qualifier (-4)
      else if t = ''milestone'' then Qualifier (-3)
      else if t = ''cr'' \<or> t = ''rc'' then Qualifier (-2)
      else if t = ''snapshot'' then Qualifier (-1)
      else if t = ''ga'' \<or> t = ''final'' \<or> t = ''release'' then Qualifier 0
      else if t = ''sp'' then Qualifier 1
      else Text t)"

definition is_separator :: "char \<Rightarrow> bool" where
  "is_separator ch \<longleftrightarrow> ch = CHR ''.'' \<or> ch = CHR ''-'' \<or> ch = CHR ''_''"

text \<open>
  The inner loop of \<^verbatim>\<open>parse_items\<close>. The state is -2 before the first character, -1 in text, 0 in
  leading zeros and 1 in a number. The result is \<^verbatim>\<open>(start, end, index, state, before_digit)\<close>.
\<close>

function scan_token :: "string \<Rightarrow> nat \<Rightarrow> int \<Rightarrow> nat \<Rightarrow> nat \<times> nat \<times> nat \<times> int \<times> bool" where
  "scan_token chars index state start =
     (if index < length chars then
        (let ch = chars ! index in
         if is_separator ch then (start, index, index + 1, state, False)
         else if is_ascii_digit ch then
           (if state = -1 then (start, index, index, state, True)
            else scan_token chars (index + 1)
                   (if state > 0 \<or> ch \<noteq> CHR ''0'' then 1 else 0)
                   (if state = 0 then start + 1 else start))
         else if state \<ge> 0 then (start, index, index, state, False)
         else scan_token chars (index + 1) (-1) start)
      else (start, length chars, index, state, False))"
  by pat_completeness auto
termination
  by (relation "measure (\<lambda>(chars, index, state, start). length chars - index)") auto

declare scan_token.simps [simp del]

lemma scan_token_mono:
  "scan_token chars index state start = (s, e, i, st, b) \<Longrightarrow> index \<le> i"
proof (induction chars index state start rule: scan_token.induct)
  case (1 chars index state start)
  then show ?case
    by (subst (asm) (2) scan_token.simps)
      (auto simp: Let_def split: if_splits)
qed

lemma scan_token_progress:
  assumes "index < length chars" and "scan_token chars index (-2) index = (s, e, i, st, b)"
  shows "index < i"
  using assms scan_token_mono [of chars "index + 1"]
  by (subst (asm) scan_token.simps) (auto simp: Let_def Suc_le_eq split: if_splits)

lemma scan_token_shrinks:
  assumes "index < length chars" and "(s, e, i, st, b) = scan_token chars index (-2) index"
  shows "length chars - i < length chars - index"
  using scan_token_progress [OF assms(1) assms(2) [symmetric]] assms(1) by arith

function parse_tokens :: "(string \<Rightarrow> string) \<Rightarrow> string \<Rightarrow> nat \<Rightarrow> Item list" where
  "parse_tokens lc chars index =
     (if index < length chars then
        (case scan_token chars index (-2) index of
           (start, stop, index', state, before_digit) \<Rightarrow>
             (let tok = take (stop - start) (drop start chars) in
              (if tok = [] then Number (Digits ''0'')
               else if state \<ge> 0 then Number (Digits tok)
               else text_item lc tok (index' \<ge> length chars) before_digit)
              # parse_tokens lc chars index'))
      else [])"
  by pat_completeness auto
termination
  by (relation "measure (\<lambda>(lc, chars, index). length chars - index)")
    (auto intro: scan_token_shrinks)

declare parse_tokens.simps [simp del]

text \<open>The loop of \<^verbatim>\<open>trim_padding\<close>, for \<^verbatim>\<open>i\<close> from the last index down to 1.\<close>

fun trim_loop :: "Item list \<Rightarrow> nat \<Rightarrow> bool option \<Rightarrow> nat \<Rightarrow> bool \<Rightarrow> bool list \<Rightarrow> bool list" where
  "trim_loop its 0 run stop tail_dropped keep = keep"
| "trim_loop its (Suc j) run stop tail_dropped keep =
     (let i = Suc j;
          number = is_number (its ! i);
          stop' = (if run \<noteq> Some number then i else stop)
      in if stop' = i \<and> (tail_dropped \<or> is_number (its ! (i - 1)) = number) \<and>
            cmp_padding (its ! i) = Equal
         then trim_loop its j (Some number) (stop' - 1) tail_dropped (keep[i := False])
         else trim_loop its j (Some number) stop' False keep)"

definition trim_padding :: "Item list \<Rightarrow> Item list" where
  "trim_padding its =
     (let keep = trim_loop its (length its - 1) None 0 True (replicate (length its) True)
      in map fst (filter snd (zip its keep)))"

definition parse_items :: "(string \<Rightarrow> string) \<Rightarrow> string \<Rightarrow> Item list" where
  "parse_items lc version = trim_padding (parse_tokens lc version 0)"

definition Version_parse :: "(string \<Rightarrow> string) \<Rightarrow> string \<Rightarrow> VersionError + Version" where
  "Version_parse lc s =
     (let trimmed = trim s in
      if trimmed = [] \<or> length trimmed > MAX_COMPONENT_BYTES then Inl (InvalidVersion s)
      else if contains_sub ''${'' trimmed then Inl (UnresolvedProperty trimmed)
      else Inr \<lparr>original = trimmed, items = parse_items lc trimmed\<rparr>)"

definition Version_unresolved :: "(string \<Rightarrow> string) \<Rightarrow> string \<Rightarrow> Version" where
  "Version_unresolved lc s =
     (let trimmed = trim s in
      \<lparr>original = trimmed,
       items = (if length trimmed > MAX_COMPONENT_BYTES then [] else parse_items lc trimmed)\<rparr>)"

definition Version_as_str :: "Version \<Rightarrow> string" where
  "Version_as_str v = original v"

subsection \<open>Sorting\<close>

text \<open>
  The merge loop and the merge sort of \<^verbatim>\<open>sort_by_key\<close>, over the comparison of the keys: an element of
  the right half goes first only when it is less than the one of the left half.
\<close>

fun merge_runs :: "('k \<Rightarrow> 'k \<Rightarrow> ordering) \<Rightarrow> ('a \<Rightarrow> 'k) \<Rightarrow> 'a list \<Rightarrow> 'a list \<Rightarrow> 'a list" where
  "merge_runs cmp key [] right = right"
| "merge_runs cmp key left [] = left"
| "merge_runs cmp key (first # left) (second # right) =
     (if cmp (key second) (key first) = Less
      then second # merge_runs cmp key (first # left) right
      else first # merge_runs cmp key left (second # right))"

function merge_sort :: "('k \<Rightarrow> 'k \<Rightarrow> ordering) \<Rightarrow> ('a \<Rightarrow> 'k) \<Rightarrow> 'a list \<Rightarrow> 'a list" where
  "merge_sort cmp key left =
     (if length left < 2 then left
      else merge_runs cmp key (merge_sort cmp key (take (length left div 2) left))
             (merge_sort cmp key (drop (length left div 2) left)))"
  by pat_completeness auto
termination
  by (relation "measure (\<lambda>(cmp, key, left). length left)") auto

declare merge_sort.simps [simp del]

definition sort_by_key :: "('a \<Rightarrow> Version) \<Rightarrow> 'a list \<Rightarrow> 'a list" where
  "sort_by_key key xs = merge_sort Version_cmp key xs"

section \<open>The comparison is reflexive and antisymmetric\<close>

lemma cmp_items_refl: "cmp_items number its its = Equal"
  by (induction its arbitrary: number) auto

lemma cmp_items_swap: "cmp_items number b a = reverse (cmp_items number a b)"
proof (induction number a b rule: cmp_items.induct)
  case (4 number this these that others)
  show ?case
  proof (cases "is_number this = is_number that")
    case True
    with 4 show ?thesis
      by (auto simp: cmp_of_swap [of that this] split: ordering.splits)
  next
    case False
    then show ?thesis by auto
  qed
qed simp_all

interpretation version: rust_ord Version_cmp
  by unfold_locales (simp_all add: Version_cmp_def cmp_items_refl cmp_items_swap [symmetric])

section \<open>Padding removal\<close>

abbreviation is_padding :: "Item \<Rightarrow> bool" where
  "is_padding x \<equiv> cmp_padding x = Equal"

fun trim_spec :: "Item \<Rightarrow> Item list \<Rightarrow> Item list" where
  "trim_spec p [] = []"
| "trim_spec p (x # xs) =
     (let r = trim_spec x xs in
      if is_padding x \<and>
         (r = [] \<or> is_number (hd r) \<noteq> is_number x \<and> is_number p = is_number x)
      then r else x # r)"

definition kept :: "'a list \<Rightarrow> bool list \<Rightarrow> 'a list" where
  "kept xs keep = map fst (filter snd (zip xs keep))"

lemma kept_simps [simp]:
  "kept [] keep = []"
  "kept (x # xs) (k # keep) = (if k then x # kept xs keep else kept xs keep)"
  by (simp_all add: kept_def)

lemma kept_drop:
  assumes "i < length xs" and "length keep = length xs"
  shows "kept (drop i xs) (drop i keep) =
    (if keep ! i then xs ! i # kept (drop (Suc i) xs) (drop (Suc i) keep)
     else kept (drop (Suc i) xs) (drop (Suc i) keep))"
proof -
  have "drop i xs = xs ! i # drop (Suc i) xs" "drop i keep = keep ! i # drop (Suc i) keep"
    using assms by (simp_all add: Cons_nth_drop_Suc)
  then show ?thesis by simp
qed

text \<open>
  The invariant of the loop before it looks at index \<open>i\<close>: what is kept above \<open>i\<close> is \<open>trim_spec\<close> of that
  part, and \<open>stop\<close> and \<open>run\<close> tell whether \<open>i\<close> would be the last item kept of its run.
\<close>

definition trim_inv ::
  "Item list \<Rightarrow> nat \<Rightarrow> bool option \<Rightarrow> nat \<Rightarrow> bool \<Rightarrow> bool list \<Rightarrow> bool" where
  "trim_inv its i run stop tail_dropped keep \<longleftrightarrow>
     (let r = trim_spec (its ! i) (drop (Suc i) its); number = is_number (its ! i) in
      i < length its \<and> length keep = length its \<and> (\<forall>k \<le> i. keep ! k) \<and>
      kept (drop (Suc i) its) (drop (Suc i) keep) = r \<and>
      tail_dropped = (r = []) \<and> (run = None \<or> i \<le> stop) \<and>
      ((run \<noteq> Some number \<or> stop = i) \<longleftrightarrow> (r = [] \<or> is_number (hd r) \<noteq> number)))"

lemma trim_inv_step:
  fixes its j stop run tail_dropped
  defines "x \<equiv> its ! Suc j"
  defines "stop' \<equiv> (if run \<noteq> Some (is_number x) then Suc j else stop)"
  defines "drops \<equiv> stop' = Suc j \<and> (tail_dropped \<or> is_number (its ! j) = is_number x) \<and> is_padding x"
  assumes inv: "trim_inv its (Suc j) run stop tail_dropped keep"
  shows "drops \<Longrightarrow>
      trim_inv its j (Some (is_number x)) (stop' - 1) tail_dropped (keep[Suc j := False])"
    and "\<not> drops \<Longrightarrow> trim_inv its j (Some (is_number x)) stop' False keep"
proof -
  define r where "r = trim_spec x (drop (Suc (Suc j)) its)"
  have len: "Suc j < length its" "length keep = length its" "\<forall>k \<le> Suc j. keep ! k"
    and tail: "tail_dropped = (r = [])"
    and stop_i: "run = None \<or> Suc j \<le> stop"
    and run: "(run \<noteq> Some (is_number x) \<or> stop = Suc j) \<longleftrightarrow>
        (r = [] \<or> is_number (hd r) \<noteq> is_number x)"
    and kept: "kept (drop (Suc (Suc j)) its) (drop (Suc (Suc j)) keep) = r"
    using inv by (auto simp: x_def r_def trim_inv_def Let_def)
  have stop'_iff: "stop' = Suc j \<longleftrightarrow> r = [] \<or> is_number (hd r) \<noteq> is_number x"
    unfolding stop'_def by (cases "run = Some (is_number x)") (use run in auto)
  have stop'_ge: "Suc j \<le> stop'"
    using stop_i by (auto simp: stop'_def)
  have drops_iff: "drops \<longleftrightarrow> is_padding x \<and>
      (r = [] \<or> is_number (hd r) \<noteq> is_number x \<and> is_number (its ! j) = is_number x)"
    using tail stop'_iff by (auto simp: drops_def)
  have "drop (Suc j) its = x # drop (Suc (Suc j)) its"
    using len(1) by (simp add: x_def Cons_nth_drop_Suc)
  then have step: "trim_spec (its ! j) (drop (Suc j) its) = (if drops then r else x # r)"
    by (simp add: drops_iff r_def Let_def)
  have kept_j: "kept (drop (Suc j) its) (drop (Suc j) keep) = x # r"
    using kept_drop [OF len(1,2)] len(3) kept by (simp add: x_def)
  have kept_j': "kept (drop (Suc j) its) (drop (Suc j) (keep[Suc j := False])) = r"
    using kept_drop [of "Suc j" its "keep[Suc j := False]"] len kept by simp
  {
    assume "drops"
    moreover from this have "r = [] \<or> is_number (hd r) \<noteq> is_number (its ! j)"
      by (auto simp: drops_iff)
    moreover from \<open>drops\<close> have "stop' = Suc j" by (simp add: drops_def)
    ultimately show "trim_inv its j (Some (is_number x)) (stop' - 1) tail_dropped (keep[Suc j := False])"
      using len tail kept_j' by (simp add: trim_inv_def step)
  next
    assume "\<not> drops"
    then show "trim_inv its j (Some (is_number x)) stop' False keep"
      using len kept_j stop'_ge by (auto simp: trim_inv_def step)
  }
qed

lemma trim_loop_spec:
  "trim_inv its i run stop tail_dropped keep \<Longrightarrow>
   kept its (trim_loop its i run stop tail_dropped keep) =
     its ! 0 # trim_spec (its ! 0) (drop (Suc 0) its)"
proof (induction i arbitrary: run stop tail_dropped keep)
  case 0
  then have inv: "0 < length its" "length keep = length its" "keep ! 0"
    "kept (drop (Suc 0) its) (drop (Suc 0) keep) = trim_spec (its ! 0) (drop (Suc 0) its)"
    by (auto simp: trim_inv_def Let_def)
  have "kept (drop 0 its) (drop 0 keep) = its ! 0 # trim_spec (its ! 0) (drop (Suc 0) its)"
    using kept_drop [OF inv(1,2)] inv(3,4) by simp
  then show ?case by simp
next
  case (Suc j)
  let ?x = "its ! Suc j"
  let ?stop = "if run \<noteq> Some (is_number ?x) then Suc j else stop"
  let ?drops = "?stop = Suc j \<and> (tail_dropped \<or> is_number (its ! j) = is_number ?x) \<and> is_padding ?x"
  note step = trim_inv_step [OF Suc.prems]
  show ?case
  proof (cases ?drops)
    case True
    have "trim_loop its (Suc j) run stop tail_dropped keep =
        trim_loop its j (Some (is_number ?x)) (?stop - 1) tail_dropped (keep[Suc j := False])"
      by (simp only: trim_loop.simps Let_def diff_Suc_1 if_P [OF True])
    then show ?thesis using Suc.IH [OF step(1) [OF True]] by (simp only:)
  next
    case False
    have "trim_loop its (Suc j) run stop tail_dropped keep =
        trim_loop its j (Some (is_number ?x)) ?stop False keep"
      by (simp only: trim_loop.simps Let_def diff_Suc_1 if_not_P [OF False])
    then show ?thesis using Suc.IH [OF step(2) [OF False]] by (simp only:)
  qed
qed

lemma trim_padding_spec: "trim_padding (x # xs) = x # trim_spec x xs"
proof -
  let ?its = "x # xs"
  have "trim_inv ?its (length xs) None 0 True (replicate (Suc (length xs)) True)"
    by (simp add: trim_inv_def del: replicate_Suc)
  from trim_loop_spec [OF this] show ?thesis
    by (simp add: trim_padding_def kept_def)
qed

lemma trim_padding_Nil [simp]: "trim_padding [] = []"
  by (simp add: trim_padding_def)

text \<open>
  The normal form of the items after the first, where \<open>k\<close> is the kind of the item before: an item
  equal to the padding is followed by another one of its kind, or begins a run that ends in one that
  is not padding.
\<close>

fun normal :: "bool \<Rightarrow> Item list \<Rightarrow> bool" where
  "normal k [] \<longleftrightarrow> True"
| "normal k (x # xs) \<longleftrightarrow>
     (is_padding x \<longrightarrow> xs \<noteq> [] \<and> (is_number (hd xs) = is_number x \<or> k \<noteq> is_number x)) \<and>
     normal (is_number x) xs"

fun trimmed_items :: "Item list \<Rightarrow> bool" where
  "trimmed_items [] \<longleftrightarrow> True"
| "trimmed_items (x # xs) \<longleftrightarrow> normal (is_number x) xs"

lemma trim_spec_normal: "normal (is_number p) (trim_spec p xs)"
proof (induction xs arbitrary: p)
  case Nil
  then show ?case by simp
next
  case (Cons x xs)
  show ?case
  proof (cases "trim_spec x xs")
    case Nil
    then show ?thesis by simp
  next
    case (Cons y ys)
    with Cons.IH [of x] show ?thesis by (auto simp: Let_def)
  qed
qed

lemma trim_padding_trimmed: "trimmed_items (trim_padding its)"
  by (cases its) (simp_all add: trim_padding_spec trim_spec_normal)

lemma compare_padding_Nil [simp]: "compare_padding [] n = Equal"
  by (simp add: compare_padding_def)

lemma compare_padding_Cons [simp]:
  "compare_padding (x # xs) n =
     (if n = None \<or> n = Some (is_number x) then then_ord (cmp_padding x) (compare_padding xs n)
      else compare_padding xs n)"
  by (cases "cmp_padding x") (auto simp: compare_padding_def)

lemma normal_pad: "normal k xs \<Longrightarrow> xs \<noteq> [] \<Longrightarrow> compare_padding xs None \<noteq> Equal"
  by (induction xs arbitrary: k) auto

lemma normal_run:
  assumes "normal k xs" and "xs \<noteq> []" and "is_number (hd xs) = k"
  shows "compare_padding xs (Some k) = compare_padding xs None"
    and "compare_padding xs None \<noteq> Equal"
proof -
  show "compare_padding xs (Some k) = compare_padding xs None"
    using assms
  proof (induction xs)
    case (Cons x xs)
    then show ?case by (cases "cmp_padding x") auto
  qed simp
  show "compare_padding xs None \<noteq> Equal" using assms(1,2) by (rule normal_pad)
qed

lemma cmp_items_kinds:
  assumes "normal k (x # xs)" and "normal k (y # ys)" and "is_number x \<noteq> is_number y"
  shows "cmp_items k (x # xs) (y # ys) =
    (if is_number x = k then compare_padding (x # xs) None
     else reverse (compare_padding (y # ys) None))"
proof (cases "is_number x = k")
  case True
  with assms(3) show ?thesis
    using normal_run(1) [OF assms(1)] by (simp del: compare_padding_Cons)
next
  case False
  with assms(3) have "is_number y = k" by auto
  with False assms(3) show ?thesis
    using normal_run(1) [OF assms(2)] by (simp del: compare_padding_Cons)
qed

lemma cmp_items_Equal:
  "normal k a \<Longrightarrow> normal k b \<Longrightarrow> cmp_items k a b = Equal \<Longrightarrow> a = b"
proof (induction k a b rule: cmp_items.induct)
  case (2 k y ys)
  then show ?case using normal_pad [of k "y # ys"] by (simp del: compare_padding_Cons)
next
  case (3 k x xs)
  then show ?case using normal_pad [of k "x # xs"] by (simp del: compare_padding_Cons)
next
  case (4 k x xs y ys)
  show ?case
  proof (cases "is_number x = is_number y")
    case True
    with 4 show ?thesis by (cases "cmp_of x y") auto
  next
    case False
    with 4(2-4) cmp_items_kinds [of k x xs y ys]
      normal_pad [of k "x # xs"] normal_pad [of k "y # ys"]
    show ?thesis by (simp del: compare_padding_Cons normal.simps cmp_items.simps split: if_splits)
  qed
qed simp

text \<open>Digits as the tokenizer makes them: at least one, and no leading zero before another digit.\<close>

definition canonical_digits :: "string \<Rightarrow> bool" where
  "canonical_digits d \<longleftrightarrow> d \<noteq> [] \<and> list_all is_ascii_digit d \<and> (hd d = CHR ''0'' \<longrightarrow> d = ''0'')"

fun item_ok :: "Item \<Rightarrow> bool" where
  "item_ok (Number (Digits d)) \<longleftrightarrow> canonical_digits d"
| "item_ok _ \<longleftrightarrow> True"

lemma canonical_ge_zero:
  assumes "canonical_digits d"
  shows "Digits ''0'' \<le> Digits d"
proof (cases "length d = 1")
  case True
  then obtain c where "d = [c]" by (auto simp: length_Suc_conv)
  with assms show ?thesis
    by (auto simp: canonical_digits_def less_eq_Number_def is_ascii_digit_def less_eq_prod_def)
next
  case False
  with assms show ?thesis
    by (cases d) (auto simp: canonical_digits_def less_eq_Number_def less_eq_prod_def)
qed

lemma padding_mono:
  assumes "is_number x = is_number y" and "item_ok x" and "item_ok y" and "x < y"
  shows "cmp_padding x = Less \<or> cmp_padding y = Greater"
proof (cases "is_number x")
  case True
  show ?thesis
  proof (cases "x = ItemMin \<or> y = ItemMax")
    case False
    with True assms(1,4) obtain m n where mn: "x = Number m" "y = Number n"
      by (cases x; cases y) (auto simp: less_Item_def)
    then have "m < n" using assms(4) by (simp add: less_Item_def)
    moreover have "Digits ''0'' \<le> m" using assms(2) mn(1) canonical_ge_zero by (cases m) auto
    ultimately show ?thesis using mn by auto
  qed auto
next
  case False
  with assms(1,4) show ?thesis
    by (cases x; cases y) (auto simp: less_Item_def)
qed

lemma cmp_items_pad:
  assumes "normal k a" "normal k b" "list_all item_ok a" "list_all item_ok b"
    and "cmp_items k a b = Less"
  shows "compare_padding a None = Less \<or> compare_padding b None = Greater \<or>
    compare_padding a None = compare_padding b None"
  using assms
proof (induction k a b rule: cmp_items.induct)
  case (4 k x xs y ys)
  show ?case
  proof (cases "is_number x = is_number y")
    case False
    with 4(2,3,6) cmp_items_kinds [of k x xs y ys] show ?thesis
      by (simp del: compare_padding_Cons normal.simps cmp_items.simps split: if_splits)
  next
    case kinds: True
    show ?thesis
    proof (cases "x = y")
      case True
      with 4 kinds show ?thesis by (cases "cmp_padding y") auto
    next
      case False
      with 4(6) kinds have "x < y" by (cases "cmp_of x y") auto
      from padding_mono [OF kinds _ _ this] 4(4,5) show ?thesis by auto
    qed
  qed
qed (simp_all del: compare_padding_Cons)

lemma cmp_items_across:
  assumes "normal k a" "normal k c" "list_all item_ok a" "list_all item_ok c"
    and "compare_padding a None = Less" and "compare_padding c None = Greater"
  shows "cmp_items k a c = Less"
proof (cases "cmp_items k a c")
  case Equal
  from cmp_items_Equal [OF assms(1,2) this] assms(5,6) show ?thesis by simp
next
  case Greater
  then have "cmp_items k c a = Less" by (subst cmp_items_swap) simp
  from cmp_items_pad [OF assms(2,1,4,3) this] assms(5,6) show ?thesis by simp
qed

lemma cmp_items_trans:
  "normal k a \<Longrightarrow> normal k b \<Longrightarrow> normal k c \<Longrightarrow>
   list_all item_ok a \<Longrightarrow> list_all item_ok b \<Longrightarrow> list_all item_ok c \<Longrightarrow>
   cmp_items k a b = Less \<Longrightarrow> cmp_items k b c = Less \<Longrightarrow> cmp_items k a c = Less"
proof (induction a arbitrary: k b c)
  case Nil
  then obtain y ys where b: "b = y # ys" by (cases b) auto
  with Nil have "compare_padding b None = Greater" by (simp del: compare_padding_Cons)
  with cmp_items_pad [OF Nil(2,3,5,6,8)] have "compare_padding c None = Greater" by auto
  then show ?case by (cases c) (auto simp del: compare_padding_Cons)
next
  case (Cons x xs)
  note pad_ab = cmp_items_pad [OF Cons.prems(1,2,4,5,7)]
  note pad_bc = cmp_items_pad [OF Cons.prems(2,3,5,6,8)]
  note across = cmp_items_across [OF Cons.prems(1,3,4,6)]
  show ?case
  proof (cases b)
    case Nil
    with Cons.prems(7,8) have "compare_padding (x # xs) None = Less" "compare_padding c None = Greater"
      by (auto simp del: compare_padding_Cons) (cases c; simp del: compare_padding_Cons)
    then show ?thesis by (rule across)
  next
    case b: (Cons y ys)
    show ?thesis
    proof (cases c)
      case Nil
      with Cons.prems(8) b have "compare_padding b None = Less" by (simp del: compare_padding_Cons)
      with pad_ab Nil show ?thesis by (auto simp del: compare_padding_Cons)
    next
      case c: (Cons z zs)
      show ?thesis
      proof (cases "is_number x = is_number y \<and> is_number y = is_number z")
        case True
        show ?thesis
        proof (cases "x = y \<and> y = z")
          case True
          with Cons.prems(1-8) b c show ?thesis
            using Cons.IH [of "is_number z" ys zs] by (simp del: compare_padding_Cons)
        next
          case False
          have "x \<le> y"
            using True Cons.prems(7) b by (cases "cmp_of x y") auto
          moreover have "y \<le> z"
            using True Cons.prems(8) b c by (cases "cmp_of y z") auto
          ultimately have "x < z" using False by auto
          moreover have "is_number x = is_number z" using True by simp
          ultimately show ?thesis by (simp add: c cmp_of_def)
        qed
      next
        case False
        let ?pa = "compare_padding (x # xs) None" and ?pb = "compare_padding (y # ys) None"
          and ?pc = "compare_padding (z # zs) None"
        have kab: "(if is_number x = k then ?pa else reverse ?pb) = Less"
          if "is_number x \<noteq> is_number y"
          by (rule trans [OF cmp_items_kinds [OF Cons.prems(1) Cons.prems(2) [unfolded b] that, symmetric]
                Cons.prems(7) [unfolded b]])
        have kbc: "(if is_number y = k then ?pb else reverse ?pc) = Less"
          if "is_number y \<noteq> is_number z"
          by (rule trans [OF cmp_items_kinds [OF Cons.prems(2,3) [unfolded b c] that, symmetric]
                Cons.prems(8) [unfolded b c]])
        note kac = cmp_items_kinds [OF Cons.prems(1) Cons.prems(3) [unfolded c]]
        show ?thesis unfolding c
        proof (cases "is_number x = is_number y")
          case True
          with False have yz: "is_number y \<noteq> is_number z" by simp
          with kac True kbc pad_ab [unfolded b]
          show "cmp_items k (x # xs) (z # zs) = Less"
            by (cases "is_number y = k") (auto simp del: compare_padding_Cons cmp_items.simps)
        next
          case xy: False
          show "cmp_items k (x # xs) (z # zs) = Less"
          proof (cases "is_number y = is_number z")
            case True
            with kac xy kab pad_bc [unfolded b c] show ?thesis
              by (cases "is_number x = k") (auto simp del: compare_padding_Cons cmp_items.simps)
          next
            case False
            with xy kab kbc across [unfolded c] show ?thesis
              by (cases "is_number x = k") (auto simp del: compare_padding_Cons cmp_items.simps)
          qed
        qed
      qed
    qed
  qed
qed

section \<open>The tokenizer\<close>

text \<open>What the inner loop knows of the token \<open>chars[start..index]\<close> in each of its states.\<close>

definition token_inv :: "string \<Rightarrow> nat \<Rightarrow> int \<Rightarrow> nat \<Rightarrow> bool" where
  "token_inv chars index state start \<longleftrightarrow>
     start \<le> index \<and> index \<le> length chars \<and>
     (state = -2 \<and> start = index \<or>
      state = -1 \<and> start < index \<or>
      state = 0 \<and> index = Suc start \<and> chars ! start = CHR ''0'' \<or>
      state = 1 \<and> start < index \<and> chars ! start \<noteq> CHR ''0'' \<and>
        (\<forall>i. start \<le> i \<and> i < index \<longrightarrow> is_ascii_digit (chars ! i)))"

lemma token_inv_digit:
  assumes "token_inv chars index state start" and "index < length chars"
    and "is_ascii_digit (chars ! index)" and "state \<noteq> -1"
  shows "token_inv chars (index + 1)
    (if state > 0 \<or> chars ! index \<noteq> CHR ''0'' then 1 else 0)
    (if state = 0 then start + 1 else start)"
  using assms by (auto simp: token_inv_def less_Suc_eq le_less_Suc_eq)

lemma token_inv_text:
  assumes "token_inv chars index state start" and "index < length chars" and "state < 0"
  shows "token_inv chars (index + 1) (-1) start"
  using assms by (auto simp: token_inv_def)

lemma scan_token_inv:
  "token_inv chars index state start \<Longrightarrow> scan_token chars index state start = (s, e, i, st, b) \<Longrightarrow>
   token_inv chars e st s \<and> e \<le> i \<and> i \<le> length chars"
proof (induction chars index state start rule: scan_token.induct)
  case (1 chars index state start)
  let ?ch = "chars ! index"
  note eq = 1(4) [unfolded scan_token.simps [of chars index state start] Let_def]
  consider (stop) "\<not> index < length chars" | (sep) "index < length chars" "is_separator ?ch"
    | (digit_after_text) "index < length chars" "\<not> is_separator ?ch" "is_ascii_digit ?ch" "state = -1"
    | (digit) "index < length chars" "\<not> is_separator ?ch" "is_ascii_digit ?ch" "state \<noteq> -1"
    | (text_after_digit) "index < length chars" "\<not> is_separator ?ch" "\<not> is_ascii_digit ?ch" "0 \<le> state"
    | (letter) "index < length chars" "\<not> is_separator ?ch" "\<not> is_ascii_digit ?ch" "\<not> 0 \<le> state"
    by blast
  then show ?case
  proof cases
    case stop
    with eq 1(3) show ?thesis by (auto simp: token_inv_def)
  next
    case digit
    from 1(1) [OF digit(1) refl digit(2-4) token_inv_digit [OF 1(3) digit(1,3,4)]] eq digit
    show ?thesis by simp
  next
    case letter
    have "state < 0" using letter(4) by simp
    from 1(2) [OF letter(1) refl letter(2-4) token_inv_text [OF 1(3) letter(1) this]] eq letter
    show ?thesis by simp
  qed (use eq 1(3) in auto)
qed

lemma token_inv_start: "index \<le> length chars \<Longrightarrow> token_inv chars index (-2) index"
  by (simp add: token_inv_def)

lemma token_number_ok:
  assumes "token_inv chars e st s" and "0 \<le> st"
  shows "canonical_digits (take (e - s) (drop s chars))"
proof (cases "st = 0")
  case True
  with assms(1) have "e = Suc s" "chars ! s = CHR ''0''" "s < length chars"
    by (auto simp: token_inv_def)
  then have "take (e - s) (drop s chars) = ''0''"
    by (simp add: take_Suc hd_drop_conv_nth)
  then show ?thesis by (simp add: canonical_digits_def is_ascii_digit_def)
next
  case False
  with assms have inv: "s < e" "e \<le> length chars" "chars ! s \<noteq> CHR ''0''"
    "\<forall>i. s \<le> i \<and> i < e \<longrightarrow> is_ascii_digit (chars ! i)"
    by (auto simp: token_inv_def)
  then have "hd (take (e - s) (drop s chars)) = chars ! s"
    by (simp add: hd_take hd_drop_conv_nth)
  with inv show ?thesis
    by (auto simp: canonical_digits_def list_all_length)
qed

lemma parse_tokens_ok: "list_all item_ok (parse_tokens lc chars index)"
proof (induction lc chars index rule: parse_tokens.induct)
  case (1 lc chars index)
  show ?case
  proof (cases "index < length chars")
    case True
    obtain s e i st b where sc: "scan_token chars index (-2) index = (s, e, i, st, b)"
      by (metis prod_cases5)
    have inv: "token_inv chars e st s"
      using scan_token_inv [OF token_inv_start sc] True by simp
    let ?tok = "take (e - s) (drop s chars)"
    have "item_ok (if ?tok = [] then Number (Digits ''0'')
        else if 0 \<le> st then Number (Digits ?tok) else text_item lc ?tok (i \<ge> length chars) b)"
      using token_number_ok [OF inv]
      by (auto simp: canonical_digits_def is_ascii_digit_def text_item_def Let_def)
    with 1 [OF True sc [symmetric] refl refl refl refl] True sc show ?thesis
      by (subst parse_tokens.simps) (simp add: Let_def)
  next
    case False
    then show ?thesis by (simp add: parse_tokens.simps)
  qed
qed

lemma parse_tokens_Nil: "parse_tokens lc chars index = [] \<longleftrightarrow> length chars \<le> index"
  by (subst parse_tokens.simps) (auto simp: Let_def split: prod.splits)

lemma trim_spec_subset: "set (trim_spec p xs) \<subseteq> set xs"
  by (induction xs arbitrary: p) (auto simp: Let_def)

lemma parse_items_ok:
  "list_all item_ok (parse_items lc s)" "trimmed_items (parse_items lc s)"
  "parse_items lc s = [] \<longleftrightarrow> s = []"
proof -
  show "trimmed_items (parse_items lc s)"
    unfolding parse_items_def by (rule trim_padding_trimmed)
  show "list_all item_ok (parse_items lc s)"
    using parse_tokens_ok [of lc s 0] trim_spec_subset
    by (cases "parse_tokens lc s 0") (auto simp: parse_items_def trim_padding_spec list_all_iff)
  show "parse_items lc s = [] \<longleftrightarrow> s = []"
    using parse_tokens_Nil [of lc s 0]
    by (cases "parse_tokens lc s 0") (auto simp: parse_items_def trim_padding_spec)
qed

text \<open>The invariant of a version: what both constructors leave.\<close>

definition version_ok :: "Version \<Rightarrow> bool" where
  "version_ok v \<longleftrightarrow> list_all item_ok (items v) \<and> trimmed_items (items v)"

lemma Version_parse_ok: "Version_parse lc s = Inr v \<Longrightarrow> version_ok v \<and> items v \<noteq> []"
  by (auto simp: Version_parse_def version_ok_def Let_def parse_items_ok split: if_splits)

lemma Version_unresolved_ok: "version_ok (Version_unresolved lc s)"
  by (simp add: Version_unresolved_def version_ok_def Let_def parse_items_ok)

section \<open>The order of versions\<close>

text \<open>The versions that start with a number, where the order is total.\<close>

definition number_first :: "Version \<Rightarrow> bool" where
  "number_first v \<longleftrightarrow> version_ok v \<and> items v \<noteq> [] \<and> is_number (hd (items v))"

abbreviation number_first_items :: "Item list \<Rightarrow> bool" where
  "number_first_items its \<equiv>
     list_all item_ok its \<and> trimmed_items its \<and> its \<noteq> [] \<and> is_number (hd its)"

lemma number_first_trans:
  assumes "number_first_items a" "number_first_items b" "number_first_items c"
    and "cmp_items True a b = Less" and "cmp_items True b c = Less"
  shows "cmp_items True a c = Less"
proof -
  obtain x xs y ys z zs where eqs: "a = x # xs" "b = y # ys" "c = z # zs"
    using assms(1-3) by (cases a; cases b; cases c) auto
  have kinds: "is_number x" "is_number y" "is_number z"
    and norm: "normal True xs" "normal True ys" "normal True zs"
    and ok: "list_all item_ok xs" "list_all item_ok ys" "list_all item_ok zs"
    using assms(1-3) eqs by auto
  have step: "(case cmp_of x y of Equal \<Rightarrow> cmp_items True xs ys | r \<Rightarrow> r) = Less"
    "(case cmp_of y z of Equal \<Rightarrow> cmp_items True ys zs | r \<Rightarrow> r) = Less"
    using assms(4,5) kinds by (simp_all add: eqs cong: ordering.case_cong)
  have "x \<le> y" using step(1) by (cases "cmp_of x y") auto
  moreover have "y \<le> z" using step(2) by (cases "cmp_of y z") auto
  ultimately consider "x < z" | "x = y" "y = z" by fastforce
  then show ?thesis
  proof cases
    case 1
    then show ?thesis using kinds by (simp add: eqs cmp_of_def)
  next
    case 2
    with step cmp_items_trans [OF norm ok] show ?thesis using kinds by (simp add: eqs)
  qed
qed

interpretation number_first: rust_total_ord "cmp_items True" number_first_items
proof unfold_locales
  fix x y z :: "Item list"
  show "cmp_items True x x = Equal" by (rule cmp_items_refl)
  show "cmp_items True y x = reverse (cmp_items True x y)" by (rule cmp_items_swap)
  show "number_first_items x \<Longrightarrow> number_first_items y \<Longrightarrow> cmp_items True x y = Equal \<Longrightarrow> x = y"
    by (cases x; cases y) (auto dest: cmp_items_Equal split: if_splits ordering.splits)
  show "number_first_items x \<Longrightarrow> number_first_items y \<Longrightarrow> number_first_items z \<Longrightarrow>
      cmp_items True x y = Less \<Longrightarrow> cmp_items True y z = Less \<Longrightarrow> cmp_items True x z = Less"
    by (rule number_first_trans)
qed

lemma compare_padding_Equal:
  "compare_padding its n = Equal \<longleftrightarrow>
     (\<forall>x \<in> set its. n = None \<or> n = Some (is_number x) \<longrightarrow> is_padding x)"
  by (induction its) auto

lemma is_zero_iff:
  "is_zero v \<longleftrightarrow> (items v \<noteq> [] \<and> \<not> is_number (hd (items v))) \<or>
     (\<forall>x \<in> set (items v). is_number x \<longrightarrow> is_padding x)"
  by (cases "items v") (auto simp: is_zero_def list_all_iff)

lemma hash_consistent:
  assumes "version_ok v" "version_ok w" and eq: "Version_cmp v w = Equal"
  shows "hash_input v = hash_input w"
proof (cases "items v = [] \<or> items w = [] \<or> is_number (hd (items v)) \<noteq> is_number (hd (items w))")
  case True
  then have "is_zero v \<and> is_zero w"
    using eq unfolding Version_cmp_def is_zero_iff
    by (cases "items v"; cases "items w")
      (auto simp: compare_padding_Equal simp del: compare_padding_Cons split: if_splits)
  then show ?thesis by (simp add: hash_input_def)
next
  case False
  then obtain x xs y ys where eqs: "items v = x # xs" "items w = y # ys" "is_number x = is_number y"
    by (cases "items v"; cases "items w") auto
  have cmp: "(case cmp_of x y of Equal \<Rightarrow> cmp_items (is_number y) xs ys | r \<Rightarrow> r) = Equal"
    using eq by (simp add: Version_cmp_def eqs cong: ordering.case_cong)
  then have "x = y" by (cases "cmp_of x y") auto
  moreover have "xs = ys"
    using cmp cmp_items_Equal [of "is_number y" xs ys] assms(1,2) \<open>x = y\<close>
    by (simp add: version_ok_def eqs)
  ultimately have "items v = items w" by (simp add: eqs)
  then show ?thesis by (simp add: hash_input_def is_zero_def)
qed

section \<open>Numbers\<close>

definition digit_value :: "char \<Rightarrow> nat" where
  "digit_value c = of_char c - 48"

fun number_value :: "string \<Rightarrow> nat" where
  "number_value [] = 0"
| "number_value (c # cs) = digit_value c * 10 ^ length cs + number_value cs"

lemma digit_bounds: "is_ascii_digit c \<Longrightarrow> 48 \<le> (of_char c :: nat) \<and> of_char c \<le> (57 :: nat)"
  by (simp add: is_ascii_digit_def less_eq_char_def)

lemma number_value_less: "list_all is_ascii_digit d \<Longrightarrow> number_value d < 10 ^ length d"
proof (induction d)
  case (Cons c cs)
  then have "digit_value c \<le> 9" "number_value cs < 10 ^ length cs"
    using digit_bounds [of c] by (auto simp: digit_value_def)
  then have "digit_value c * 10 ^ length cs + number_value cs < 9 * 10 ^ length cs + 10 ^ length cs"
    by (meson add_le_less_mono mult_le_mono1)
  then show ?case by simp
qed simp

lemma same_length_value:
  "length a = length b \<Longrightarrow> list_all is_ascii_digit a \<Longrightarrow> list_all is_ascii_digit b \<Longrightarrow>
   a < b \<longleftrightarrow> number_value a < number_value b"
proof (induction a b rule: list_induct2)
  case (Cons x xs y ys)
  have bounds: "number_value xs < 10 ^ length ys" "number_value ys < 10 ^ length ys"
    using number_value_less [of xs] number_value_less [of ys] Cons by auto
  have digits: "x < y \<longleftrightarrow> digit_value x < digit_value y" "x = y \<longleftrightarrow> digit_value x = digit_value y"
    using digit_bounds [of x] digit_bounds [of y] Cons.prems
    by (auto simp: digit_value_def less_char_def) (metis diff_add_inverse2 le_add_diff_inverse2 of_char_eq_iff)
  have less: "m * 10 ^ length ys + number_value xs < n * 10 ^ length ys + number_value ys"
    if "m < n" for m n
  proof -
    have "Suc m * 10 ^ length ys \<le> n * 10 ^ length ys" using that by (simp only: mult_le_mono1 Suc_leI)
    with bounds show ?thesis by simp
  qed
  have less': "n * 10 ^ length ys + number_value ys < m * 10 ^ length ys + number_value xs"
    if "n < m" for m n
  proof -
    have "Suc n * 10 ^ length ys \<le> m * 10 ^ length ys" using that by (simp only: mult_le_mono1 Suc_leI)
    with bounds show ?thesis by simp
  qed
  show ?case
    using Cons digits less [of "digit_value x" "digit_value y"] less' [of "digit_value y" "digit_value x"]
    by (cases "digit_value x" "digit_value y" rule: linorder_cases) auto
qed simp

lemma canonical_value_ge:
  assumes "canonical_digits d" and "1 < length d"
  shows "10 ^ (length d - 1) \<le> number_value d"
proof (cases d)
  case (Cons c cs)
  with assms have "c \<noteq> CHR ''0''" "is_ascii_digit c" by (auto simp: canonical_digits_def)
  moreover have "(of_char c :: nat) \<noteq> 48"
    using \<open>c \<noteq> CHR ''0''\<close> of_char_eq_iff [of c "CHR ''0''"] by (auto simp del: of_char_eq_iff)
  ultimately have "1 \<le> digit_value c"
    using digit_bounds [of c] by (auto simp: digit_value_def)
  then have "1 * 10 ^ length cs \<le> digit_value c * 10 ^ length cs"
    by (rule mult_le_mono1)
  then have "10 ^ length cs \<le> number_value (c # cs)" by (simp only: mult_1 number_value.simps trans_le_add1)
  then show ?thesis using Cons by simp
qed (use assms in simp)

lemma shorter_value_less:
  assumes "canonical_digits a" "canonical_digits b" "length a < length b"
  shows "number_value a < number_value b"
proof -
  have "length a \<ge> 1" using assms(1) by (cases a) (auto simp: canonical_digits_def)
  then have "10 ^ (length b - 1) \<le> number_value b"
    using canonical_value_ge [OF assms(2)] assms(3) by simp
  moreover have "(10::nat) ^ length a \<le> 10 ^ (length b - 1)"
    by (rule power_increasing) (use assms(3) in auto)
  moreover have "number_value a < 10 ^ length a"
    using assms(1) by (intro number_value_less) (simp add: canonical_digits_def)
  ultimately show ?thesis by linarith
qed

lemma number_order_value:
  assumes "canonical_digits a" "canonical_digits b"
  shows "Digits a < Digits b \<longleftrightarrow> number_value a < number_value b"
proof -
  have digits: "list_all is_ascii_digit a" "list_all is_ascii_digit b"
    using assms by (auto simp: canonical_digits_def)
  show ?thesis
  proof (cases "length a" "length b" rule: linorder_cases)
    case equal
    then show ?thesis using same_length_value [OF equal digits] by (simp add: less_Number_def less_prod_def)
  qed (use shorter_value_less assms in \<open>auto simp: less_Number_def less_prod_def dest: less_asym\<close>)
qed

section \<open>Token boundaries\<close>

text \<open>
  An index next to an ASCII byte, or at an end of the text: there a slice of UTF-8 text never splits a
  character, because all bytes of a longer character are outside ASCII.
\<close>

definition is_ascii :: "char \<Rightarrow> bool" where
  "is_ascii c \<longleftrightarrow> of_char c < (128 :: nat)"

definition ascii_boundary :: "string \<Rightarrow> nat \<Rightarrow> bool" where
  "ascii_boundary chars i \<longleftrightarrow>
     i = 0 \<or> i \<ge> length chars \<or> is_ascii (chars ! i) \<or> is_ascii (chars ! (i - 1))"

lemma is_ascii_digit_ascii: "is_ascii_digit c \<Longrightarrow> is_ascii c"
  using digit_bounds [of c] by (simp add: is_ascii_def)

lemma is_separator_ascii: "is_separator c \<Longrightarrow> is_ascii c"
  by (auto simp: is_separator_def is_ascii_def)

lemma ascii_boundaryI:
  "is_ascii (chars ! i) \<Longrightarrow> ascii_boundary chars i"
  "is_ascii (chars ! i) \<Longrightarrow> ascii_boundary chars (Suc i)"
  by (simp_all add: ascii_boundary_def)

lemma scan_token_boundaries:
  "ascii_boundary chars start \<Longrightarrow> (0 \<le> state \<Longrightarrow> ascii_boundary chars index) \<Longrightarrow>
   token_inv chars index state start \<Longrightarrow>
   scan_token chars index state start = (s, e, i, st, b) \<Longrightarrow>
   ascii_boundary chars s \<and> ascii_boundary chars e \<and> ascii_boundary chars i"
proof (induction chars index state start rule: scan_token.induct)
  case (1 chars index state start)
  let ?ch = "chars ! index"
  note eq = 1(6) [unfolded scan_token.simps [of chars index state start] Let_def]
  consider (stop) "\<not> index < length chars" | (sep) "index < length chars" "is_separator ?ch"
    | (digit_after_text) "index < length chars" "\<not> is_separator ?ch" "is_ascii_digit ?ch" "state = -1"
    | (digit) "index < length chars" "\<not> is_separator ?ch" "is_ascii_digit ?ch" "state \<noteq> -1"
    | (text_after_digit) "index < length chars" "\<not> is_separator ?ch" "\<not> is_ascii_digit ?ch" "0 \<le> state"
    | (letter) "index < length chars" "\<not> is_separator ?ch" "\<not> is_ascii_digit ?ch" "\<not> 0 \<le> state"
    by blast
  then show ?case
  proof cases
    case stop
    with eq 1(3) show ?thesis by (auto simp: ascii_boundary_def)
  next
    case sep
    with eq 1(3) is_separator_ascii [OF sep(2)] show ?thesis by (auto intro: ascii_boundaryI)
  next
    case digit_after_text
    with eq 1(3) is_ascii_digit_ascii [OF digit_after_text(3)] show ?thesis
      by (auto intro: ascii_boundaryI)
  next
    case digit
    have asc: "is_ascii ?ch" using digit(3) by (rule is_ascii_digit_ascii)
    have start: "ascii_boundary chars (if state = 0 then start + 1 else start)"
      using 1(3,5) asc by (auto simp: token_inv_def intro: ascii_boundaryI)
    have next_index: "ascii_boundary chars (index + 1)"
      using asc by (simp add: ascii_boundaryI)
    from 1(1) [OF digit(1) refl digit(2-4) start next_index token_inv_digit [OF 1(5) digit(1,3,4)]] eq digit
    show ?thesis by simp
  next
    case text_after_digit
    with eq 1(3,4) show ?thesis by auto
  next
    case letter
    have "state < 0" using letter(4) by simp
    from 1(2) [OF letter(1) refl letter(2-4) 1(3) _ token_inv_text [OF 1(5) letter(1) this]] eq letter
    show ?thesis by simp
  qed
qed

section \<open>The merge sort\<close>

lemma mset_merge_runs: "mset (merge_runs cmp key xs ys) = mset xs + mset ys"
  by (induction cmp key xs ys rule: merge_runs.induct) auto

lemma mset_merge_sort: "mset (merge_sort cmp key xs) = mset xs"
proof (induction cmp key xs rule: merge_sort.induct)
  case (1 cmp key xs)
  let ?n = "length xs div 2"
  have "mset (take ?n xs) + mset (drop ?n xs) = mset xs"
    by (metis append_take_drop_id mset_append)
  with 1 show ?case by (subst merge_sort.simps) (simp add: mset_merge_runs)
qed

lemma set_merge_sort: "set (merge_sort cmp key xs) = set xs"
  by (metis mset_merge_sort set_mset_mset)

lemma hd_merge_runs:
  "merge_runs cmp key xs ys \<noteq> [] \<Longrightarrow>
   hd (merge_runs cmp key xs ys) = (if xs = [] then hd ys else if ys = [] then hd xs
     else if cmp (key (hd ys)) (key (hd xs)) = Less then hd ys else hd xs)"
  by (cases xs; cases ys) auto

context rust_ord
begin

abbreviation ordered :: "('b \<Rightarrow> 'a) \<Rightarrow> 'b \<Rightarrow> 'b \<Rightarrow> bool" where
  "ordered key x y \<equiv> cmp (key x) (key y) \<noteq> Greater"

lemma merge_runs_successively:
  "successively (ordered key) xs \<Longrightarrow> successively (ordered key) ys \<Longrightarrow>
   successively (ordered key) (merge_runs cmp key xs ys)"
proof (induction xs arbitrary: ys)
  case (Cons x xs)
  note left = Cons
  show ?case
    using left(3)
  proof (induction ys)
    case (Cons y ys)
    show ?case
    proof (cases "cmp (key y) (key x) = Less")
      case True
      have "successively (ordered key) (merge_runs cmp key (x # xs) ys)"
        using Cons by (auto simp: successively_Cons)
      moreover have "ordered key y (hd (merge_runs cmp key (x # xs) ys))"
        if "merge_runs cmp key (x # xs) ys \<noteq> []"
        using Cons.prems True that by (subst hd_merge_runs) (auto simp: successively_Cons)
      ultimately show ?thesis using True by (auto simp: successively_Cons)
    next
      case False
      then have le: "ordered key x y" by (simp add: not_less_swap)
      have "successively (ordered key) (merge_runs cmp key xs (y # ys))"
        using left(1) [OF _ Cons.prems] left(2) by (auto simp: successively_Cons)
      moreover have "ordered key x (hd (merge_runs cmp key xs (y # ys)))"
        if "merge_runs cmp key xs (y # ys) \<noteq> []"
        using left(2) le that by (subst hd_merge_runs) (auto simp: successively_Cons)
      ultimately show ?thesis using False by (auto simp: successively_Cons)
    qed
  qed (use left(2) in simp)
qed simp

lemma merge_sort_successively: "successively (ordered key) (merge_sort cmp key xs)"
proof (induction "length xs" arbitrary: xs rule: less_induct)
  case less
  show ?case
  proof (cases "length xs < 2")
    case True
    then show ?thesis by (cases xs; cases "tl xs") (auto simp: merge_sort.simps)
  next
    case False
    then show ?thesis
      by (subst merge_sort.simps) (auto intro!: merge_runs_successively less)
  qed
qed

end

context rust_total_ord
begin

lemma successively_sorted:
  "successively (ordered key) xs \<Longrightarrow> \<forall>x \<in> set xs. carrier (key x) \<Longrightarrow> sorted_wrt (ordered key) xs"
proof (induction xs)
  case (Cons x xs)
  then have sorted: "sorted_wrt (ordered key) xs" by (auto simp: successively_Cons)
  have "ordered key x z" if "z \<in> set xs" for z
  proof (cases xs)
    case (Cons y ys)
    with Cons.prems sorted that have "z = y \<or> ordered key y z" "ordered key x y"
      by (auto simp: successively_Cons)
    moreover have "carrier (key x)" "carrier (key y)" "carrier (key z)"
      using Cons Cons.prems that by auto
    ultimately show ?thesis using cmp_trans_ge by blast
  qed (use that in simp)
  with sorted show ?case by simp
qed simp

lemma merge_sort_sorted:
  "\<forall>x \<in> set xs. carrier (key x) \<Longrightarrow> sorted_wrt (ordered key) (merge_sort cmp key xs)"
  by (rule successively_sorted [OF merge_sort_successively]) (simp add: set_merge_sort)

lemma merge_runs_stable:
  "sorted_wrt (ordered key) xs \<Longrightarrow>
   filter (\<lambda>x. key x = k) (merge_runs cmp key xs ys) = filter (\<lambda>x. key x = k) (xs @ ys)"
proof (induction xs arbitrary: ys)
  case (Cons x xs)
  note left = Cons
  show ?case
  proof (induction ys)
    case (Cons y ys)
    show ?case
    proof (cases "cmp (key y) (key x) = Less")
      case True
      then have "cmp (key x) (key y) = Greater" by (simp add: cmp_less_greater)
      then have "filter (\<lambda>z. key z = key y) (x # xs) = []"
        using left(2) by (auto simp: filter_empty_conv cmp_refl)
      with True Cons show ?thesis by (cases "key y = k") auto
    next
      case False
      with left show ?thesis by auto
    qed
  qed simp
qed simp

lemma merge_sort_stable:
  "\<forall>x \<in> set xs. carrier (key x) \<Longrightarrow>
   filter (\<lambda>x. key x = k) (merge_sort cmp key xs) = filter (\<lambda>x. key x = k) xs"
proof (induction "length xs" arbitrary: xs rule: less_induct)
  case less
  show ?case
  proof (cases "length xs < 2")
    case False
    let ?l = "take (length xs div 2) xs" and ?r = "drop (length xs div 2) xs"
    have sub: "\<forall>x \<in> set ?l. carrier (key x)" "\<forall>x \<in> set ?r. carrier (key x)"
      using less.prems by (auto dest: in_set_takeD in_set_dropD)
    have "filter (\<lambda>x. key x = k) (merge_sort cmp key xs) =
        filter (\<lambda>x. key x = k) (merge_sort cmp key ?l) @ filter (\<lambda>x. key x = k) (merge_sort cmp key ?r)"
      using False merge_runs_stable [OF merge_sort_sorted [OF sub(1)]]
      by (subst merge_sort.simps) simp
    also have "\<dots> = filter (\<lambda>x. key x = k) (?l @ ?r)"
      using False less.hyps [of ?l] less.hyps [of ?r] sub by (simp del: append_take_drop_id)
    finally show ?thesis by simp
  qed (simp add: merge_sort.simps)
qed

end

lemma merge_runs_items:
  "merge_runs Version_cmp key l r = merge_runs (cmp_items True) (\<lambda>x. items (key x)) l r"
  by (induction Version_cmp key l r rule: merge_runs.induct) (simp_all add: Version_cmp_def)

lemma sort_by_key_items: "sort_by_key key xs = merge_sort (cmp_items True) (\<lambda>x. items (key x)) xs"
  unfolding sort_by_key_def
proof (induction Version_cmp key xs rule: merge_sort.induct)
  case (1 key xs)
  then show ?case
    by (subst (1 2) merge_sort.simps) (simp add: merge_runs_items)
qed

lemma number_first_items_iff: "number_first v \<longleftrightarrow> number_first_items (items v)"
  by (auto simp: number_first_def version_ok_def)

section \<open>Properties\<close>

text \<open>
  Property C10. Versions that parse and start with a number are totally ordered: the comparison
  reverses when its arguments are exchanged, it is transitive, and versions compare equal exactly
  when they have the same items.
\<close>

theorem version_order_total:
  assumes "Version_parse lc s = Inr u" "Version_parse lc t = Inr v" "Version_parse lc r = Inr w"
    and "is_number (hd (items u))" "is_number (hd (items v))" "is_number (hd (items w))"
  shows "Version_cmp v u = reverse (Version_cmp u v) \<and>
    (Version_cmp u v = Less \<and> Version_cmp v w = Less \<longrightarrow> Version_cmp u w = Less) \<and>
    (Version_cmp u v = Equal \<longleftrightarrow> items u = items v)"
proof (intro conjI impI)
  have first: "number_first_items (items u)" "number_first_items (items v)" "number_first_items (items w)"
    using assms Version_parse_ok [of lc] by (auto simp: version_ok_def)
  show "Version_cmp v u = reverse (Version_cmp u v)" by (rule version.cmp_swap)
  show "Version_cmp u w = Less" if "Version_cmp u v = Less \<and> Version_cmp v w = Less"
    using number_first.cmp_trans [OF first] that unfolding Version_cmp_def by blast
  show "Version_cmp u v = Equal \<longleftrightarrow> items u = items v"
    unfolding Version_cmp_def using number_first.cmp_eq [OF first(1,2)] by (auto simp: cmp_items_refl)
qed

theorem version_order_total_witness:
  "\<exists>u v w. Version_parse to_ascii_lowercase ''1.0-SNAPSHOT'' = Inr u \<and>
    Version_parse to_ascii_lowercase ''1.0'' = Inr v \<and>
    Version_parse to_ascii_lowercase ''1.0.1-beta2'' = Inr w \<and>
    Version_cmp u v = Less \<and> Version_cmp v w = Less \<and> Version_cmp u w = Less"
proof -
  define u v w where "u = projr (Version_parse to_ascii_lowercase ''1.0-SNAPSHOT'')"
    and "v = projr (Version_parse to_ascii_lowercase ''1.0'')"
    and "w = projr (Version_parse to_ascii_lowercase ''1.0.1-beta2'')"
  have parse: "Version_parse to_ascii_lowercase ''1.0-SNAPSHOT'' = Inr u"
    "Version_parse to_ascii_lowercase ''1.0'' = Inr v"
    "Version_parse to_ascii_lowercase ''1.0.1-beta2'' = Inr w"
    unfolding u_def v_def w_def by code_simp+
  have "is_number (hd (items u))" "is_number (hd (items v))" "is_number (hd (items w))"
    "Version_cmp u v = Less" "Version_cmp v w = Less"
    unfolding u_def v_def w_def by code_simp+
  with parse version_order_total [OF parse] show ?thesis by blast
qed

text \<open>
  Property C24. The hash agrees with the equality: versions that compare equal feed the hasher the
  same data, whether they come from \<^verbatim>\<open>Version::parse\<close> or from \<^verbatim>\<open>Version::unresolved\<close>.
\<close>

theorem version_hash_agrees:
  assumes "Version_parse lc s = Inr v \<or> v = Version_unresolved lc s"
    and "Version_parse lc t = Inr w \<or> w = Version_unresolved lc t"
    and "Version_eq v w"
  shows "hash_input v = hash_input w"
  using assms Version_parse_ok [of lc] Version_unresolved_ok [of lc]
  by (intro hash_consistent) (auto simp: Version_eq_def)

theorem version_hash_agrees_witness:
  "Version_eq (Version_unresolved to_ascii_lowercase ''1.0.0-ga'') (Version_unresolved to_ascii_lowercase ''1'') \<and>
   hash_input (Version_unresolved to_ascii_lowercase ''1.0.0-ga'') =
     hash_input (Version_unresolved to_ascii_lowercase ''1'')"
proof -
  have "Version_eq (Version_unresolved to_ascii_lowercase ''1.0.0-ga'') (Version_unresolved to_ascii_lowercase ''1'')"
    by code_simp
  with version_hash_agrees [OF disjI2 [OF refl] disjI2 [OF refl] this] show ?thesis by simp
qed

text \<open>
  Property C25. \<^verbatim>\<open>sort_by_key\<close> permutes its input and puts every two neighbours in order, for any versions;
  where all versions start with a number the whole result is in order and versions with the same
  items keep their relative order.
\<close>

theorem sort_by_key_correct:
  "mset (sort_by_key key xs) = mset xs \<and>
   successively (\<lambda>x y. Version_cmp (key x) (key y) \<noteq> Greater) (sort_by_key key xs) \<and>
   ((\<forall>x \<in> set xs. number_first (key x)) \<longrightarrow>
     sorted_wrt (\<lambda>x y. Version_cmp (key x) (key y) \<noteq> Greater) (sort_by_key key xs) \<and>
     filter (\<lambda>x. items (key x) = its) (sort_by_key key xs) = filter (\<lambda>x. items (key x) = its) xs)"
proof (intro conjI impI)
  show "mset (sort_by_key key xs) = mset xs"
    by (simp add: sort_by_key_def mset_merge_sort)
  show "successively (\<lambda>x y. Version_cmp (key x) (key y) \<noteq> Greater) (sort_by_key key xs)"
    unfolding sort_by_key_def by (rule version.merge_sort_successively)
  assume "\<forall>x \<in> set xs. number_first (key x)"
  then have first: "\<forall>x \<in> set xs. number_first_items (items (key x))"
    by (simp only: number_first_items_iff)
  show "sorted_wrt (\<lambda>x y. Version_cmp (key x) (key y) \<noteq> Greater) (sort_by_key key xs)"
    unfolding sort_by_key_items Version_cmp_def by (rule number_first.merge_sort_sorted [OF first])
  show "filter (\<lambda>x. items (key x) = its) (sort_by_key key xs) = filter (\<lambda>x. items (key x) = its) xs"
    unfolding sort_by_key_items by (rule number_first.merge_sort_stable [OF first])
qed

theorem sort_by_key_correct_witness:
  "sorted_wrt (\<lambda>x y. Version_cmp x y \<noteq> Greater)
     (sort_by_key id (map (Version_unresolved to_ascii_lowercase) [''1.10'', ''1.9'', ''1.9.0'', ''1.9-rc1'']))"
proof -
  let ?vs = "map (Version_unresolved to_ascii_lowercase) [''1.10'', ''1.9'', ''1.9.0'', ''1.9-rc1'']"
  have "list_all (\<lambda>v. number_first (id v)) ?vs" by code_simp
  then have "\<forall>v \<in> set ?vs. number_first (id v)" by (simp only: list_all_iff)
  with sort_by_key_correct [of id ?vs] show ?thesis by simp
qed

text \<open>
  Property C38. The numbers of a version compare by the value their digits have, although the code
  compares the digits' count and then their text: whatever the tokenizer makes of any text has
  canonical digits, on which both orders agree.
\<close>

theorem version_numbers_by_value:
  assumes "Number (Digits a) \<in> set (parse_items lc s)" and "Number (Digits b) \<in> set (parse_items lc t)"
  shows "cmp_of (Number (Digits a)) (Number (Digits b)) = cmp_of (number_value a) (number_value b)"
proof -
  have canon: "canonical_digits a" "canonical_digits b"
    using assms parse_items_ok(1) [of lc s] parse_items_ok(1) [of lc t] by (auto simp: list_all_iff)
  have "Digits a < Digits b \<longleftrightarrow> number_value a < number_value b"
    "Digits b < Digits a \<longleftrightarrow> number_value b < number_value a"
    using number_order_value canon by blast+
  moreover have "Number x < Number y \<longleftrightarrow> x < y" for x y
    by (simp add: less_Item_def)
  ultimately show ?thesis
    by (auto simp: cmp_of_def)
qed

theorem version_numbers_by_value_witness:
  "cmp_of (Number (Digits ''9'')) (Number (Digits ''10'')) = cmp_of (number_value ''9'') (number_value ''10'')"
proof -
  have "Number (Digits ''9'') \<in> set (parse_items to_ascii_lowercase ''1.09'')"
    "Number (Digits ''10'') \<in> set (parse_items to_ascii_lowercase ''1.10'')"
    by code_simp+
  then show ?thesis by (rule version_numbers_by_value)
qed

text \<open>
  The backward loop of \<^verbatim>\<open>trim_padding\<close>, which marks items to drop while it tracks the run it
  is in, computes the recursive \<open>trim_spec\<close> on every item list: the first item stays, an item equal to
  the padding goes when nothing follows it, or when it ends a run of its kind; and what is left is
  in normal form, so trimming again would drop nothing.
\<close>

theorem trim_padding_correct:
  "trim_padding its = (case its of [] \<Rightarrow> [] | x # xs \<Rightarrow> x # trim_spec x xs) \<and>
   trim_padding (trim_padding its) = trim_padding its"
proof -
  have idem: "normal k xs \<Longrightarrow> k = is_number p \<Longrightarrow> trim_spec p xs = xs" for k p xs
    by (induction xs arbitrary: k p) (auto simp: Let_def)
  show ?thesis
    by (cases its) (simp_all add: trim_padding_spec idem [OF trim_spec_normal])
qed

text \<open>
  Property C39. The tokenizer slices \<^verbatim>\<open>version[start..end]\<close> inside the text for every token, each slice
  begins and ends next to an ASCII byte or at an end of the text, so it splits no character, and
  the loop makes progress: no slice panics and the loop ends.
\<close>

theorem tokenizer_slices_in_bounds:
  assumes "index < length chars" and "ascii_boundary chars index"
    and "scan_token chars index (-2) index = (start, stop, next, state, before_digit)"
  shows "start \<le> stop \<and> stop \<le> next \<and> next \<le> length chars \<and> index < next \<and>
    ascii_boundary chars start \<and> ascii_boundary chars stop \<and> ascii_boundary chars next"
proof -
  have inv: "token_inv chars index (-2) index" using assms(1) by (simp add: token_inv_start)
  have "token_inv chars stop state start" "stop \<le> next" "next \<le> length chars"
    using scan_token_inv [OF inv assms(3)] by blast+
  moreover from this(1) have "start \<le> stop" by (simp only: token_inv_def)
  ultimately show ?thesis
    using scan_token_progress [OF assms(1,3)] scan_token_boundaries [OF assms(2) assms(2) inv assms(3)]
    by blast
qed

theorem tokenizer_slices_in_bounds_witness:
  "scan_token ''1.007rc'' 2 (-2) 2 = (4, 5, 5, 1, False) \<and>
   (4::nat) \<le> 5 \<and> (2::nat) < 5 \<and> ascii_boundary ''1.007rc'' 4"
proof -
  have "scan_token ''1.007rc'' 2 (-2) 2 = (4, 5, 5, 1, False)" by code_simp
  from tokenizer_slices_in_bounds [OF _ _ this] this show ?thesis
    by (simp add: ascii_boundary_def is_ascii_def)
qed

text \<open>
  \<^verbatim>\<open>is_zero\<close> is documented as being equal to \<^verbatim>\<open>0\<close>, but a version it holds for may be less than \<^verbatim>\<open>0\<close>; and the
  order is not transitive once a version starts with text.
\<close>

lemma is_zero_below_zero:
  "is_zero (Version_unresolved to_ascii_lowercase ''0-alpha'') \<and>
   Version_cmp (Version_unresolved to_ascii_lowercase ''0-alpha'')
     (Version_unresolved to_ascii_lowercase ''0'') = Less"
  by code_simp

lemma text_first_not_transitive:
  "Version_cmp (Version_unresolved to_ascii_lowercase ''alpha'') (Version_unresolved to_ascii_lowercase ''0'') = Equal \<and>
   Version_cmp (Version_unresolved to_ascii_lowercase ''0'') (Version_unresolved to_ascii_lowercase ''beta'') = Equal \<and>
   Version_cmp (Version_unresolved to_ascii_lowercase ''alpha'') (Version_unresolved to_ascii_lowercase ''beta'') = Less"
  by code_simp

end
