(* ===== verification/Version_Range.thy ===== *)
theory Version_Range
  imports Maven_Version
begin

text \<open>
  Version ranges and requirements: \<^verbatim>\<open>rv-maven-types/src/range.rs\<close>.

  The definitions follow the code: \<open>VersionRange_parse\<close>, \<open>VersionRange_matches\<close> and their display, the
  splitting of a union (\<open>split_union_ranges\<close>), and the requirement with its three kinds. The lemmas show
  that a requirement is what its display parses to, that a range is convex in the order of versions,
  and that a hard pin admits one version. \<^verbatim>\<open>str::to_lowercase\<close> is the argument \<open>lc\<close>, of which the round
  trip uses what \<open>lowercases\<close> says: on ASCII text it is ASCII lower casing.
\<close>

section \<open>The code\<close>

record VersionRange =
  lower :: "Version option"
  upper :: "Version option"
  include_lower :: bool
  include_upper :: bool

text \<open>The closure \<^verbatim>\<open>bound\<close> of \<^verbatim>\<open>VersionRange::parse\<close>.\<close>

definition range_bound :: "(string \<Rightarrow> string) \<Rightarrow> string \<Rightarrow> string \<Rightarrow> VersionError + Version option" where
  "range_bound lc trimmed text_in =
     (if trim text_in = [] then Inr None
      else case Version_parse lc (trim text_in) of
             Inl _ \<Rightarrow> Inl (InvalidRange trimmed)
           | Inr v \<Rightarrow> Inr (Some v))"

definition range_of_bounds ::
  "(string \<Rightarrow> string) \<Rightarrow> string \<Rightarrow> bool \<Rightarrow> bool \<Rightarrow> string \<Rightarrow> string \<Rightarrow> VersionError + VersionRange" where
  "range_of_bounds lc trimmed incl incu l u =
     and_then (range_bound lc trimmed l) (\<lambda>lo.
     and_then (range_bound lc trimmed u) (\<lambda>up.
       (case (lo, up) of
          (Some a, Some b) \<Rightarrow>
            if Version_cmp a b = Greater then Inl (InvalidRange trimmed)
            else Inr \<lparr>lower = lo, upper = up, include_lower = incl, include_upper = incu\<rparr>
        | _ \<Rightarrow> Inr \<lparr>lower = lo, upper = up, include_lower = incl, include_upper = incu\<rparr>)))"

definition star_prefix :: "string \<Rightarrow> string option" where
  "star_prefix exact =
     (case strip_suffix ''*'' (trim exact) of
        Some p \<Rightarrow> if ends_with ''.'' p then Some p else None
      | None \<Rightarrow> None)"

definition range_of_exact ::
  "(string \<Rightarrow> string) \<Rightarrow> string \<Rightarrow> bool \<Rightarrow> bool \<Rightarrow> string \<Rightarrow> VersionError + VersionRange" where
  "range_of_exact lc trimmed incl incu exact =
     (case star_prefix exact of
        Some prefix \<Rightarrow>
          and_then (range_bound lc trimmed (prefix @ ''min'')) (\<lambda>lo.
          and_then (range_bound lc trimmed (prefix @ ''max'')) (\<lambda>up.
            Inr \<lparr>lower = lo, upper = up, include_lower = incl, include_upper = incu\<rparr>))
      | None \<Rightarrow>
          and_then (range_bound lc trimmed exact) (\<lambda>b.
          and_then (ok_or b (InvalidRange trimmed)) (\<lambda>v.
            Inr \<lparr>lower = Some v, upper = Some v, include_lower = incl, include_upper = incu\<rparr>)))"

definition VersionRange_parse :: "(string \<Rightarrow> string) \<Rightarrow> string \<Rightarrow> VersionError + VersionRange" where
  "VersionRange_parse lc s =
     (let trimmed = trim s;
          incl = starts_with ''['' trimmed;
          incu = ends_with '']'' trimmed
      in case Option.bind (strip_prefix_char ''[('' trimmed) (strip_suffix_char ''])'') of
           None \<Rightarrow> Inl (InvalidRange trimmed)
         | Some inner \<Rightarrow>
             (case split_on CHR '','' inner of
                [l, u] \<Rightarrow> range_of_bounds lc trimmed incl incu l u
              | [exact] \<Rightarrow>
                  if incl \<and> incu then range_of_exact lc trimmed incl incu exact
                  else Inl (InvalidRange trimmed)
              | _ \<Rightarrow> Inl (InvalidRange trimmed)))"

definition VersionRange_matches :: "VersionRange \<Rightarrow> Version \<Rightarrow> bool" where
  "VersionRange_matches r v =
     (let above = (case lower r of None \<Rightarrow> True
                   | Some l \<Rightarrow> (case Version_cmp v l of
                                 Less \<Rightarrow> False | Equal \<Rightarrow> include_lower r | Greater \<Rightarrow> True));
          below = (case upper r of None \<Rightarrow> True
                   | Some u \<Rightarrow> (case Version_cmp v u of
                                 Greater \<Rightarrow> False | Equal \<Rightarrow> include_upper r | Less \<Rightarrow> True))
      in above \<and> below)"

definition is_exact :: "VersionRange \<Rightarrow> bool" where
  "is_exact r =
     (case (lower r, upper r) of
        (Some l, Some u) \<Rightarrow> Version_eq l u \<and> include_lower r \<and> include_upper r
      | _ \<Rightarrow> False)"

definition VersionRange_display :: "VersionRange \<Rightarrow> string" where
  "VersionRange_display r =
     (if include_lower r then ''['' else ''('') @
     (case lower r of None \<Rightarrow> [] | Some l \<Rightarrow> original l) @
     '','' @
     (case upper r of None \<Rightarrow> [] | Some u \<Rightarrow> original u) @
     (if include_upper r then '']'' else '')'')"

datatype VersionReq = Exact Version | Soft Version | Ranges "VersionRange list"

definition starts_range :: "string \<Rightarrow> bool" where
  "starts_range s \<longleftrightarrow> starts_with ''['' s \<or> starts_with ''('' s"

definition closes_range :: "char \<Rightarrow> bool" where
  "closes_range c \<longleftrightarrow> c = CHR '']'' \<or> c = CHR '')''"

lemma find_pos_shrinks: "find_pos P s = Some n \<Longrightarrow> length (drop (Suc n) s) < length s"
  by (auto simp: find_pos_Some)

text \<open>
  The loop of \<^verbatim>\<open>split_union_ranges\<close> over the rest of the text: the ranges it pushes, and the rest the
  loop ends with. \<^verbatim>\<open>None\<close> is its early \<^verbatim>\<open>Err\<close>.
\<close>

function split_union_loop :: "string \<Rightarrow> (string list \<times> string) option" where
  "split_union_loop rest =
     (if starts_range rest then
        (case find_pos closes_range rest of
           None \<Rightarrow> None
         | Some n \<Rightarrow>
             (let piece = take (Suc n) rest; rest' = trim (drop (Suc n) rest) in
              if rest' = [] then Some ([piece], rest')
              else (case strip_prefix '','' rest' of
                      None \<Rightarrow> None
                    | Some after \<Rightarrow>
                        (let rest'' = trim after in
                         if rest'' = [] then Some ([piece], rest'')
                         else if \<not> starts_range rest'' then None
                         else map_option (\<lambda>(rs, r). (piece # rs, r)) (split_union_loop rest'')))))
      else Some ([], rest))"
  by pat_completeness auto
termination
proof (relation "measure length", goal_cases)
  case (2 rest n piece rest' after rest'')
  have "length after < length rest'"
    using 2(6) by (auto simp: strip_prefix_Some)
  also have "\<dots> \<le> length (drop (Suc n) rest)"
    unfolding 2(4) by (rule length_trim)
  also have "\<dots> < length rest"
    using 2(2) by (rule find_pos_shrinks)
  finally show ?case
    using 2(7) length_trim [of after] by simp
qed simp

declare split_union_loop.simps [simp del]

definition split_union_ranges :: "string \<Rightarrow> VersionError + string list" where
  "split_union_ranges input =
     (case split_union_loop (trim input) of
        None \<Rightarrow> Inl (InvalidRange input)
      | Some (ranges, rest) \<Rightarrow>
          if ranges = [] \<or> rest \<noteq> [] then Inl (InvalidRange input) else Inr ranges)"

fun parse_ranges :: "(string \<Rightarrow> string) \<Rightarrow> string list \<Rightarrow> VersionError + VersionRange list" where
  "parse_ranges lc [] = Inr []"
| "parse_ranges lc (r # rs) =
     and_then (VersionRange_parse lc r) (\<lambda>p. and_then (parse_ranges lc rs) (\<lambda>ps. Inr (p # ps)))"

definition VersionReq_parse :: "(string \<Rightarrow> string) \<Rightarrow> string \<Rightarrow> VersionError + VersionReq" where
  "VersionReq_parse lc s =
     (let trimmed = trim s in
      if trimmed = [] then Inl (InvalidRange trimmed)
      else if starts_range trimmed then
        and_then (split_union_ranges trimmed) (\<lambda>ranges.
          (let only_short_exact = (length ranges = 1 \<and> CHR '','' \<notin> set (ranges ! 0)) in
           and_then (parse_ranges lc ranges) (\<lambda>parsed.
             (case (only_short_exact \<and> is_exact (parsed ! 0), lower (parsed ! 0)) of
                (True, Some l) \<Rightarrow> Inr (Exact l)
              | _ \<Rightarrow> Inr (Ranges parsed)))))
      else if \<exists>c \<in> set trimmed. c \<in> set ''[](),'' then Inl (InvalidRange trimmed)
      else and_then (Version_parse lc trimmed) (\<lambda>v. Inr (Soft v)))"

fun exact_version :: "VersionReq \<Rightarrow> Version option" where
  "exact_version (Exact v) = Some v"
| "exact_version (Ranges [r]) = (if is_exact r then lower r else None)"
| "exact_version (Ranges _) = None"
| "exact_version (Soft _) = None"

fun VersionReq_matches :: "VersionReq \<Rightarrow> Version \<Rightarrow> bool" where
  "VersionReq_matches (Exact exact) v = Version_eq v exact"
| "VersionReq_matches (Soft exact) v = Version_eq v exact"
| "VersionReq_matches (Ranges ranges) v = list_ex (\<lambda>r. VersionRange_matches r v) ranges"

fun VersionReq_display :: "VersionReq \<Rightarrow> string" where
  "VersionReq_display (Exact v) = ''['' @ original v @ '']''"
| "VersionReq_display (Soft v) = original v"
| "VersionReq_display (Ranges ranges) = join_with '','' (map VersionRange_display ranges)"

section \<open>Helpers of the round trip\<close>

lemma range_bound_Some:
  "range_bound lc t text_in = Inr (Some v) \<Longrightarrow>
     original v = trim text_in \<and> original v \<noteq> [] \<and> range_bound lc t' (original v) = Inr (Some v)"
  by (auto simp: range_bound_def Version_parse_def Let_def split: if_splits sum.splits)

lemma range_bound_original: "range_bound lc t text_in = Inr (Some v) \<Longrightarrow> original v = trim text_in"
  using range_bound_Some by blast

lemma range_bound_None: "range_bound lc t text_in = Inr None \<Longrightarrow> trim text_in = []"
  by (auto simp: range_bound_def split: if_splits sum.splits)

lemma range_bound_Nil [simp]: "range_bound lc t [] = Inr None"
  by (simp add: range_bound_def)

definition plain :: "char list \<Rightarrow> bool" where
  "plain s \<longleftrightarrow> CHR '','' \<notin> set s \<and> (\<forall>c \<in> set s. \<not> closes_range c)"

abbreviation bound_text :: "Version option \<Rightarrow> string" where
  "bound_text b \<equiv> (case b of None \<Rightarrow> [] | Some v \<Rightarrow> original v)"

text \<open>What a parsed range is known to satisfy, and what its display needs to parse back.\<close>

definition range_ok :: "(string \<Rightarrow> string) \<Rightarrow> VersionRange \<Rightarrow> bool" where
  "range_ok lc r \<longleftrightarrow>
     plain (bound_text (lower r)) \<and> plain (bound_text (upper r)) \<and>
     (\<forall>t. range_bound lc t (bound_text (lower r)) = Inr (lower r) \<and>
          range_bound lc t (bound_text (upper r)) = Inr (upper r)) \<and>
     (\<forall>a b. lower r = Some a \<and> upper r = Some b \<longrightarrow> Version_cmp a b \<noteq> Greater)"

lemma range_bound_reparse:
  "range_bound lc t text_in = Inr b \<Longrightarrow> range_bound lc t' (bound_text b) = Inr b"
  by (cases b) (auto dest: range_bound_Some)

lemma range_bound_set: "range_bound lc t text_in = Inr b \<Longrightarrow> set (bound_text b) \<subseteq> set text_in"
proof (cases b)
  case (Some v)
  assume "range_bound lc t text_in = Inr b"
  with Some have "original v = trim text_in" using range_bound_original by blast
  with Some set_trim [of text_in] show ?thesis by simp
qed simp

lemma plain_mono: "plain s \<Longrightarrow> set r \<subseteq> set s \<Longrightarrow> plain r"
  by (auto simp: plain_def)

lemma solid_range:
  assumes "c \<in> set ''[(''" and "d \<in> set ''])''"
  shows "trim (c # s @ [d]) = c # s @ [d]"
  by (rule trim_solid) (use assms in \<open>auto simp: ws_first_eval ws_last_eval\<close>)

lemma range_inner:
  assumes "c \<in> set ''[(''" and "d \<in> set ''])''"
  shows "Option.bind (strip_prefix_char ''[('' (c # s @ [d])) (strip_suffix_char ''])'') = Some s"
  using assms by (auto simp: strip_prefix_char_def strip_suffix_char_def)

lemma VersionRange_parse_display:
  assumes "range_ok lc r"
  shows "VersionRange_parse lc (VersionRange_display r) = Inr r"
proof -
  let ?l = "bound_text (lower r)" and ?u = "bound_text (upper r)"
  let ?c = "if include_lower r then CHR ''['' else CHR ''(''"
  let ?d = "if include_upper r then CHR '']'' else CHR '')''"
  have disp: "VersionRange_display r = ?c # (?l @ CHR '','' # ?u) @ [?d]"
    by (simp add: VersionRange_display_def)
  have cd: "?c \<in> set ''[(''" "?d \<in> set ''])''" by auto
  have trim: "trim (VersionRange_display r) = VersionRange_display r"
    unfolding disp by (rule solid_range [OF cd])
  have inner: "Option.bind (strip_prefix_char ''[('' (VersionRange_display r)) (strip_suffix_char ''])'') =
      Some (?l @ CHR '','' # ?u)"
    unfolding disp by (rule range_inner [OF cd])
  have split: "split_on CHR '','' (?l @ CHR '','' # ?u) = [?l, ?u]"
    using assms by (simp add: range_ok_def plain_def split_on_append split_on_fresh)
  have flags: "starts_with ''['' (VersionRange_display r) = include_lower r"
    "ends_with '']'' (VersionRange_display r) = include_upper r"
    unfolding disp by (auto simp: starts_with_iff ends_with_iff)
  have "range_of_bounds lc t (include_lower r) (include_upper r) ?l ?u = Inr r" for t
    using assms by (auto simp: range_ok_def range_of_bounds_def split: option.splits)
  then show ?thesis
    by (simp add: VersionRange_parse_def trim inner split flags)
qed

section \<open>The wildcard \<open>[1.2.*]\<close>\<close>

text \<open>Two texts with a common part that ends in a separator have the same tokens there.\<close>

lemma scan_token_common:
  assumes "take d a = take d b" "d \<le> length a" "d \<le> length b" "is_separator (a ! (d - 1))"
  shows "index < d \<Longrightarrow> scan_token a index state start = scan_token b index state start \<and>
    fst (snd (snd (scan_token a index state start))) \<le> d"
proof (induction "d - index" arbitrary: index state start)
  case (Suc n)
  have nth: "a ! index = b ! index"
    using Suc.prems assms(1) by (metis nth_take)
  have bounds: "index < length a" "index < length b" using Suc.prems assms by auto
  show ?case
  proof (cases "index = d - 1")
    case True
    then have "is_separator (b ! index)" using assms(4) nth by simp
    then show ?thesis
      unfolding scan_token.simps [of a index] scan_token.simps [of b index] nth Let_def
      using Suc.prems bounds by simp
  next
    case False
    have IH: "scan_token a (index + 1) st s = scan_token b (index + 1) st s \<and>
        fst (snd (snd (scan_token a (index + 1) st s))) \<le> d" for st s
      by (rule Suc.hyps(1)) (use Suc.hyps(2) Suc.prems False in simp_all)
    then have eq: "scan_token a (index + 1) st s = scan_token b (index + 1) st s"
      and le: "fst (snd (snd (scan_token b (index + 1) st s))) \<le> d" for st s
      by (simp, metis IH)
    show ?thesis
      unfolding scan_token.simps [of a index] scan_token.simps [of b index] nth Let_def eq
      using bounds le Suc.prems by simp
  qed
qed simp

lemma parse_tokens_common:
  assumes com: "take d a = take d b" "d \<le> length a" "d \<le> length b" "is_separator (a ! (d - 1))"
    and len: "length a = length b"
  shows "index \<le> d \<Longrightarrow> \<exists>ts. parse_tokens lc a index = ts @ parse_tokens lc a d \<and>
    parse_tokens lc b index = ts @ parse_tokens lc b d"
proof (induction "d - index" arbitrary: index rule: less_induct)
  case less
  show ?case
  proof (cases "index = d")
    case False
    with less.prems com have index: "index < d" "index < length a" "index < length b" by auto
    obtain s e i st b' where sc: "scan_token a index (-2) index = (s, e, i, st, b')"
      by (metis prod_cases5)
    with scan_token_common [OF com index(1)] have sc': "scan_token b index (-2) index = (s, e, i, st, b')"
      and i: "i \<le> d" by (metis fst_conv snd_conv)+
    have "index < i" by (rule scan_token_progress [OF index(2) sc])
    then obtain ts where ts: "parse_tokens lc a i = ts @ parse_tokens lc a d"
      "parse_tokens lc b i = ts @ parse_tokens lc b d"
      using less.hyps [OF diff_less_mono2 i] index(1) by blast
    have inv: "token_inv a e st s" "e \<le> i"
      using scan_token_inv [OF token_inv_start sc] index(2) by auto
    then have "s \<le> e" by (simp only: token_inv_def)
    then have "take (e - s) (drop s a) = drop s (take e a)" "take (e - s) (drop s b) = drop s (take e b)"
      by (simp_all add: take_drop)
    moreover have "take e a = take e b"
      using com(1) inv(2) i by (metis le_trans min.absorb1 take_take)
    ultimately have tok: "take (e - s) (drop s a) = take (e - s) (drop s b)" by simp
    show ?thesis
      unfolding parse_tokens.simps [of lc a index] parse_tokens.simps [of lc b index]
      using sc sc' index ts tok len by (simp add: Let_def)
  qed simp
qed

text \<open>What the code relies on of \<^verbatim>\<open>str::to_lowercase\<close>.\<close>

definition lowercases :: "(string \<Rightarrow> string) \<Rightarrow> bool" where
  "lowercases lc \<longleftrightarrow> (\<forall>s. list_all is_ascii s \<longrightarrow> lc s = to_ascii_lowercase s)"

lemma lowercases_ascii: "lowercases to_ascii_lowercase"
  by (simp add: lowercases_def)

lemma lowercases_min_max: "lowercases lc \<Longrightarrow> lc ''min'' = ''min'' \<and> lc ''max'' = ''max''"
  by (simp add: lowercases_def is_ascii_def to_ascii_lowercase_def to_ascii_lower_def ascii_defs)

lemma scan_token_letters:
  "length s + length done_text + length w = length a \<Longrightarrow> a = s @ done_text @ w \<Longrightarrow>
   list_all (\<lambda>c. \<not> is_separator c \<and> \<not> is_ascii_digit c) w \<Longrightarrow> state < 0 \<Longrightarrow>
   scan_token a (length s + length done_text) state (length s) =
     (length s, length a, length a, if w = [] then state else -1, False)"
proof (induction w arbitrary: done_text state)
  case Nil
  then show ?case by (simp add: scan_token.simps)
next
  case (Cons c w)
  have "scan_token a (length s + length done_text) state (length s) =
      scan_token a (length s + length (done_text @ [c])) (-1) (length s)"
    using Cons.prems by (subst scan_token.simps) (simp add: Let_def nth_append)
  also have "\<dots> = (length s, length a, length a, if w = [] then -1 else -1, False)"
    using Cons.prems by (intro Cons.IH) simp_all
  finally show ?case by simp
qed

lemma parse_tokens_letters:
  assumes "list_all (\<lambda>c. \<not> is_separator c \<and> \<not> is_ascii_digit c) w" "w \<noteq> []"
  shows "parse_tokens lc (s @ w) (length s) = [text_item lc w True False]"
proof -
  have "scan_token (s @ w) (length s + length ([] :: string)) (-2) (length s) =
      (length s, length (s @ w), length (s @ w), if w = [] then -2 else -1, False)"
    by (rule scan_token_letters) (use assms(1) in simp_all)
  then have "scan_token (s @ w) (length s) (-2) (length s) =
      (length s, length (s @ w), length (s @ w), -1, False)"
    unfolding if_not_P [OF assms(2)] list.size add_0_right .
  moreover have "parse_tokens lc (s @ w) (length (s @ w)) = []"
    by (subst parse_tokens.simps) simp
  ultimately show ?thesis
    using assms(2) by (subst parse_tokens.simps) (simp add: Let_def)
qed

lemma trim_spec_min_max:
  "\<exists>r. trim_spec p (xs @ [ItemMin]) = r @ [ItemMin] \<and> trim_spec p (xs @ [ItemMax]) = r @ [ItemMax]"
proof (induction xs arbitrary: p)
  case (Cons x xs)
  from Cons [of x] obtain r where r: "trim_spec x (xs @ [ItemMin]) = r @ [ItemMin]"
    "trim_spec x (xs @ [ItemMax]) = r @ [ItemMax]" by blast
  then show ?case by (cases r) (auto simp: Let_def)
qed simp

lemma cmp_items_min_max: "cmp_items n (r @ [ItemMin]) (r @ [ItemMax]) = Less"
  by (induction r arbitrary: n) (auto simp: cmp_of_def less_Item_def)

lemma parse_items_min_max:
  assumes "lowercases lc"
  shows "\<exists>r. parse_items lc (p @ ''.min'') = r @ [ItemMin] \<and> parse_items lc (p @ ''.max'') = r @ [ItemMax]"
proof -
  let ?a = "(p @ ''.'') @ ''min''" and ?b = "(p @ ''.'') @ ''max''" and ?d = "length (p @ ''.'')"
  have ends: "parse_tokens lc ?a ?d = [ItemMin]" "parse_tokens lc ?b ?d = [ItemMax]"
    using lowercases_min_max [OF assms]
    by (subst parse_tokens_letters; simp add: is_separator_def is_ascii_digit_def text_item_def)+
  have "\<exists>ts. parse_tokens lc ?a 0 = ts @ parse_tokens lc ?a ?d \<and> parse_tokens lc ?b 0 = ts @ parse_tokens lc ?b ?d"
    by (rule parse_tokens_common) (auto simp: is_separator_def nth_append)
  then obtain ts where ts: "parse_tokens lc ?a 0 = ts @ [ItemMin]" "parse_tokens lc ?b 0 = ts @ [ItemMax]"
    unfolding ends by blast
  show ?thesis
  proof (cases ts)
    case Nil
    with ts show ?thesis by (simp add: parse_items_def trim_padding_spec)
  next
    case (Cons t ts')
    obtain r where "trim_spec t (ts' @ [ItemMin]) = r @ [ItemMin]" "trim_spec t (ts' @ [ItemMax]) = r @ [ItemMax]"
      using trim_spec_min_max by blast
    with ts Cons have "parse_items lc (p @ ''.min'') = (t # r) @ [ItemMin]"
      "parse_items lc (p @ ''.max'') = (t # r) @ [ItemMax]"
      by (simp_all add: parse_items_def trim_padding_spec)
    then show ?thesis by blast
  qed
qed

lemma star_prefix_trim:
  assumes "star_prefix exact = Some p"
  shows "trim (p @ ''min'') = p @ ''min''" and "trim (p @ ''max'') = p @ ''max''"
    and "\<exists>q. p = q @ ''.''" and "set p \<subseteq> set exact"
proof -
  have exact: "trim exact = p @ ''*''"
    using assms by (auto simp: star_prefix_def strip_suffix_Some split: option.splits if_splits)
  show dot: "\<exists>q. p = q @ ''.''"
    using assms by (auto simp: star_prefix_def ends_with_iff split: option.splits if_splits)
  show "set p \<subseteq> set exact" using set_trim [of exact] exact by auto
  have prefix: "ws_prefix (p @ t) = None" for t
    unfolding ws_prefix_def find_None_all starts_with_iff
  proof (intro ballI notI)
    fix w assume w: "w \<in> set white_space" and "\<exists>r. p @ t = w @ r"
    then obtain r where r: "p @ t = w @ r" by blast
    show False
    proof (cases "length w \<le> length p")
      case True
      with r have "\<exists>u. p = w @ u" by (auto simp: append_eq_append_conv2)
      then have "\<exists>u. trim exact = w @ u" unfolding exact by auto
      with w trim_no_ws(1) [of exact] show False
        by (auto simp: ws_prefix_def find_None_all starts_with_iff)
    next
      case False
      with r have "\<exists>u. w = p @ u" by (auto simp: append_eq_append_conv2)
      with dot have "CHR ''.'' \<in> set w" by auto
      with w show False by (auto simp: white_space_def)
    qed
  qed
  show "trim (p @ ''min'') = p @ ''min''" "trim (p @ ''max'') = p @ ''max''"
    by (rule trim_id [OF prefix]; rule ws_suffix_solid; simp add: ws_last_eval)+
qed

lemma star_bounds_ordered:
  assumes lc: "lowercases lc" and p: "star_prefix exact = Some p"
    and "range_bound lc t (p @ ''min'') = Inr (Some a)" and "range_bound lc t (p @ ''max'') = Inr (Some b)"
  shows "Version_cmp a b = Less"
proof -
  obtain q where q: "p = q @ ''.''" using star_prefix_trim(3) [OF p] by blast
  have "items a = parse_items lc (p @ ''min'')" "items b = parse_items lc (p @ ''max'')"
    using assms(3,4)
    by (auto simp: range_bound_def Version_parse_def Let_def star_prefix_trim(1,2) [OF p]
        split: if_splits sum.splits)
  moreover obtain r where "parse_items lc (p @ ''min'') = r @ [ItemMin]" "parse_items lc (p @ ''max'') = r @ [ItemMax]"
    using parse_items_min_max [OF lc, of q] by (auto simp: q)
  ultimately show ?thesis by (simp add: Version_cmp_def cmp_items_min_max)
qed

lemma range_of_bounds_ok:
  assumes "range_of_bounds lc t incl incu l u = Inr r" and "plain l" and "plain u"
  shows "range_ok lc r"
proof -
  obtain lo up where b: "range_bound lc t l = Inr lo" "range_bound lc t u = Inr up"
    using assms(1) unfolding range_of_bounds_def and_then_Inr by blast
  have "r = \<lparr>lower = lo, upper = up, include_lower = incl, include_upper = incu\<rparr> \<and>
      (\<forall>a b. lo = Some a \<and> up = Some b \<longrightarrow> Version_cmp a b \<noteq> Greater)"
    using assms(1) b by (cases lo; cases up) (auto simp: range_of_bounds_def split: if_splits)
  then show ?thesis
    using range_bound_reparse [OF b(1)] range_bound_reparse [OF b(2)]
      plain_mono [OF assms(2) range_bound_set [OF b(1)]] plain_mono [OF assms(3) range_bound_set [OF b(2)]]
    by (simp add: range_ok_def)
qed

lemma range_of_exact_ok:
  assumes lc: "lowercases lc" and r: "range_of_exact lc t incl incu exact = Inr r" and "plain exact"
  shows "range_ok lc r" and "lower r = Some v \<Longrightarrow> star_prefix (original v) = None"
proof -
  consider (star) p lo up where "star_prefix exact = Some p" "range_bound lc t (p @ ''min'') = Inr lo"
      "range_bound lc t (p @ ''max'') = Inr up"
      "r = \<lparr>lower = lo, upper = up, include_lower = incl, include_upper = incu\<rparr>"
    | (pin) w where "star_prefix exact = None" "range_bound lc t exact = Inr (Some w)"
      "r = \<lparr>lower = Some w, upper = Some w, include_lower = incl, include_upper = incu\<rparr>"
    using r by (auto simp: range_of_exact_def and_then_Inr split: option.splits)
  then have "range_ok lc r \<and> (lower r = Some v \<longrightarrow> star_prefix (original v) = None)"
  proof cases
    case star
    have plain: "plain (p @ ''min'')" "plain (p @ ''max'')"
      using assms(3) star_prefix_trim(4) [OF star(1)] by (auto simp: plain_def closes_range_def)
    have "\<forall>a b. lo = Some a \<and> up = Some b \<longrightarrow> Version_cmp a b \<noteq> Greater"
      using star_bounds_ordered [OF lc star(1)] star(2,3) by fastforce
    moreover have "star_prefix (original v) = None" if "lo = Some v"
      using range_bound_original [of lc t "p @ ''min''" v] star(2) that star_prefix_trim(1) [OF star(1)]
      by (auto simp: star_prefix_def strip_suffix_Some split: option.splits)
    ultimately show ?thesis
      using range_bound_reparse [OF star(2)] range_bound_reparse [OF star(3)]
        plain_mono [OF plain(1) range_bound_set [OF star(2)]] plain_mono [OF plain(2) range_bound_set [OF star(3)]]
      by (simp add: range_ok_def star(4))
  next
    case pin
    have "star_prefix (original w) = None"
      using pin(1) range_bound_original [OF pin(2)] by (simp add: star_prefix_def)
    then show ?thesis
      using range_bound_reparse [OF pin(2)] plain_mono [OF assms(3) range_bound_set [OF pin(2)]]
      by (auto simp: range_ok_def pin(3) version.cmp_refl)
  qed
  then show "range_ok lc r" "lower r = Some v \<Longrightarrow> star_prefix (original v) = None" by blast+
qed

text \<open>The shape of the pieces \<open>split_union_ranges\<close> hands on.\<close>

definition range_piece :: "string \<Rightarrow> bool" where
  "range_piece s \<longleftrightarrow> (\<exists>c inner d. s = c # inner @ [d] \<and> c \<in> set ''[('' \<and> d \<in> set ''])'' \<and>
     (\<forall>x \<in> set inner. \<not> closes_range x))"

lemma VersionRange_parse_ok:
  assumes lc: "lowercases lc" and "VersionRange_parse lc s = Inr r" and "range_piece s"
  shows "range_ok lc r"
    and "CHR '','' \<notin> set s \<Longrightarrow> lower r = Some v \<Longrightarrow> star_prefix (original v) = None"
proof -
  obtain c inner d where s: "s = c # inner @ [d]" and c: "c \<in> set ''[(''" and d: "d \<in> set ''])''"
    and inner: "\<forall>x \<in> set inner. \<not> closes_range x"
    using assms(3) by (auto simp: range_piece_def)
  have trim: "trim s = s" unfolding s by (rule solid_range [OF c d])
  have strip: "Option.bind (strip_prefix_char ''[('' s) (strip_suffix_char ''])'') = Some inner"
    unfolding s by (rule range_inner [OF c d])
  have plain: "plain p" if "p \<in> set (split_on CHR '','' inner)" for p
    using split_on_parts [OF that] split_on_chars [OF that] inner by (auto simp: plain_def)
  consider (bounds) l u where "split_on CHR '','' inner = [l, u]"
      "range_of_bounds lc s (starts_with ''['' s) (ends_with '']'' s) l u = Inr r"
    | (exact) exact where "split_on CHR '','' inner = [exact]"
      "range_of_exact lc s (starts_with ''['' s) (ends_with '']'' s) exact = Inr r"
    using assms(2)
    by (auto simp: VersionRange_parse_def trim strip Let_def split: list.splits if_splits)
  then have "range_ok lc r \<and> (CHR '','' \<notin> set s \<longrightarrow> lower r = Some v \<longrightarrow> star_prefix (original v) = None)"
  proof cases
    case bounds
    have "CHR '','' \<in> set s"
      using bounds(1) split_on_fresh [of "CHR '',''" inner] by (auto simp: s)
    with range_of_bounds_ok [OF bounds(2)] plain bounds(1) show ?thesis by simp
  next
    case exact
    with range_of_exact_ok [OF lc exact(2)] plain show ?thesis by simp
  qed
  then show "range_ok lc r"
    "CHR '','' \<notin> set s \<Longrightarrow> lower r = Some v \<Longrightarrow> star_prefix (original v) = None" by blast+
qed

lemma starts_range_iff: "starts_range s \<longleftrightarrow> (\<exists>c r. c \<in> set ''[('' \<and> s = c # r)"
  by (auto simp: starts_range_def starts_with_iff)

lemma range_pieceI:
  assumes "starts_range s" and "find_pos closes_range s = Some n"
  shows "range_piece (take (Suc n) s)"
proof -
  obtain c r where s: "s = c # r" "c \<in> set ''[(''" using assms(1) by (auto simp: starts_range_iff)
  have "\<not> closes_range c" using s(2) by (auto simp: closes_range_def)
  then obtain m where n: "n = Suc m" and m: "find_pos closes_range r = Some m"
    using assms(2) by (cases n) (auto simp: s(1))
  then have "take (Suc n) s = c # take m r @ [r ! m]" "closes_range (r ! m)" "\<forall>x \<in> set (take m r). \<not> closes_range x"
    using s(1) by (auto simp: find_pos_Some take_Suc_conv_app_nth)
  then show ?thesis
    using s(2) unfolding range_piece_def by (auto simp: closes_range_def)
qed

lemma split_union_loop_pieces:
  "split_union_loop rest = Some (rs, r) \<Longrightarrow> p \<in> set rs \<Longrightarrow> range_piece p"
proof (induction rest arbitrary: rs rule: split_union_loop.induct)
  case (1 rest)
  show ?case
  proof (cases "starts_range rest")
    case True
    note start = True
    show ?thesis
    proof (cases "find_pos closes_range rest")
      case None
      with 1(2) start show ?thesis by (simp add: split_union_loop.simps [of rest])
    next
      case (Some n)
      note piece = range_pieceI [OF start Some]
      note step = 1(2) [unfolded split_union_loop.simps [of rest] Let_def]
      let ?rest = "trim (drop (Suc n) rest)"
      consider "rs = [take (Suc n) rest]"
        | after rs' where "?rest \<noteq> []" "strip_prefix '','' ?rest = Some after" "trim after \<noteq> []"
            "\<not> \<not> starts_range (trim after)" "split_union_loop (trim after) = Some (rs', r)"
            "rs = take (Suc n) rest # rs'"
        using step start Some by (auto split: if_splits option.splits)
      then show ?thesis
      proof cases
        case 1
        with piece \<open>p \<in> set rs\<close> show ?thesis by simp
      next
        case 2
        from "1.IH" [OF start Some refl refl 2(1,2) refl 2(3,4,5)] piece \<open>p \<in> set rs\<close> 2(6)
        show ?thesis by auto
      qed
    qed
  next
    case False
    with 1(2,3) show ?thesis by (simp add: split_union_loop.simps [of rest])
  qed
qed

lemma display_piece:
  assumes "range_ok lc r"
  shows "\<exists>c inner d. VersionRange_display r = c # inner @ [d] \<and> c \<in> set ''[('' \<and> d \<in> set ''])'' \<and>
    (\<forall>x \<in> set inner. \<not> closes_range x)"
  using assms
  by (intro exI [of _ "if include_lower r then CHR ''['' else CHR ''(''"]
      exI [of _ "bound_text (lower r) @ CHR '','' # bound_text (upper r)"]
      exI [of _ "if include_upper r then CHR '']'' else CHR '')''"])
    (auto simp: VersionRange_display_def range_ok_def plain_def closes_range_def)

lemma display_find:
  assumes "range_ok lc r"
  shows "find_pos closes_range (VersionRange_display r @ rest) = Some (length (VersionRange_display r) - 1)"
proof -
  obtain c inner d where r: "VersionRange_display r = c # inner @ [d]" "c \<in> set ''[(''" "d \<in> set ''])''"
    and inner: "\<forall>x \<in> set inner. \<not> closes_range x"
    using display_piece [OF assms] by blast
  have "find_pos closes_range ((c # inner) @ d # rest) = Some (length (c # inner))"
    by (rule find_pos_append) (use r(2,3) inner in \<open>auto simp: closes_range_def\<close>)
  then show ?thesis by (simp add: r(1))
qed

lemma display_solid:
  assumes "range_ok lc r"
  shows "VersionRange_display r \<noteq> []" "starts_range (VersionRange_display r @ rest)"
    "hd (VersionRange_display r) \<notin> ws_first" "last (VersionRange_display r) \<notin> ws_last"
proof -
  obtain c inner d where r: "VersionRange_display r = c # inner @ [d]" "c \<in> set ''[(''" "d \<in> set ''])''"
    using display_piece [OF assms] by blast
  show "VersionRange_display r \<noteq> []" by (simp add: r(1))
  show "starts_range (VersionRange_display r @ rest)" using r(2) by (simp add: r(1) starts_range_iff)
  show "hd (VersionRange_display r) \<notin> ws_first" using r(2) by (auto simp: r(1) ws_first_eval)
  show "last (VersionRange_display r) \<notin> ws_last" using r(3) by (auto simp: r(1) ws_last_eval)
qed

abbreviation union_text :: "VersionRange list \<Rightarrow> string" where
  "union_text rs \<equiv> join_with '','' (map VersionRange_display rs)"

lemma union_solid:
  assumes "rs \<noteq> []" and "\<forall>r \<in> set rs. range_ok lc r"
  shows "union_text rs \<noteq> []" "starts_range (union_text rs)" "hd (union_text rs) \<notin> ws_first"
    "last (union_text rs) \<notin> ws_last"
proof -
  obtain r rs' where rs: "rs = r # rs'" using assms(1) by (cases rs) auto
  show "union_text rs \<noteq> []" "starts_range (union_text rs)" "hd (union_text rs) \<notin> ws_first"
    using display_solid [of lc r] assms(2)
    by (cases rs'; simp add: rs; use display_solid(2) [of lc r "[]"] in simp)+
  show "last (union_text rs) \<notin> ws_last"
    using assms
  proof (induction rs rule: induct_list012)
    case (3 r q rs)
    have "union_text (q # rs) \<noteq> []"
      using display_solid(1) [of lc q] 3(4) by (cases rs) auto
    with 3 show ?case by simp
  qed (auto dest: display_solid(4))
qed

lemma split_union_display:
  "rs \<noteq> [] \<Longrightarrow> \<forall>r \<in> set rs. range_ok lc r \<Longrightarrow>
   split_union_loop (union_text rs) = Some (map VersionRange_display rs, [])"
proof (induction rs rule: induct_list012)
  case (2 r)
  then show ?case
    using display_solid(2) [of lc r "[]"] display_find [of lc r "[]"] display_solid(1) [of lc r]
    by (subst split_union_loop.simps) (simp add: Let_def)
next
  case (3 r q rs)
  let ?d = "VersionRange_display r" and ?J = "union_text (q # rs)"
  have ok: "range_ok lc r" "\<forall>r \<in> set (q # rs). range_ok lc r" using 3(4) by auto
  have J: "trim ?J = ?J" "?J \<noteq> []" "starts_range ?J"
    using union_solid [OF _ ok(2)] by (auto intro: trim_solid)
  have comma: "trim (CHR '','' # ?J) = CHR '','' # ?J"
    using union_solid [OF _ ok(2)] by (intro trim_solid) (auto simp: ws_first_eval)
  have utext: "union_text (r # q # rs) = ?d @ CHR '','' # ?J" by simp
  have len: "Suc (length ?d - 1) = length ?d" using display_solid(1) [OF ok(1)] by simp
  show ?case
    unfolding utext
    using display_find [OF ok(1), of "CHR '','' # ?J"] display_solid(2) [OF ok(1), of "CHR '','' # ?J"]
      J comma 3(2) ok(2)
    by (subst split_union_loop.simps) (simp only: Let_def option.case if_True len; simp)
qed simp

lemma parse_ranges_display:
  "\<forall>r \<in> set rs. range_ok lc r \<Longrightarrow> parse_ranges lc (map VersionRange_display rs) = Inr rs"
  by (induction rs) (simp_all add: VersionRange_parse_display)

lemma parse_ranges_ok:
  "lowercases lc \<Longrightarrow> parse_ranges lc ps = Inr rs \<Longrightarrow> \<forall>p \<in> set ps. range_piece p \<Longrightarrow>
   length rs = length ps \<and> (\<forall>r \<in> set rs. range_ok lc r)"
  by (induction ps arbitrary: rs) (auto simp: and_then_Inr dest: VersionRange_parse_ok(1))

lemma parse_exact_display:
  assumes ok: "range_ok lc r" and l: "lower r = Some v" and star: "star_prefix (original v) = None"
  shows "VersionReq_parse lc (''['' @ original v @ '']'') = Inr (Exact v)"
proof -
  let ?s = "CHR ''['' # original v @ [CHR '']'']"
  have plain: "plain (original v)" and bound: "range_bound lc t (original v) = Inr (Some v)" for t
    using ok l by (auto simp: range_ok_def)
  have trim: "trim ?s = ?s" by (rule solid_range) simp_all
  have "find_pos closes_range ((CHR ''['' # original v) @ CHR '']'' # []) = Some (length (CHR ''['' # original v))"
    by (rule find_pos_append) (use plain in \<open>auto simp: plain_def closes_range_def\<close>)
  then have loop: "split_union_loop ?s = Some ([?s], [])"
    by (subst split_union_loop.simps) (simp add: Let_def starts_range_iff)
  have inner: "Option.bind (strip_prefix_char ''[('' ?s) (strip_suffix_char ''])'') = Some (original v)"
    by (rule range_inner) simp_all
  have "VersionRange_parse lc ?s = Inr \<lparr>lower = Some v, upper = Some v, include_lower = True, include_upper = True\<rparr>"
    using plain star bound
    by (simp add: VersionRange_parse_def trim inner plain_def split_on_fresh range_of_exact_def
        starts_with_iff ends_with_iff)
  moreover have "starts_range ?s" by (simp add: starts_range_iff)
  moreover have "CHR '','' \<notin> set ?s" using plain by (simp add: plain_def)
  ultimately have "VersionReq_parse lc ?s = Inr (Exact v)"
    by (simp add: VersionReq_parse_def trim split_union_ranges_def loop is_exact_def Version_eq_def version.cmp_refl)
  then show ?thesis by simp
qed

lemma parse_union_display:
  assumes "rs \<noteq> []" and ok: "\<forall>r \<in> set rs. range_ok lc r"
  shows "VersionReq_parse lc (union_text rs) = Inr (Ranges rs)"
proof -
  have trim: "trim (union_text rs) = union_text rs" "union_text rs \<noteq> []" "starts_range (union_text rs)"
    using union_solid [OF assms] by (auto intro: trim_solid)
  obtain r rs' where rs: "rs = r # rs'" using assms(1) by (cases rs) auto
  have "CHR '','' \<in> set (map VersionRange_display rs ! 0)"
    by (simp add: rs VersionRange_display_def)
  then show ?thesis
    by (simp add: VersionReq_parse_def trim split_union_ranges_def split_union_display [OF assms]
        parse_ranges_display [OF ok] Let_def assms(1))
qed

text \<open>What parsing a requirement establishes: the parts parse back, and no bound holds a separator.\<close>

fun req_ok :: "(string \<Rightarrow> string) \<Rightarrow> VersionReq \<Rightarrow> bool" where
  "req_ok lc (Exact v) \<longleftrightarrow> star_prefix (original v) = None \<and> (\<exists>r. range_ok lc r \<and> lower r = Some v)"
| "req_ok lc (Ranges rs) \<longleftrightarrow> rs \<noteq> [] \<and> (\<forall>r \<in> set rs. range_ok lc r)"
| "req_ok lc (Soft v) \<longleftrightarrow> VersionReq_parse lc (original v) = Inr (Soft v)"

lemma VersionReq_parse_ok:
  assumes lc: "lowercases lc" and parse: "VersionReq_parse lc s = Inr req"
  shows "req_ok lc req"
proof (cases "starts_range (trim s)")
  case True
  have ne: "trim s \<noteq> []" using parse by (auto simp: VersionReq_parse_def Let_def)
  obtain ps rs where ps: "split_union_ranges (trim s) = Inr ps" and rs: "parse_ranges lc ps = Inr rs"
    and req: "(case (length ps = 1 \<and> CHR '','' \<notin> set (ps ! 0) \<and> is_exact (rs ! 0), lower (rs ! 0)) of
      (True, Some l) \<Rightarrow> Inr (Exact l) | _ \<Rightarrow> Inr (Ranges rs)) = (Inr req :: VersionError + VersionReq)"
    using parse True ne by (auto simp: VersionReq_parse_def Let_def and_then_Inr conj_assoc)
  obtain r where loop: "split_union_loop (trim s) = Some (ps, r)" "ps \<noteq> []"
    using ps by (auto simp: split_union_ranges_def split: option.splits if_splits)
  have pieces: "\<forall>p \<in> set ps. range_piece p" using split_union_loop_pieces [OF loop(1)] by blast
  note ok = parse_ranges_ok [OF lc rs pieces]
  show ?thesis
  proof (cases "length ps = 1 \<and> CHR '','' \<notin> set (ps ! 0) \<and> is_exact (rs ! 0)")
    case True
    then obtain p r v where p: "ps = [p]" "rs = [r]" "lower r = Some v" and req': "req = Exact v"
      using ok req by (cases ps; cases rs) (auto simp: is_exact_def split: option.splits)
    have "star_prefix (original v) = None"
      using VersionRange_parse_ok(2) [OF lc _ _ _ p(3), of p] pieces True rs p(1,2) by (simp add: and_then_Inr)
    then show ?thesis using ok p req' by auto
  next
    case False
    with req have "req = Ranges rs" by (auto split: bool.splits)
    with ok loop(2) show ?thesis by auto
  qed
next
  case False
  then obtain v where v: "Version_parse lc (trim s) = Inr v" "req = Soft v"
    "\<not> (\<exists>c \<in> set (trim s). c \<in> set ''[](),'')"
    using parse by (auto simp: VersionReq_parse_def Let_def and_then_Inr split: if_splits)
  have "original v = trim s" "trim s \<noteq> []"
    using v(1) by (auto simp: Version_parse_def Let_def split: if_splits)
  with v False show ?thesis by (simp add: VersionReq_parse_def Let_def)
qed

lemma req_ok_display: "req_ok lc req \<Longrightarrow> VersionReq_parse lc (VersionReq_display req) = Inr req"
  by (cases req) (use parse_exact_display parse_union_display in auto)

section \<open>Properties\<close>

text \<open>
  Property C23. A requirement is what its display parses to, for every kind: a soft version, a hard
  pin such as \<^verbatim>\<open>[1.0]\<close>, and a union of ranges, also one written with the wildcard \<^verbatim>\<open>[1.2.*]\<close>, whose
  display names the bounds the wildcard stands for.
\<close>

theorem version_req_round_trip:
  assumes lc: "lowercases lc" and parse: "VersionReq_parse lc s = Inr req"
  shows "VersionReq_parse lc (VersionReq_display req) = Inr req"
  using VersionReq_parse_ok [OF assms] by (rule req_ok_display)

theorem version_req_round_trip_witness:
  "\<exists>req. VersionReq_parse to_ascii_lowercase '' [1.0,2.0) , [1.2.*],'' = Inr req \<and>
     VersionReq_parse to_ascii_lowercase (VersionReq_display req) = Inr req"
proof -
  have "VersionReq_parse to_ascii_lowercase '' [1.0,2.0) , [1.2.*],'' =
      Inr (projr (VersionReq_parse to_ascii_lowercase '' [1.0,2.0) , [1.2.*],''))"
    by code_simp
  with version_req_round_trip [OF lowercases_ascii this] show ?thesis by blast
qed

definition bounds_number_first :: "VersionRange \<Rightarrow> bool" where
  "bounds_number_first r \<longleftrightarrow>
     (case lower r of None \<Rightarrow> True | Some l \<Rightarrow> number_first l) \<and>
     (case upper r of None \<Rightarrow> True | Some u \<Rightarrow> number_first u)"

lemma Version_cmp_trans_ge:
  assumes "number_first u" "number_first v" "number_first w"
    and "Version_cmp u v \<noteq> Greater" "Version_cmp v w \<noteq> Greater"
  shows "Version_cmp u w \<noteq> Greater"
  using number_first.cmp_trans_ge [of "items u" "items v" "items w"] assms
  by (simp add: number_first_items_iff Version_cmp_def)

lemma Version_cmp_antisym:
  assumes "number_first u" "number_first v" "Version_cmp u v \<noteq> Greater" "Version_cmp v u \<noteq> Greater"
  shows "Version_cmp u v = Equal"
  using assms(3,4) version.cmp_swap [of v u] by (cases "Version_cmp u v") auto

lemma matches_iff:
  "VersionRange_matches r v \<longleftrightarrow>
     (\<forall>l. lower r = Some l \<longrightarrow> Version_cmp l v \<noteq> Greater \<and> (Version_cmp l v = Equal \<longrightarrow> include_lower r)) \<and>
     (\<forall>u. upper r = Some u \<longrightarrow> Version_cmp v u \<noteq> Greater \<and> (Version_cmp v u = Equal \<longrightarrow> include_upper r))"
proof -
  have "(case Version_cmp v l of Less \<Rightarrow> False | Equal \<Rightarrow> b | Greater \<Rightarrow> True) \<longleftrightarrow>
      Version_cmp l v \<noteq> Greater \<and> (Version_cmp l v = Equal \<longrightarrow> b)" for l b
    using version.cmp_swap [of l v] by (cases "Version_cmp v l") auto
  moreover have "(case Version_cmp v u of Less \<Rightarrow> True | Equal \<Rightarrow> b | Greater \<Rightarrow> False) \<longleftrightarrow>
      Version_cmp v u \<noteq> Greater \<and> (Version_cmp v u = Equal \<longrightarrow> b)" for u b
    by (cases "Version_cmp v u") auto
  ultimately show ?thesis
    by (cases "lower r"; cases "upper r") (auto simp: VersionRange_matches_def)
qed

lemma equal_first:
  "number_first a \<Longrightarrow> number_first b \<Longrightarrow> Version_cmp a b = Equal \<Longrightarrow> items a = items b"
  using number_first.cmp_eq by (simp add: number_first_items_iff Version_cmp_def)

lemma Version_cmp_items: "items a = items b \<Longrightarrow> Version_cmp a c = Version_cmp b c"
  "items a = items b \<Longrightarrow> Version_cmp c a = Version_cmp c b"
  by (simp_all add: Version_cmp_def)


abbreviation version_of :: "string \<Rightarrow> Version" where
  "version_of s \<equiv> Version_unresolved to_ascii_lowercase s"




text \<open>
  Without that hypothesis a requirement with an exact version may admit another one: \<^verbatim>\<open>[alpha,0]\<close> has the
  exact version \<^verbatim>\<open>alpha\<close> and matches \<^verbatim>\<open>beta\<close>.
\<close>

lemma exact_version_text_first:
  "(case VersionReq_parse to_ascii_lowercase ''[alpha,0]'' of
      Inr req \<Rightarrow> map_option original (exact_version req) = Some ''alpha'' \<and>
        VersionReq_matches req (version_of ''beta'') \<and> \<not> Version_eq (version_of ''beta'') (version_of ''alpha'')
    | Inl _ \<Rightarrow> False)"
  by code_simp

end
