(* ===== verification/Rust_Text.thy ===== *)
theory Rust_Text
  imports Version_Range
begin

text \<open>
  Code points and numbers in text: \<^verbatim>\<open>str::chars\<close> as UTF-8 decoding, \<^verbatim>\<open>to_string\<close> of unsigned numbers,
  and \<^verbatim>\<open>str::parse\<close> for \<^verbatim>\<open>u32\<close>. The decoder inverts the encoder on code points, and printing a number
  inverts parsing one.
\<close>

section \<open>Code points and numbers in text\<close>

text \<open>
  \<^verbatim>\<open>str::chars\<close>: the code points of UTF-8 text. A \<^verbatim>\<open>str\<close> is always valid UTF-8, so what the decoder makes
  of other byte sequences does not matter.
\<close>

definition continuation_bits :: "char \<Rightarrow> nat" where
  "continuation_bits c = of_char c - 128"

function chars_of :: "string \<Rightarrow> nat list" where
  "chars_of [] = []"
| "chars_of (c # s) =
     (let n = of_char c in
      if n < 128 then n # chars_of s
      else if n < 224 then
        (case s of c1 # s' \<Rightarrow> ((n - 192) * 64 + continuation_bits c1) # chars_of s' | _ \<Rightarrow> [])
      else if n < 240 then
        (case s of c1 # c2 # s' \<Rightarrow>
           ((n - 224) * 4096 + continuation_bits c1 * 64 + continuation_bits c2) # chars_of s'
         | _ \<Rightarrow> [])
      else
        (case s of c1 # c2 # c3 # s' \<Rightarrow>
           ((n - 240) * 262144 + continuation_bits c1 * 4096 + continuation_bits c2 * 64 +
             continuation_bits c3) # chars_of s'
         | _ \<Rightarrow> []))"
  by pat_completeness auto
termination by (relation "measure length") auto

text \<open>The encoding of one code point, and of many.\<close>

definition utf8_of :: "nat \<Rightarrow> string" where
  "utf8_of n =
     (if n < 128 then [char_of n]
      else if n < 2048 then [char_of (192 + n div 64), char_of (128 + n mod 64)]
      else if n < 65536 then
        [char_of (224 + n div 4096), char_of (128 + n div 64 mod 64), char_of (128 + n mod 64)]
      else
        [char_of (240 + n div 262144), char_of (128 + n div 4096 mod 64),
         char_of (128 + n div 64 mod 64), char_of (128 + n mod 64)])"

definition utf8 :: "nat list \<Rightarrow> string" where
  "utf8 cs = concat (map utf8_of cs)"

definition code_point :: "nat \<Rightarrow> bool" where
  "code_point n \<longleftrightarrow> n < 0x110000"

lemma byte_char: "k < 256 \<Longrightarrow> of_char (char_of k :: char) = (k :: nat)"
  by simp

lemma chars_of_one: "a < 128 \<Longrightarrow> chars_of (char_of a # s) = a # chars_of s"
  by (simp add: byte_char del: of_char_of)

lemma chars_of_two:
  "a < 32 \<Longrightarrow> b < 64 \<Longrightarrow> chars_of (char_of (192 + a) # char_of (128 + b) # s) = (a * 64 + b) # chars_of s"
  by (simp add: byte_char continuation_bits_def del: of_char_of)

lemma chars_of_three:
  "a < 16 \<Longrightarrow> b < 64 \<Longrightarrow> c < 64 \<Longrightarrow>
   chars_of (char_of (224 + a) # char_of (128 + b) # char_of (128 + c) # s) =
     (a * 4096 + b * 64 + c) # chars_of s"
  by (simp add: byte_char continuation_bits_def del: of_char_of)

lemma chars_of_four:
  "a < 8 \<Longrightarrow> b < 64 \<Longrightarrow> c < 64 \<Longrightarrow> d < 64 \<Longrightarrow>
   chars_of (char_of (240 + a) # char_of (128 + b) # char_of (128 + c) # char_of (128 + d) # s) =
     (a * 262144 + b * 4096 + c * 64 + d) # chars_of s"
  by (simp add: byte_char continuation_bits_def del: of_char_of)

lemma base64_digits:
  fixes n :: nat
  shows "n div 64 * 64 + n mod 64 = n"
    and "n div 4096 * 4096 + n div 64 mod 64 * 64 + n mod 64 = n"
    and "n div 262144 * 262144 + n div 4096 mod 64 * 4096 + n div 64 mod 64 * 64 + n mod 64 = n"
proof -
  have eqs: "n div 4096 = n div 64 div 64" "n div 262144 = n div 64 div 64 div 64"
    by (simp_all only: div_mult2_eq [symmetric] mult_numeral_1 numeral_times_numeral) simp_all
  show one: "n div 64 * 64 + n mod 64 = n" by (rule div_mult_mod_eq)
  show "n div 4096 * 4096 + n div 64 mod 64 * 64 + n mod 64 = n"
    unfolding eqs using one div_mult_mod_eq [of "n div 64" 64] by linarith
  show "n div 262144 * 262144 + n div 4096 mod 64 * 4096 + n div 64 mod 64 * 64 + n mod 64 = n"
    unfolding eqs using one div_mult_mod_eq [of "n div 64" 64] div_mult_mod_eq [of "n div 64 div 64" 64]
    by linarith
qed

lemma chars_of_utf8_of:
  assumes "code_point n"
  shows "chars_of (utf8_of n @ s) = n # chars_of s"
proof -
  have mods: "n mod 64 < 64" "n div 64 mod 64 < 64" "n div 4096 mod 64 < 64" by simp_all
  consider "n < 128" | "\<not> n < 128" "n < 2048" | "\<not> n < 128" "\<not> n < 2048" "n < 65536"
    | "\<not> n < 128" "\<not> n < 2048" "\<not> n < 65536"
    by blast
  then show ?thesis
  proof cases
    case 1
    then show ?thesis by (simp only: utf8_of_def if_True append.simps chars_of_one)
  next
    case 2
    then have "n div 64 < 32" by simp
    from chars_of_two [OF this mods(1), of s] show ?thesis
      unfolding utf8_of_def base64_digits by (simp only: 2 if_True if_False append.simps)
  next
    case 3
    then have "n div 4096 < 16" by simp
    from chars_of_three [OF this mods(2,1), of s] show ?thesis
      unfolding utf8_of_def base64_digits by (simp only: 3 if_True if_False append.simps)
  next
    case 4
    then have "n div 262144 < 8" using assms by (simp add: code_point_def)
    from chars_of_four [OF this mods(3,2,1), of s] show ?thesis
      unfolding utf8_of_def base64_digits by (simp only: 4 if_True if_False append.simps)
  qed
qed

lemma chars_of_utf8: "list_all code_point cs \<Longrightarrow> chars_of (utf8 cs) = cs"
  by (induction cs) (simp_all add: utf8_def chars_of_utf8_of)

lemma chars_of_ascii: "list_all is_ascii s \<Longrightarrow> chars_of s = map of_char s"
  by (induction s) (simp_all add: is_ascii_def)

text \<open>\<^verbatim>\<open>to_string\<close> of an unsigned number, and the hexadecimal digits of \<^verbatim>\<open>char::escape_unicode\<close>.\<close>

definition digit_char :: "nat \<Rightarrow> char" where
  "digit_char d = ''0123456789abcdef'' ! d"

fun digits_in :: "nat \<Rightarrow> nat \<Rightarrow> string" where
  "digits_in b n = (if b < 2 \<or> n < b then [digit_char n] else digits_in b (n div b) @ [digit_char (n mod b)])"

declare digits_in.simps [simp del]

definition to_string :: "nat \<Rightarrow> string" where
  "to_string n = digits_in 10 n"

lemma digit_char_decimal:
  assumes "d < 10"
  shows "is_ascii_digit (digit_char d)" "digit_value (digit_char d) = d"
    "digit_char d = CHR ''0'' \<longleftrightarrow> d = 0"
proof -
  have "d \<in> {0, 1, 2, 3, 4, 5, 6, 7, 8, 9}" using assms by auto
  then show "is_ascii_digit (digit_char d)" "digit_value (digit_char d) = d"
    "digit_char d = CHR ''0'' \<longleftrightarrow> d = 0"
    by (auto simp: digit_char_def is_ascii_digit_def digit_value_def less_eq_char_def)
qed

lemma number_value_snoc: "number_value (d @ [c]) = 10 * number_value d + digit_value c"
  by (induction d) (simp_all add: algebra_simps)

lemma to_string_step:
  "to_string n = (if n < 10 then [digit_char n] else to_string (n div 10) @ [digit_char (n mod 10)])"
  by (simp add: to_string_def digits_in.simps [of 10 n])

lemma to_string_correct:
  "canonical_digits (to_string n) \<and> number_value (to_string n) = n \<and>
   (hd (to_string n) = CHR ''0'' \<longleftrightarrow> n = 0)"
proof (induction n rule: less_induct)
  case (less n)
  show ?case
  proof (cases "n < 10")
    case True
    then show ?thesis
      by (subst (1 2 3) to_string_step) (auto simp: canonical_digits_def digit_char_decimal)
  next
    case False
    let ?m = "n div 10"
    have IH: "canonical_digits (to_string ?m)" "number_value (to_string ?m) = ?m"
      "hd (to_string ?m) \<noteq> CHR ''0''"
      using less [of ?m] False by auto
    have ne: "to_string ?m \<noteq> []" using IH(1) by (simp add: canonical_digits_def)
    have step: "to_string n = to_string ?m @ [digit_char (n mod 10)]"
      using False by (subst to_string_step) simp
    have "canonical_digits (to_string n)"
      unfolding step using IH ne digit_char_decimal(1) [of "n mod 10"] by (simp add: canonical_digits_def)
    moreover have "number_value (to_string n) = n"
      unfolding step using IH(2) digit_char_decimal(2) [of "n mod 10"] by (simp add: number_value_snoc)
    moreover have "hd (to_string n) \<noteq> CHR ''0''" unfolding step using IH(3) ne by simp
    ultimately show ?thesis using False by simp
  qed
qed

lemmas to_string_canonical = to_string_correct [THEN conjunct1]
lemmas number_value_to_string [simp] = to_string_correct [THEN conjunct2, THEN conjunct1]

lemma number_value_inj:
  assumes "canonical_digits a" "canonical_digits b" "number_value a = number_value b"
  shows "a = b"
  using number_order_value [OF assms(1,2)] number_order_value [OF assms(2,1)] assms(3)
  by (metis Number.inject less_irrefl linorder_less_linear)

lemma to_string_number_value: "canonical_digits d \<Longrightarrow> to_string (number_value d) = d"
  by (rule number_value_inj) (simp_all add: to_string_canonical)

text \<open>\<^verbatim>\<open>str::parse::<u32>\<close>: an optional plus sign, digits, and no overflow.\<close>

definition parse_u32 :: "string \<Rightarrow> nat option" where
  "parse_u32 s =
     (let d = (case s of c # r \<Rightarrow> if c = CHR ''+'' then r else s | [] \<Rightarrow> [])
      in if d \<noteq> [] \<and> list_all is_ascii_digit d \<and> number_value d < 2 ^ 32 then Some (number_value d)
         else None)"

lemma parse_u32_digits:
  assumes "list_all is_ascii_digit s" "s \<noteq> []"
  shows "parse_u32 s = (if number_value s < 2 ^ 32 then Some (number_value s) else None)"
proof -
  have "\<not> is_ascii_digit CHR ''+''" by (simp add: is_ascii_digit_def)
  with assms show ?thesis by (cases s) (auto simp: parse_u32_def Let_def)
qed

lemma parse_u32_to_string: "n < 2 ^ 32 \<Longrightarrow> parse_u32 (to_string n) = Some n"
  using to_string_canonical [of n] by (simp add: parse_u32_digits canonical_digits_def)

end
