(* ===== verification/Coordinate_Component.thy ===== *)
theory Coordinate_Component
  imports Rust_Text
begin

text \<open>
  The character rules of coordinate components and the text of messages:
  \<^verbatim>\<open>rv-maven-types/src/component.rs\<close> and \<^verbatim>\<open>rv-maven-types/src/text.rs\<close>.

  The definitions follow \<^verbatim>\<open>check\<close>, \<^verbatim>\<open>validate_reactor_version\<close>, \<^verbatim>\<open>is_terminal_safe\<close> and the display of
  \<^verbatim>\<open>Untrusted\<close>. The lemmas say what a component that passes the check looks like, that every checked
  version is a reactor version, and that what \<^verbatim>\<open>Untrusted\<close> shows is safe for a terminal and bounded.
\<close>

section \<open>The code\<close>

datatype CoordinateField = Group | Artifact | FVersion | Classifier | Extension

fun CoordinateField_as_str :: "CoordinateField \<Rightarrow> string" where
  "CoordinateField_as_str Group = ''group''"
| "CoordinateField_as_str Artifact = ''artifact''"
| "CoordinateField_as_str FVersion = ''version''"
| "CoordinateField_as_str Classifier = ''classifier''"
| "CoordinateField_as_str Extension = ''packaging''"

datatype Reason =
    Empty
  | TooLong
  | NotMavenId
  | NotPrintableAscii
  | NotTerminalSafe
  | Forbidden char
  | DotDot
  | EmptyGroupSegment
  | TrailingDot

record InvalidCoordinateComponent =
  field :: CoordinateField
  bad_value :: string
  reason :: Reason

text \<open>The characters \<^verbatim>\<open>\ / : " < > | ? * # @ % ;\<close>.\<close>

definition FORBIDDEN :: "char list" where
  "FORBIDDEN = [CHR 0x5C, CHR ''/'', CHR '':'', CHR 0x22, CHR ''<'', CHR ''>'', CHR ''|'', CHR ''?'',
     CHR ''*'', CHR ''#'', CHR ''@'', CHR ''%'', CHR '';'']"

definition is_id_byte :: "char \<Rightarrow> bool" where
  "is_id_byte c \<longleftrightarrow> is_ascii_alphanumeric c \<or> c = CHR ''.'' \<or> c = CHR ''-'' \<or> c = CHR ''_''"

definition is_maven_id_text :: "string \<Rightarrow> bool" where
  "is_maven_id_text value \<longleftrightarrow> list_all is_id_byte value"

text \<open>
  The match on the field. The forbidden characters are looked for after the value is known to be
  printable ASCII, so its characters are its bytes.
\<close>

definition check_charset :: "CoordinateField \<Rightarrow> string \<Rightarrow> Reason option" where
  "check_charset fld value =
     (case fld of
        Group \<Rightarrow> if \<not> is_maven_id_text value then Some NotMavenId else None
      | Artifact \<Rightarrow> if \<not> is_maven_id_text value then Some NotMavenId else None
      | _ \<Rightarrow>
          if \<not> list_all is_ascii_graphic value then Some NotPrintableAscii
          else map_option Forbidden (find (\<lambda>ch. ch \<in> set FORBIDDEN) value))"

definition check :: "CoordinateField \<Rightarrow> string \<Rightarrow> Reason + unit" where
  "check fld value =
     (if value = [] then Inl Empty
      else if length value > MAX_COMPONENT_BYTES then Inl TooLong
      else case check_charset fld value of
        Some r \<Rightarrow> Inl r
      | None \<Rightarrow>
          if contains_sub ''..'' value then Inl DotDot
          else if fld = Group \<and> starts_with ''.'' value then Inl EmptyGroupSegment
          else if ends_with ''.'' value then
            Inl (if fld = Group then EmptyGroupSegment else TrailingDot)
          else Inr ())"

definition validate_coordinate_component ::
  "CoordinateField \<Rightarrow> string \<Rightarrow> InvalidCoordinateComponent + unit" where
  "validate_coordinate_component fld value =
     (case check fld value of
        Inl r \<Rightarrow> Inl \<lparr>field = fld, bad_value = value, reason = r\<rparr>
      | Inr u \<Rightarrow> Inr u)"

text \<open>\<^verbatim>\<open>char::is_control\<close> is the general category Cc: C0, DEL and C1.\<close>

definition is_control :: "nat \<Rightarrow> bool" where
  "is_control ch \<longleftrightarrow> ch < 0x20 \<or> 0x7F \<le> ch \<and> ch \<le> 0x9F"

definition unsafe_ranges :: "(nat \<times> nat) list" where
  "unsafe_ranges =
     [(0x00AD, 0x00AD), (0x034F, 0x034F), (0x061C, 0x061C), (0x115F, 0x1160), (0x17B4, 0x17B5),
      (0x180B, 0x180F), (0x200B, 0x200F), (0x2028, 0x202E), (0x2060, 0x206F), (0x3164, 0x3164),
      (0xFE00, 0xFE0F), (0xFEFF, 0xFEFF), (0xFFA0, 0xFFA0), (0xFFF0, 0xFFFB), (0x1BCA0, 0x1BCA3),
      (0x1D173, 0x1D17A), (0xE0000, 0xE0FFF)]"

definition is_unsafe_char :: "nat \<Rightarrow> bool" where
  "is_unsafe_char ch \<longleftrightarrow> is_control ch \<or> list_ex (\<lambda>(lo, hi). lo \<le> ch \<and> ch \<le> hi) unsafe_ranges"

definition is_terminal_safe :: "string \<Rightarrow> bool" where
  "is_terminal_safe s \<longleftrightarrow> \<not> list_ex is_unsafe_char (chars_of s)"

definition validate_reactor_version :: "string \<Rightarrow> InvalidCoordinateComponent + unit" where
  "validate_reactor_version value =
     (let r = (if value = [] then Some Empty
               else if length value > MAX_COMPONENT_BYTES then Some TooLong
               else if \<not> is_terminal_safe value then Some NotTerminalSafe
               else None)
      in case r of
           Some why \<Rightarrow> Inl \<lparr>field = FVersion, bad_value = value, reason = why\<rparr>
         | None \<Rightarrow> Inr ())"

subsection \<open>Untrusted text in messages\<close>

definition MAX_SHOWN_CHARS :: nat where
  "MAX_SHOWN_CHARS = 120"

definition escape_unicode :: "nat \<Rightarrow> string" where
  "escape_unicode c = [CHR 0x5C, CHR ''u'', CHR ''{''] @ digits_in 16 c @ [CHR ''}'']"

definition quote_mark :: string where
  "quote_mark = [CHR 0x22]"

definition shown_char :: "bool \<Rightarrow> nat \<Rightarrow> string" where
  "shown_char quote c =
     (if is_unsafe_char c then escape_unicode c
      else if quote \<and> (c = 0x22 \<or> c = 0x5C) then [CHR 0x5C, char_of c]
      else utf8_of c)"

definition Untrusted_display :: "bool \<Rightarrow> string \<Rightarrow> string" where
  "Untrusted_display quote s =
     (if quote then quote_mark else []) @
     concat (map (shown_char quote) (take MAX_SHOWN_CHARS (chars_of s))) @
     (if quote then quote_mark else []) @
     (if length (chars_of s) > MAX_SHOWN_CHARS
      then ''... ('' @ to_string (length s) @ '' bytes)'' else [])"

definition bounded :: "string \<Rightarrow> string" where
  "bounded s = Untrusted_display False s"

definition quoted :: "string \<Rightarrow> string" where
  "quoted s = Untrusted_display True s"

section \<open>What a checked component looks like\<close>

lemma contains_sub_iff: "contains_sub p s \<longleftrightarrow> (\<exists>a b. s = a @ p @ b)"
proof (induction s)
  case (Cons c s)
  have "(\<exists>a b. c # s = a @ p @ b) \<longleftrightarrow> (\<exists>b. c # s = p @ b) \<or> (\<exists>a b. s = a @ p @ b)"
    by (metis append_Cons append_Nil list.exhaust list.sel(3) self_append_conv2)
  with Cons show ?case by (simp add: starts_with_iff)
qed simp

lemma FORBIDDEN_id: "is_id_byte c \<Longrightarrow> c \<notin> set FORBIDDEN"
  by (auto simp: is_id_byte_def FORBIDDEN_def ascii_defs)

lemma id_byte_graphic: "is_id_byte c \<Longrightarrow> is_ascii_graphic c"
  by (auto simp: is_id_byte_def ascii_defs less_eq_char_def)

text \<open>What the check leaves for every field.\<close>

definition component_ok :: "CoordinateField \<Rightarrow> string \<Rightarrow> bool" where
  "component_ok fld s \<longleftrightarrow>
     s \<noteq> [] \<and> length s \<le> MAX_COMPONENT_BYTES \<and>
     list_all (\<lambda>c. is_ascii_graphic c \<and> c \<notin> set FORBIDDEN) s \<and>
     (fld = Group \<or> fld = Artifact \<longrightarrow> list_all is_id_byte s) \<and>
     (\<nexists>a b. s = a @ ''..'' @ b) \<and> last s \<noteq> CHR ''.'' \<and> (fld = Group \<longrightarrow> hd s \<noteq> CHR ''.'')"

lemma last_dot: "s \<noteq> [] \<Longrightarrow> ends_with ''.'' s \<longleftrightarrow> last s = CHR ''.''"
  by (cases s rule: rev_cases) (auto simp: ends_with_iff)

lemma hd_dot: "s \<noteq> [] \<Longrightarrow> starts_with ''.'' s \<longleftrightarrow> hd s = CHR ''.''"
  by (cases s) (auto simp: starts_with_iff)

lemma check_charset_None:
  "check_charset fld s = None \<longleftrightarrow>
     list_all (\<lambda>c. is_ascii_graphic c \<and> c \<notin> set FORBIDDEN) s \<and>
     (fld = Group \<or> fld = Artifact \<longrightarrow> list_all is_id_byte s)"
proof -
  have id: "list_all (\<lambda>c. is_ascii_graphic c \<and> c \<notin> set FORBIDDEN) s" if "list_all is_id_byte s"
    using that FORBIDDEN_id id_byte_graphic by (auto simp: list_all_iff)
  show ?thesis
    by (cases fld) (use id in \<open>auto simp: check_charset_def is_maven_id_text_def find_None_all list_all_iff\<close>)
qed

lemma validate_ok: "validate_coordinate_component fld s = Inr u \<longleftrightarrow> component_ok fld s"
proof (cases "s = []")
  case False
  have "check fld s = Inr () \<longleftrightarrow> component_ok fld s"
  proof (cases "check_charset fld s")
    case None
    then show ?thesis
      using False check_charset_None [of fld s]
      by (simp add: check_def component_ok_def contains_sub_iff last_dot hd_dot not_less)
  next
    case (Some r)
    then show ?thesis
      using False check_charset_None [of fld s] by (auto simp: check_def component_ok_def)
  qed
  then show ?thesis
    by (auto simp: validate_coordinate_component_def split: sum.splits)
qed (simp add: validate_coordinate_component_def check_def component_ok_def)

lemma graphic_safe: "is_ascii_graphic c \<Longrightarrow> is_ascii c \<and> \<not> is_unsafe_char (of_char c)"
  by (auto simp: is_ascii_graphic_def less_eq_char_def is_ascii_def is_unsafe_char_def is_control_def
      unsafe_ranges_def)

lemma graphic_terminal_safe:
  assumes "list_all is_ascii_graphic s"
  shows "is_terminal_safe s"
proof -
  have "chars_of s = map of_char s"
    using assms graphic_safe by (intro chars_of_ascii) (auto simp: list_all_iff)
  with assms graphic_safe show ?thesis by (auto simp: is_terminal_safe_def list_all_iff list_ex_iff)
qed

section \<open>What a message shows\<close>

lemma chars_of_append:
  "list_all code_point cs \<Longrightarrow> chars_of (utf8 cs @ s) = cs @ chars_of s"
  by (induction cs) (simp_all add: utf8_def chars_of_utf8_of)

lemma safe_ascii_append:
  assumes "list_all is_ascii_graphic a"
  shows "chars_of (a @ s) = map of_char a @ chars_of s" and "\<not> list_ex is_unsafe_char (map of_char a)"
  using assms graphic_safe
  by (induction a) (auto simp: is_ascii_def)

lemma digit_char_graphic:
  assumes "d < 16"
  shows "is_ascii_graphic (digit_char d)"
proof -
  have "list_all (\<lambda>d. is_ascii_graphic (digit_char d)) [0..<16]" by code_simp
  with assms show ?thesis unfolding list_all_iff by auto
qed

lemma digits_in_graphic: "2 \<le> b \<Longrightarrow> b \<le> 16 \<Longrightarrow> list_all is_ascii_graphic (digits_in b n)"
proof (induction b n rule: digits_in.induct)
  case (1 b n)
  show ?case
  proof (cases "n < b")
    case True
    then show ?thesis using 1(3) by (simp add: digits_in.simps [of b n] digit_char_graphic)
  next
    case False
    with 1 have "list_all is_ascii_graphic (digits_in b (n div b))" by simp
    moreover have "n mod b < 16" using mod_less_divisor [of b n] 1(2,3) by linarith
    ultimately show ?thesis
      using False 1(2) by (simp add: digits_in.simps [of b n] digit_char_graphic)
  qed
qed

lemma escape_unicode_graphic: "list_all is_ascii_graphic (escape_unicode c)"
  using digits_in_graphic [of 16 c]
  by (simp add: escape_unicode_def is_ascii_graphic_def less_eq_char_def)

definition safe_piece :: "string \<Rightarrow> bool" where
  "safe_piece a \<longleftrightarrow> (\<exists>cs. (\<forall>s. chars_of (a @ s) = cs @ chars_of s) \<and> \<not> list_ex is_unsafe_char cs)"

lemma safe_piece_append: "safe_piece a \<Longrightarrow> safe_piece b \<Longrightarrow> safe_piece (a @ b)"
  unfolding safe_piece_def by (metis append.assoc list_ex_append)

lemma safe_piece_concat: "(\<And>a. a \<in> set as \<Longrightarrow> safe_piece a) \<Longrightarrow> safe_piece (concat as)"
proof (induction as)
  case Nil
  show ?case unfolding safe_piece_def by (rule exI [of _ "[]"]) simp
next
  case (Cons a as)
  then show ?case by (simp add: safe_piece_append)
qed

lemma safe_piece_graphic: "list_all is_ascii_graphic a \<Longrightarrow> safe_piece a"
  unfolding safe_piece_def using safe_ascii_append by blast

lemma safe_piece_blank: "safe_piece '' ''"
  unfolding safe_piece_def
  by (rule exI [of _ "[32]"]) (simp add: is_unsafe_char_def is_control_def unsafe_ranges_def)

lemma safe_piece_terminal: "safe_piece a \<Longrightarrow> is_terminal_safe a"
  unfolding safe_piece_def is_terminal_safe_def by (metis append_Nil2 chars_of.simps(1))

lemma shown_char_safe: "code_point c \<Longrightarrow> safe_piece (shown_char quote c)"
proof -
  assume c: "code_point c"
  consider "is_unsafe_char c" | "\<not> is_unsafe_char c" "quote \<and> (c = 0x22 \<or> c = 0x5C)"
    | "\<not> is_unsafe_char c" "\<not> (quote \<and> (c = 0x22 \<or> c = 0x5C))" by blast
  then show ?thesis
  proof cases
    case 1
    then show ?thesis by (simp add: shown_char_def safe_piece_graphic escape_unicode_graphic)
  next
    case 2
    then have "list_all is_ascii_graphic (shown_char quote c)"
      by (auto simp: shown_char_def is_ascii_graphic_def less_eq_char_def)
    then show ?thesis by (rule safe_piece_graphic)
  next
    case 3
    then have "shown_char quote c = utf8_of c" by (auto simp: shown_char_def)
    with 3(1) chars_of_utf8_of [OF c] show ?thesis
      unfolding safe_piece_def by (intro exI [of _ "[c]"]) simp
  qed
qed

section \<open>Properties\<close>

text \<open>
  Property C34. What a message shows of untrusted text is safe for a terminal, quoted or not, whatever the
  text holds: no control character, no invisible character and no bidirectional override survives.
\<close>

theorem untrusted_text_is_terminal_safe:
  assumes "list_all code_point cs"
  shows "is_terminal_safe (Untrusted_display quote (utf8 cs))"
proof (rule safe_piece_terminal)
  have chars: "chars_of (utf8 cs) = cs" using assms by (rule chars_of_utf8)
  have "safe_piece (concat (map (shown_char quote) (take MAX_SHOWN_CHARS cs)))"
    using assms by (auto intro!: safe_piece_concat shown_char_safe simp: list_all_iff dest!: set_take_subset [THEN subsetD])
  moreover have "safe_piece (if quote then quote_mark else [])"
    by (rule safe_piece_graphic) (simp add: quote_mark_def is_ascii_graphic_def less_eq_char_def)
  moreover have "safe_piece (''... ('' @ to_string n @ '' bytes)'')" for n
  proof -
    have "safe_piece (''...'' @ '' '' @ (''('' @ to_string n) @ '' '' @ ''bytes)'')"
      by (intro safe_piece_append safe_piece_blank safe_piece_graphic)
        (simp_all add: to_string_def digits_in_graphic is_ascii_graphic_def less_eq_char_def)
    then show ?thesis by simp
  qed
  moreover have "safe_piece []" by (rule safe_piece_graphic) simp
  ultimately show "safe_piece (Untrusted_display quote (utf8 cs))"
    unfolding Untrusted_display_def chars by (auto intro!: safe_piece_append)
qed

theorem untrusted_text_is_terminal_safe_witness:
  "list_all code_point [0x1B, 0x5B, 0x202E, 0x22, 0x41] \<and>
   is_terminal_safe (Untrusted_display True (utf8 [0x1B, 0x5B, 0x202E, 0x22, 0x41]))"
  using untrusted_text_is_terminal_safe [of "[0x1B, 0x5B, 0x202E, 0x22, 0x41]" True]
  by (simp add: code_point_def)

text \<open>
  A version that passes the check of coordinate components passes the weaker check of reactor
  versions: the two checks never disagree on a version that may be fetched.
\<close>

theorem checked_version_is_reactor_version:
  "validate_coordinate_component FVersion s = Inr () \<Longrightarrow> validate_reactor_version s = Inr ()"
  using graphic_terminal_safe [of s]
  by (auto simp: validate_ok component_ok_def validate_reactor_version_def list_all_iff)

theorem checked_version_is_reactor_version_witness:
  "validate_coordinate_component FVersion ''1.0-SNAPSHOT+b1'' = Inr () \<and>
   validate_reactor_version ''1.0-SNAPSHOT+b1'' = Inr ()"
proof -
  have "validate_coordinate_component FVersion ''1.0-SNAPSHOT+b1'' = Inr ()" by code_simp
  with checked_version_is_reactor_version [OF this] show ?thesis by simp
qed

end
