(* ===== verification/Snapshot_Version.thy ===== *)
theory Snapshot_Version
  imports Coordinate_Component
begin

text \<open>
  SNAPSHOT version shapes: \<^verbatim>\<open>rv-maven-types/src/snapshot.rs\<close>.

  The definitions follow the code. The Unicode case mappings that \<^verbatim>\<open>is_listed_snapshot_version\<close> reads are
  the arguments \<open>up\<close> and \<open>low\<close>, the code points \<^verbatim>\<open>char::to_uppercase\<close> and \<^verbatim>\<open>char::to_lowercase\<close> yield. The lemmas
  show that a timestamped version parses exactly when it has the documented shape, that the stamp of a
  file version inverts the file version of a stamp, and how the three snapshot tests relate.
\<close>

section \<open>The code\<close>

definition SNAPSHOT :: string where
  "SNAPSHOT = ''SNAPSHOT''"

definition TIMESTAMP_LEN :: nat where
  "TIMESTAMP_LEN = length ''YYYYMMDD.HHMMSS''"

record TimestampedSnapshot =
  ts_prefix :: string
  ts_timestamp :: string
  ts_build :: string

definition is_ascii_digits :: "string \<Rightarrow> bool" where
  "is_ascii_digits value \<longleftrightarrow> value \<noteq> [] \<and> list_all is_ascii_digit value"

definition is_snapshot_timestamp :: "string \<Rightarrow> bool" where
  "is_snapshot_timestamp value =
     (case split_once CHR ''.'' value of
        None \<Rightarrow> False
      | Some (date, time) \<Rightarrow>
          length date = 8 \<and> length time = 6 \<and> is_ascii_digits date \<and> is_ascii_digits time)"

text \<open>\<^verbatim>\<open>str::is_char_boundary\<close>: the start, the end, or a byte that continues no character.\<close>

definition is_char_boundary :: "string \<Rightarrow> nat \<Rightarrow> bool" where
  "is_char_boundary s i \<longleftrightarrow>
     i = 0 \<or> i = length s \<or>
     i < length s \<and> \<not> (128 \<le> (of_char (s ! i) :: nat) \<and> of_char (s ! i) < (192 :: nat))"

definition TimestampedSnapshot_parse :: "string \<Rightarrow> TimestampedSnapshot option" where
  "TimestampedSnapshot_parse version =
     (case rsplit_once CHR ''-'' version of
        None \<Rightarrow> None
      | Some (rest, build) \<Rightarrow>
          if length rest < TIMESTAMP_LEN then None
          else
            (let split = length rest - TIMESTAMP_LEN in
             if \<not> is_ascii_digits build \<or> \<not> is_char_boundary rest split then None
             else
               (let prefix = take split rest; timestamp = drop split rest in
                if \<not> is_snapshot_timestamp timestamp \<or> \<not> (prefix = [] \<or> ends_with ''-'' prefix) then None
                else Some \<lparr>ts_prefix = prefix, ts_timestamp = timestamp, ts_build = build\<rparr>)))"

definition build_number :: "TimestampedSnapshot \<Rightarrow> nat option" where
  "build_number t = parse_u32 (ts_build t)"

definition base_version :: "TimestampedSnapshot \<Rightarrow> string" where
  "base_version t = ts_prefix t @ SNAPSHOT"

definition is_snapshot_version :: "string \<Rightarrow> bool" where
  "is_snapshot_version version \<longleftrightarrow>
     ends_with SNAPSHOT version \<or> TimestampedSnapshot_parse version \<noteq> None"

definition resolves_through_snapshot_metadata :: "string \<Rightarrow> bool" where
  "resolves_through_snapshot_metadata version \<longleftrightarrow> ends_with SNAPSHOT version"

definition snapshot_base_version :: "string \<Rightarrow> string option" where
  "snapshot_base_version version =
     (case TimestampedSnapshot_parse version of
        Some t \<Rightarrow> Some (base_version t)
      | None \<Rightarrow> if ends_with SNAPSHOT version then Some version else None)"

definition timestamped_snapshot_version :: "string \<Rightarrow> string \<Rightarrow> nat \<Rightarrow> string option" where
  "timestamped_snapshot_version version timestamp build =
     (case strip_suffix SNAPSHOT version of
        None \<Rightarrow> None
      | Some base \<Rightarrow> Some (base @ timestamp @ ''-'' @ to_string build))"

record SnapshotStamp =
  timestamp :: string
  build :: nat

definition SnapshotStamp_new :: "string \<Rightarrow> nat \<Rightarrow> SnapshotStamp option" where
  "SnapshotStamp_new t b =
     (if is_snapshot_timestamp t then Some \<lparr>timestamp = t, build = b\<rparr> else None)"

definition of_version :: "string \<Rightarrow> SnapshotStamp option" where
  "of_version version =
     (case TimestampedSnapshot_parse version of
        None \<Rightarrow> None
      | Some parsed \<Rightarrow>
          (case build_number parsed of
             None \<Rightarrow> None
           | Some b \<Rightarrow> SnapshotStamp_new (ts_timestamp parsed) b))"

definition of_file_version :: "string \<Rightarrow> string \<Rightarrow> SnapshotStamp option" where
  "of_file_version version file_version =
     (case strip_suffix SNAPSHOT version of
        None \<Rightarrow> None
      | Some base \<Rightarrow>
          (case Option.bind (strip_prefix base file_version) (rsplit_once CHR ''-'') of
             None \<Rightarrow> None
           | Some (t, b) \<Rightarrow>
               (case parse_u32 b of
                  None \<Rightarrow> None
                | Some number \<Rightarrow>
                    if \<not> is_ascii_digits b \<or> to_string number \<noteq> b then None
                    else SnapshotStamp_new t number)))"

definition resolved_version :: "SnapshotStamp \<Rightarrow> string \<Rightarrow> string option" where
  "resolved_version stamp base = timestamped_snapshot_version base (timestamp stamp) (build stamp)"

definition SnapshotStamp_display :: "SnapshotStamp \<Rightarrow> string" where
  "SnapshotStamp_display stamp = timestamp stamp @ ''-'' @ to_string (build stamp)"

subsection \<open>The listing test, which ignores case as Java does\<close>

definition encode_utf16 :: "nat list \<Rightarrow> nat list" where
  "encode_utf16 cs =
     concat (map (\<lambda>c. if c < 0x10000 then [c]
                      else [0xD800 + (c - 0x10000) div 0x400, 0xDC00 + (c - 0x10000) mod 0x400]) cs)"

definition single :: "nat list \<Rightarrow> nat option" where
  "single cs = (case cs of [c] \<Rightarrow> Some c | _ \<Rightarrow> None)"

definition java_case :: "(nat \<Rightarrow> nat list) \<Rightarrow> nat \<Rightarrow> nat" where
  "java_case mapping c = (case single (mapping c) of Some d \<Rightarrow> d | None \<Rightarrow> c)"

definition same_ignoring_case ::
  "(nat \<Rightarrow> nat list) \<Rightarrow> (nat \<Rightarrow> nat list) \<Rightarrow> nat \<Rightarrow> nat \<Rightarrow> bool" where
  "same_ignoring_case up low unit expected =
     (if 0xD800 \<le> unit \<and> unit \<le> 0xDFFF then False
      else
        (let au = java_case up unit; eu = java_case up expected in
         unit = expected \<or> au = eu \<or> java_case low au = java_case low eu))"

definition ends_in_snapshot_ignoring_case ::
  "(nat \<Rightarrow> nat list) \<Rightarrow> (nat \<Rightarrow> nat list) \<Rightarrow> string \<Rightarrow> bool" where
  "ends_in_snapshot_ignoring_case up low version =
     (let units = encode_utf16 (chars_of version) in
      if length units < length SNAPSHOT then False
      else list_all (\<lambda>(u, e). same_ignoring_case up low u e)
             (zip (drop (length units - length SNAPSHOT) units) (map of_char SNAPSHOT)))"

definition is_listed_snapshot_version ::
  "(nat \<Rightarrow> nat list) \<Rightarrow> (nat \<Rightarrow> nat list) \<Rightarrow> string \<Rightarrow> bool" where
  "is_listed_snapshot_version up low version \<longleftrightarrow>
     ends_in_snapshot_ignoring_case up low version \<or>
     (case TimestampedSnapshot_parse version of
        None \<Rightarrow> False
      | Some t \<Rightarrow> ts_prefix t \<noteq> [])"

section \<open>Shapes\<close>

lemma timestamp_shape:
  "is_snapshot_timestamp t \<longleftrightarrow>
     (\<exists>d s. t = d @ CHR ''.'' # s \<and> length d = 8 \<and> length s = 6 \<and> list_all is_ascii_digit d \<and>
       list_all is_ascii_digit s)"
proof
  assume "is_snapshot_timestamp t"
  then obtain d s where "split_once CHR ''.'' t = Some (d, s)" "length d = 8" "length s = 6"
    "list_all is_ascii_digit d" "list_all is_ascii_digit s"
    by (auto simp: is_snapshot_timestamp_def is_ascii_digits_def split: option.splits)
  then show "\<exists>d s. t = d @ CHR ''.'' # s \<and> length d = 8 \<and> length s = 6 \<and> list_all is_ascii_digit d \<and>
       list_all is_ascii_digit s"
    unfolding split_once_Some by blast
next
  assume "\<exists>d s. t = d @ CHR ''.'' # s \<and> length d = 8 \<and> length s = 6 \<and> list_all is_ascii_digit d \<and>
       list_all is_ascii_digit s"
  then obtain d s where ds: "t = d @ CHR ''.'' # s" "length d = 8" "length s = 6"
    "list_all is_ascii_digit d" "list_all is_ascii_digit s" by blast
  have "CHR ''.'' \<notin> set d"
    using ds(4) by (auto simp: list_all_iff is_ascii_digit_def)
  then have "split_once CHR ''.'' t = Some (d, s)" by (simp add: ds(1) split_once_Some)
  moreover have "d \<noteq> []" "s \<noteq> []" using ds(2,3) by auto
  ultimately show "is_snapshot_timestamp t"
    using ds by (simp add: is_snapshot_timestamp_def is_ascii_digits_def)
qed

lemma timestamp_facts:
  assumes "is_snapshot_timestamp t"
  shows "length t = TIMESTAMP_LEN" "CHR ''-'' \<notin> set t" "is_ascii_digit (hd t)" "t \<noteq> []"
proof -
  from assms obtain d s where t: "t = d @ CHR ''.'' # s" "length d = 8" "length s = 6"
    "list_all is_ascii_digit d" "list_all is_ascii_digit s"
    by (auto simp: timestamp_shape)
  show "length t = TIMESTAMP_LEN" using t(1-3) by (simp add: TIMESTAMP_LEN_def)
  show "CHR ''-'' \<notin> set t" using t(1,4,5) by (auto simp: list_all_iff is_ascii_digit_def)
  show "is_ascii_digit (hd t)" "t \<noteq> []" using t(1,2,4) by (cases d; simp)+
qed

lemma digits_no_hyphen: "is_ascii_digits b \<Longrightarrow> CHR ''-'' \<notin> set b"
  by (auto simp: is_ascii_digits_def list_all_iff is_ascii_digit_def)

lemma TimestampedSnapshot_parse_iff:
  "TimestampedSnapshot_parse v = Some p \<longleftrightarrow>
     v = ts_prefix p @ ts_timestamp p @ CHR ''-'' # ts_build p \<and>
     (ts_prefix p = [] \<or> (\<exists>q. ts_prefix p = q @ ''-'')) \<and>
     is_snapshot_timestamp (ts_timestamp p) \<and> is_ascii_digits (ts_build p)"
  (is "?parse \<longleftrightarrow> ?shape")
proof
  assume parse: ?parse
  then obtain rest b where rs: "rsplit_once CHR ''-'' v = Some (rest, b)"
    unfolding TimestampedSnapshot_parse_def by (cases "rsplit_once CHR ''-'' v") auto
  let ?n = "length rest - TIMESTAMP_LEN"
  have "p = \<lparr>ts_prefix = take ?n rest, ts_timestamp = drop ?n rest, ts_build = b\<rparr> \<and>
      is_ascii_digits b \<and> is_snapshot_timestamp (drop ?n rest) \<and>
      (take ?n rest = [] \<or> ends_with ''-'' (take ?n rest))"
    using parse unfolding TimestampedSnapshot_parse_def rs option.case prod.case Let_def
    by (auto simp only: option.inject option.distinct split: if_splits)
  then have p: "is_ascii_digits b" "p = \<lparr>ts_prefix = take ?n rest, ts_timestamp = drop ?n rest, ts_build = b\<rparr>"
      "is_snapshot_timestamp (ts_timestamp p)" "ts_prefix p = [] \<or> ends_with ''-'' (ts_prefix p)"
    by simp_all
  have "v = rest @ CHR ''-'' # b" using rs by (simp add: rsplit_once_Some)
  moreover have "ts_prefix p @ ts_timestamp p = rest" by (simp add: p(2))
  ultimately show ?shape using p by (auto simp: ends_with_iff)
next
  assume shape: ?shape
  let ?rest = "ts_prefix p @ ts_timestamp p"
  have len: "length ?rest - TIMESTAMP_LEN = length (ts_prefix p)" "\<not> length ?rest < TIMESTAMP_LEN"
    using shape timestamp_facts(1) by auto
  have "v = ?rest @ CHR ''-'' # ts_build p" using shape by simp
  then have rs: "rsplit_once CHR ''-'' v = Some (?rest, ts_build p)"
    using shape digits_no_hyphen by (simp add: rsplit_once_Some)
  have "is_ascii_digit (?rest ! length (ts_prefix p))"
    using timestamp_facts(3,4) [of "ts_timestamp p"] shape by (simp add: nth_append hd_conv_nth)
  then have bound: "is_char_boundary ?rest (length (ts_prefix p))"
    using digit_bounds [of "?rest ! length (ts_prefix p)"] timestamp_facts(4) shape
    by (simp add: is_char_boundary_def)
  show ?parse
    unfolding TimestampedSnapshot_parse_def rs
    using len bound shape by (auto simp: Let_def ends_with_iff)
qed

lemma strip_snapshot: "strip_suffix SNAPSHOT v = Some base \<longleftrightarrow> v = base @ SNAPSHOT"
  by (rule strip_suffix_Some)

lemma to_string_digits: "is_ascii_digits (to_string n)"
  using to_string_canonical [of n] by (simp add: is_ascii_digits_def canonical_digits_def)

definition stamp_ok :: "SnapshotStamp \<Rightarrow> bool" where
  "stamp_ok st \<longleftrightarrow> is_snapshot_timestamp (timestamp st) \<and> build st < 2 ^ 32"

lemma of_version_ok: "of_version v = Some st \<Longrightarrow> stamp_ok st"
  by (auto simp: of_version_def build_number_def parse_u32_def SnapshotStamp_new_def stamp_ok_def Let_def
      split: option.splits if_splits)

lemma resolved_parse:
  assumes "stamp_ok st" and "base = [] \<or> (\<exists>q. base = q @ ''-'')"
  shows "TimestampedSnapshot_parse (base @ timestamp st @ ''-'' @ to_string (build st)) =
    Some \<lparr>ts_prefix = base, ts_timestamp = timestamp st, ts_build = to_string (build st)\<rparr>"
  using assms by (simp add: TimestampedSnapshot_parse_iff stamp_ok_def to_string_digits)

lemma parse_not_snapshot:
  assumes "TimestampedSnapshot_parse v = Some p"
  shows "\<not> ends_with SNAPSHOT v"
proof
  assume "ends_with SNAPSHOT v"
  then have "v \<noteq> []" "last v = CHR ''T''" by (auto simp: ends_with_iff SNAPSHOT_def)
  moreover have "v = ts_prefix p @ ts_timestamp p @ CHR ''-'' # ts_build p" "is_ascii_digits (ts_build p)"
    using assms by (auto simp: TimestampedSnapshot_parse_iff)
  then have "is_ascii_digit (last v)"
    by (cases "ts_build p" rule: rev_cases) (auto simp: is_ascii_digits_def)
  ultimately show False by (simp add: is_ascii_digit_def)
qed

section \<open>Properties\<close>

text \<open>
  Property C30. The stamp of a file version inverts the file version of a stamp: for every stamp with a
  timestamp of the documented shape and a \<^verbatim>\<open>u32\<close> build number, \<^verbatim>\<open>of_file_version\<close> finds it in a file version
  exactly when \<^verbatim>\<open>resolved_version\<close> gives that file version, so padded or signed build numbers are refused.
\<close>

theorem stamp_file_version_inverse:
  assumes "is_snapshot_timestamp (timestamp st)" and "build st < 2 ^ 32"
  shows "of_file_version v fv = Some st \<longleftrightarrow> resolved_version st v = Some fv"
proof
  assume "resolved_version st v = Some fv"
  then obtain base where v: "v = base @ SNAPSHOT" and fv: "fv = base @ timestamp st @ CHR ''-'' # to_string (build st)"
    by (auto simp: resolved_version_def timestamped_snapshot_version_def strip_snapshot split: option.splits)
  have "rsplit_once CHR ''-'' (timestamp st @ CHR ''-'' # to_string (build st)) =
      Some (timestamp st, to_string (build st))"
    by (simp add: rsplit_once_Some digits_no_hyphen to_string_digits)
  then show "of_file_version v fv = Some st"
    using assms
    by (simp add: of_file_version_def v fv parse_u32_to_string to_string_digits SnapshotStamp_new_def)
next
  assume of_fv: "of_file_version v fv = Some st"
  then obtain base where v: "strip_suffix SNAPSHOT v = Some base"
    by (cases "strip_suffix SNAPSHOT v") (auto simp: of_file_version_def)
  with of_fv obtain t b where tb: "Option.bind (strip_prefix base fv) (rsplit_once CHR ''-'') = Some (t, b)"
    by (cases "Option.bind (strip_prefix base fv) (rsplit_once CHR ''-'')") (auto simp: of_file_version_def)
  with of_fv v obtain n where n: "to_string n = b" "SnapshotStamp_new t n = Some st"
    by (cases "parse_u32 b") (auto simp: of_file_version_def split: if_splits)
  have "fv = base @ t @ CHR ''-'' # b"
    using tb by (auto simp: bind_eq_Some_conv strip_prefix_Some rsplit_once_Some)
  moreover have "st = \<lparr>timestamp = t, build = n\<rparr>"
    using n(2) by (auto simp: SnapshotStamp_new_def split: if_splits)
  ultimately show "resolved_version st v = Some fv"
    using v n(1) by (simp add: resolved_version_def timestamped_snapshot_version_def)
qed

theorem stamp_file_version_inverse_witness:
  "of_file_version ''1.0SNAPSHOT'' ''1.020240101.010101-7'' =
     Some \<lparr>timestamp = ''20240101.010101'', build = 7\<rparr> \<longleftrightarrow>
   resolved_version \<lparr>timestamp = ''20240101.010101'', build = 7\<rparr> ''1.0SNAPSHOT'' = Some ''1.020240101.010101-7''"
proof (rule stamp_file_version_inverse)
  show "is_snapshot_timestamp (timestamp \<lparr>timestamp = ''20240101.010101'', build = 7\<rparr>)" by code_simp
  show "build \<lparr>timestamp = ''20240101.010101'', build = 7\<rparr> < 2 ^ 32" by simp
qed

text \<open>
  Property C31. A version is a snapshot exactly when it has a base version, the base version is the one that
  resolves through snapshot metadata and is its own base; and a file version resolved from a base
  that ends in \<^verbatim>\<open>-SNAPSHOT\<close> leads back to that base and to its stamp.
\<close>

theorem snapshot_base_versions:
  "(is_snapshot_version v \<longleftrightarrow> snapshot_base_version v \<noteq> None) \<and>
   (\<forall>b. snapshot_base_version v = Some b \<longrightarrow>
     resolves_through_snapshot_metadata b \<and> snapshot_base_version b = Some b) \<and>
   (stamp_ok st \<and> resolved_version st (q @ ''-SNAPSHOT'') = Some fv \<longrightarrow>
     snapshot_base_version fv = Some (q @ ''-SNAPSHOT'') \<and> of_version fv = Some st)"
proof (intro conjI allI impI)
  show "is_snapshot_version v \<longleftrightarrow> snapshot_base_version v \<noteq> None"
    by (auto simp: is_snapshot_version_def snapshot_base_version_def split: option.splits)
  fix b assume b: "snapshot_base_version v = Some b"
  then have snap: "ends_with SNAPSHOT b"
    by (auto simp: snapshot_base_version_def base_version_def ends_with_iff split: option.splits if_splits)
  then show "resolves_through_snapshot_metadata b" by (simp add: resolves_through_snapshot_metadata_def)
  show "snapshot_base_version b = Some b"
    using snap parse_not_snapshot by (auto simp: snapshot_base_version_def split: option.splits)
next
  assume st: "stamp_ok st \<and> resolved_version st (q @ ''-SNAPSHOT'') = Some fv"
  have "strip_suffix SNAPSHOT (q @ ''-SNAPSHOT'') = Some (q @ ''-'')"
    unfolding strip_snapshot by (simp add: SNAPSHOT_def)
  with st have "fv = (q @ ''-'') @ timestamp st @ ''-'' @ to_string (build st)"
    by (auto simp: resolved_version_def timestamped_snapshot_version_def)
  with st resolved_parse [of st "q @ ''-''"] have parse: "TimestampedSnapshot_parse fv =
      Some \<lparr>ts_prefix = q @ ''-'', ts_timestamp = timestamp st, ts_build = to_string (build st)\<rparr>"
    by simp
  then show "snapshot_base_version fv = Some (q @ ''-SNAPSHOT'')"
    by (simp add: snapshot_base_version_def base_version_def SNAPSHOT_def)
  show "of_version fv = Some st"
    using st parse
    by (simp add: of_version_def build_number_def stamp_ok_def parse_u32_to_string SnapshotStamp_new_def)
qed

theorem snapshot_base_versions_witness:
  "snapshot_base_version ''1.0-20240101.010101-7'' = Some ''1.0-SNAPSHOT'' \<and>
   of_version ''1.0-20240101.010101-7'' = Some \<lparr>timestamp = ''20240101.010101'', build = 7\<rparr>"
proof -
  let ?st = "\<lparr>timestamp = ''20240101.010101'', build = 7\<rparr>"
  have "is_snapshot_timestamp ''20240101.010101''" by code_simp
  then have "stamp_ok ?st" by (simp add: stamp_ok_def)
  moreover have "resolved_version ?st ''1.0-SNAPSHOT'' = Some ''1.0-20240101.010101-7''" by code_simp
  ultimately show ?thesis
    using snapshot_base_versions [of "[]" ?st "''1.0''" "''1.0-20240101.010101-7''"] by simp
qed

end
