(* ===== verification/Coordinates.thy ===== *)
theory Coordinates
  imports Snapshot_Version
begin

text \<open>
  Coordinates and the repository layout: \<^verbatim>\<open>rv-maven-types/src/coord.rs\<close> and \<^verbatim>\<open>layout.rs\<close>, with the ids of
  \<^verbatim>\<open>id.rs\<close> as strings.

  The definitions follow the code. The lemmas show that a coordinate is what its display parses to, that
  a partial coordinate matches the coordinate it was parsed beside, that the path of a checked
  coordinate stays below the repository and names one group, artifact and version, and which paths
  are mutable snapshots.
\<close>

section \<open>The code\<close>

record Coord =
  group_id :: string
  artifact_id :: string
  version :: Version
  packaging :: "string option"
  classifier :: "string option"

text \<open>The match on the segments after the version; \<^const>\<open>None\<close> is the refused case.\<close>

definition coord_rest :: "string list \<Rightarrow> (string option \<times> string option) option" where
  "coord_rest rest =
     (case rest of
        [] \<Rightarrow> Some (None, None)
      | [p] \<Rightarrow> if p \<noteq> [] then Some (Some p, None) else None
      | [p, c] \<Rightarrow> if c \<noteq> [] then Some (if p \<noteq> [] then Some p else None, Some c) else None
      | _ \<Rightarrow> None)"

definition segments :: "string \<Rightarrow> string list" where
  "segments trimmed = map trim (split_on CHR '':'' trimmed)"

definition Coord_parse :: "(string \<Rightarrow> string) \<Rightarrow> string \<Rightarrow> VersionError + Coord" where
  "Coord_parse lc s =
     (let trimmed = trim s in
      case segments trimmed of
        g # a # v # rest \<Rightarrow>
          (case coord_rest rest of
             None \<Rightarrow> Inl (InvalidCoord trimmed)
           | Some (p, c) \<Rightarrow>
               if g = [] \<or> a = [] \<or> v = [] then Inl (InvalidCoord trimmed)
               else
                 (case Version_parse lc v of
                    Inl _ \<Rightarrow> Inl (InvalidCoord trimmed)
                  | Inr ver \<Rightarrow> Inr \<lparr>group_id = g, artifact_id = a, version = ver, packaging = p, classifier = c\<rparr>))
      | _ \<Rightarrow> Inl (InvalidCoord trimmed))"

definition Coord_display :: "Coord \<Rightarrow> string" where
  "Coord_display x =
     group_id x @ '':'' @ artifact_id x @ '':'' @ original (version x) @
     (case (packaging x, classifier x) of
        (Some p, Some c) \<Rightarrow> '':'' @ p @ '':'' @ c
      | (Some p, None) \<Rightarrow> '':'' @ p
      | (None, Some c) \<Rightarrow> ''::'' @ c
      | (None, None) \<Rightarrow> [])"

record PartialCoord =
  pgroup_id :: "string option"
  partifact_id :: string
  pversion :: "Version option"
  ppackaging :: "string option"
  pclassifier :: "string option"

text \<open>The closure \<^verbatim>\<open>field\<close>: a segment that is there and not empty.\<close>

definition segment_at :: "string list \<Rightarrow> nat \<Rightarrow> string option" where
  "segment_at parts i = (if i < length parts \<and> parts ! i \<noteq> [] then Some (parts ! i) else None)"

definition PartialCoord_parse :: "(string \<Rightarrow> string) \<Rightarrow> string \<Rightarrow> VersionError + PartialCoord" where
  "PartialCoord_parse lc s =
     (let trimmed = trim s; parts = segments trimmed in
      if length parts > 5 \<or> (parts \<noteq> [] \<and> last parts = []) then Inl (InvalidCoord trimmed)
      else case parts of
        [a] \<Rightarrow> Inr \<lparr>pgroup_id = None, partifact_id = a, pversion = None, ppackaging = None, pclassifier = None\<rparr>
      | _ \<Rightarrow>
          if parts ! 0 = [] \<or> parts ! 1 = [] then Inl (InvalidCoord trimmed)
          else
            and_then
              (case segment_at parts 2 of
                 None \<Rightarrow> Inr None
               | Some v \<Rightarrow> (case Version_parse lc v of
                             Inl _ \<Rightarrow> Inl (InvalidCoord trimmed)
                           | Inr ver \<Rightarrow> Inr (Some ver)))
              (\<lambda>ver. Inr \<lparr>pgroup_id = Some (parts ! 0), partifact_id = parts ! 1, pversion = ver,
                 ppackaging = segment_at parts 3, pclassifier = segment_at parts 4\<rparr>))"

definition PartialCoord_matches :: "PartialCoord \<Rightarrow> Coord \<Rightarrow> bool" where
  "PartialCoord_matches p x \<longleftrightarrow>
     (case pgroup_id p of None \<Rightarrow> True | Some g \<Rightarrow> g = group_id x) \<and>
     partifact_id p = artifact_id x \<and>
     (case pversion p of None \<Rightarrow> True | Some v \<Rightarrow> Version_eq v (version x)) \<and>
     (case ppackaging p of None \<Rightarrow> True | Some q \<Rightarrow> packaging x = Some q) \<and>
     (case pclassifier p of None \<Rightarrow> True | Some c \<Rightarrow> classifier x = Some c)"

definition PartialCoord_display :: "PartialCoord \<Rightarrow> string" where
  "PartialCoord_display p =
     (case pgroup_id p of
        None \<Rightarrow> partifact_id p
      | Some g \<Rightarrow>
          (let start = g @ '':'' @ partifact_id p;
               tail = (ppackaging p \<noteq> None \<or> pclassifier p \<noteq> None) in
           if pversion p = None \<and> \<not> tail then start
           else
             (let upto_version = start @ '':'' @ (case pversion p of None \<Rightarrow> [] | Some v \<Rightarrow> original v) in
              if \<not> tail then upto_version
              else upto_version @ '':'' @ (case ppackaging p of None \<Rightarrow> [] | Some q \<Rightarrow> q) @
                (case pclassifier p of None \<Rightarrow> [] | Some c \<Rightarrow> '':'' @ c))))"

record Gav =
  group :: string
  artifact :: string
  gav_version :: string

definition Gav_new :: "string \<Rightarrow> string \<Rightarrow> string \<Rightarrow> Gav" where
  "Gav_new g a v = \<lparr>group = g, artifact = a, gav_version = v\<rparr>"

definition Gav_validate :: "Gav \<Rightarrow> InvalidCoordinateComponent + unit" where
  "Gav_validate x =
     and_then (validate_coordinate_component Group (group x)) (\<lambda>_.
     and_then (validate_coordinate_component Artifact (artifact x)) (\<lambda>_.
       validate_coordinate_component FVersion (gav_version x)))"

definition Gav_display :: "Gav \<Rightarrow> string" where
  "Gav_display x = group x @ '':'' @ artifact x @ '':'' @ gav_version x"

record ArtifactCoord =
  gav :: Gav
  extension :: string
  ac_classifier :: "string option"

definition ArtifactCoord_of :: "Gav \<Rightarrow> string \<Rightarrow> string option \<Rightarrow> ArtifactCoord" where
  "ArtifactCoord_of g ext cl =
     \<lparr>gav = g, extension = ext,
      ac_classifier = (case cl of None \<Rightarrow> None | Some c \<Rightarrow> if c \<noteq> [] then Some c else None)\<rparr>"

definition ArtifactCoord_new ::
  "string \<Rightarrow> string \<Rightarrow> string \<Rightarrow> string \<Rightarrow> string option \<Rightarrow> ArtifactCoord" where
  "ArtifactCoord_new g a v ext cl = ArtifactCoord_of (Gav_new g a v) ext cl"

definition classifier_key :: "ArtifactCoord \<Rightarrow> string" where
  "classifier_key x = (case ac_classifier x of None \<Rightarrow> [] | Some c \<Rightarrow> c)"

definition ArtifactCoord_pom :: "ArtifactCoord \<Rightarrow> ArtifactCoord" where
  "ArtifactCoord_pom x = ArtifactCoord_of (gav x) ''pom'' None"

definition ArtifactCoord_validate :: "ArtifactCoord \<Rightarrow> InvalidCoordinateComponent + unit" where
  "ArtifactCoord_validate x =
     and_then (Gav_validate (gav x)) (\<lambda>_.
     and_then (validate_coordinate_component Extension (extension x)) (\<lambda>_.
       (case ac_classifier x of
          None \<Rightarrow> Inr ()
        | Some c \<Rightarrow> validate_coordinate_component Classifier c)))"

definition ArtifactCoord_display :: "ArtifactCoord \<Rightarrow> string" where
  "ArtifactCoord_display x =
     Gav_display (gav x) @ '':'' @ extension x @ (case ac_classifier x of None \<Rightarrow> [] | Some c \<Rightarrow> '':'' @ c)"

subsection \<open>The layout\<close>

definition dots_to_slashes :: "string \<Rightarrow> string" where
  "dots_to_slashes s = map (\<lambda>c. if c = CHR ''.'' then CHR ''/'' else c) s"

definition artifact_file :: "string \<Rightarrow> string \<Rightarrow> string \<Rightarrow> string option \<Rightarrow> string" where
  "artifact_file a fv ext cl =
     (case cl of
        Some c \<Rightarrow> a @ ''-'' @ fv @ ''-'' @ c @ ''.'' @ ext
      | None \<Rightarrow> a @ ''-'' @ fv @ ''.'' @ ext)"

definition artifact_path_from_parts ::
  "string \<Rightarrow> string \<Rightarrow> string \<Rightarrow> string \<Rightarrow> string \<Rightarrow> string option \<Rightarrow> string" where
  "artifact_path_from_parts g a dv fv ext cl =
     dots_to_slashes g @ ''/'' @ a @ ''/'' @ dv @ ''/'' @ artifact_file a fv ext cl"

definition artifact_path :: "ArtifactCoord \<Rightarrow> string \<Rightarrow> string \<Rightarrow> string" where
  "artifact_path x dv fv =
     artifact_path_from_parts (group (gav x)) (artifact (gav x)) dv fv (extension x) (ac_classifier x)"

definition metadata_path :: "string \<Rightarrow> string \<Rightarrow> string option \<Rightarrow> string" where
  "metadata_path g a ver =
     (case ver of
        Some v \<Rightarrow> dots_to_slashes g @ ''/'' @ a @ ''/'' @ v @ ''/maven-metadata.xml''
      | None \<Rightarrow> dots_to_slashes g @ ''/'' @ a @ ''/maven-metadata.xml'')"

definition is_mutable_snapshot_path :: "string \<Rightarrow> bool" where
  "is_mutable_snapshot_path path =
     (case rev (split_on CHR ''/'' path) of
        file # ver # art # _ \<Rightarrow>
          resolves_through_snapshot_metadata ver \<and>
          (case Option.bind (Option.bind (strip_prefix art file) (strip_prefix ''-'')) (strip_prefix ver) of
             None \<Rightarrow> False
           | Some suffix \<Rightarrow> starts_with ''.'' suffix \<or> starts_with ''-'' suffix)
      | _ \<Rightarrow> False)"

section \<open>Segments\<close>

lemma ws_prefix_sep:
  assumes "ws_prefix a = None" and "\<And>w. w \<in> set white_space \<Longrightarrow> c \<notin> set w"
  shows "ws_prefix (a @ c # b) = None"
  unfolding ws_prefix_def find_None_all starts_with_iff
proof (intro ballI notI)
  fix w assume w: "w \<in> set white_space" and "\<exists>r. a @ c # b = w @ r"
  then obtain r where r: "a @ c # b = w @ r" by blast
  have "\<exists>u. a = w @ u"
  proof (cases "length w \<le> length a")
    case True
    with r show ?thesis by (auto simp: append_eq_append_conv2)
  next
    case False
    with r obtain us where "us \<noteq> []" "c # b = us @ r" "w = a @ us"
      by (auto simp: append_eq_append_conv2)
    then have "\<exists>u. w = a @ c # u" by (cases us) auto
    with assms(2) [OF w] show ?thesis by auto
  qed
  with w assms(1) show False by (auto simp: ws_prefix_def find_None_all starts_with_iff)
qed

lemma ws_suffix_sep:
  assumes "ws_suffix b = None" and "\<And>w. w \<in> set white_space \<Longrightarrow> c \<notin> set w"
  shows "ws_suffix (a @ c # b) = None"
  unfolding ws_suffix_def find_None_all ends_with_iff
proof (intro ballI notI)
  fix w assume w: "w \<in> set white_space" and "\<exists>r. a @ c # b = r @ w"
  then obtain r where r: "a @ c # b = r @ w" by blast
  have "\<exists>u. b = u @ w"
  proof (cases "length w \<le> length b")
    case True
    with r show ?thesis by (auto simp: append_eq_append_conv2 append_eq_Cons_conv Cons_eq_append_conv)
  next
    case False
    with r have "\<exists>u. w = u @ c # b" by (auto simp: append_eq_append_conv2 append_eq_Cons_conv Cons_eq_append_conv)
    with assms(2) [OF w] show ?thesis by auto
  qed
  with w assms(1) show False by (auto simp: ws_suffix_def find_None_all ends_with_iff)
qed

lemma white_space_colon: "w \<in> set white_space \<Longrightarrow> CHR '':'' \<notin> set w"
  by (auto simp: white_space_def)

lemma trimmed_no_ws: "trim s = s \<Longrightarrow> ws_prefix s = None \<and> ws_suffix s = None"
  using trim_no_ws [of s] by simp

lemma trim_join:
  assumes "\<forall>p \<in> set ps. trim p = p"
  shows "trim (join_with '':'' ps) = join_with '':'' ps"
proof (rule trim_id)
  show "ws_prefix (join_with '':'' ps) = None"
  proof (cases ps)
    case (Cons a qs)
    then have "ws_prefix a = None" using assms trimmed_no_ws by simp
    then show ?thesis
      using ws_prefix_sep [OF _ white_space_colon] Cons by (cases qs) auto
  qed (simp add: trimmed_no_ws)
  show "ws_suffix (join_with '':'' ps) = None"
    using assms
  proof (induction "'':''" ps rule: join_with.induct)
    case (3 w v ws)
    then show ?case using ws_suffix_sep [OF _ white_space_colon] by simp
  qed (auto simp: trimmed_no_ws)
qed

lemma segments_join:
  assumes "ps \<noteq> []" and "\<forall>p \<in> set ps. trim p = p \<and> CHR '':'' \<notin> set p"
  shows "segments (trim (join_with '':'' ps)) = ps"
proof -
  have "split_on CHR '':'' (join_with '':'' ps) = ps"
    by (rule split_join) (use assms in auto)
  then show ?thesis
    using assms trim_join [of ps] by (simp add: segments_def map_idI)
qed

lemma segments_ok: "p \<in> set (segments s) \<Longrightarrow> trim p = p \<and> CHR '':'' \<notin> set p"
  using set_trim split_on_parts by (fastforce simp: segments_def)

lemma Version_parse_again:
  "Version_parse lc s = Inr v \<Longrightarrow> trim s = s \<Longrightarrow> original v = s \<and> Version_parse lc (original v) = Inr v"
  by (auto simp: Version_parse_def Let_def split: if_splits)

definition coord_parts :: "Coord \<Rightarrow> string list" where
  "coord_parts x = [group_id x, artifact_id x, original (version x)] @
     (case (packaging x, classifier x) of
        (Some p, Some c) \<Rightarrow> [p, c]
      | (Some p, None) \<Rightarrow> [p]
      | (None, Some c) \<Rightarrow> [[], c]
      | (None, None) \<Rightarrow> [])"

lemma Coord_display_join: "Coord_display x = join_with '':'' (coord_parts x)"
  by (simp add: Coord_display_def coord_parts_def split: option.splits)

text \<open>What a parsed coordinate satisfies.\<close>

definition coord_ok :: "(string \<Rightarrow> string) \<Rightarrow> Coord \<Rightarrow> bool" where
  "coord_ok lc x \<longleftrightarrow>
     (\<forall>p \<in> set (coord_parts x). trim p = p \<and> CHR '':'' \<notin> set p) \<and>
     group_id x \<noteq> [] \<and> artifact_id x \<noteq> [] \<and> original (version x) \<noteq> [] \<and>
     packaging x \<noteq> Some [] \<and> classifier x \<noteq> Some [] \<and>
     Version_parse lc (original (version x)) = Inr (version x)"

lemma coord_rest_parts:
  "coord_rest rest = Some (p, c) \<Longrightarrow>
     rest = (case (p, c) of (Some q, Some d) \<Rightarrow> [q, d] | (Some q, None) \<Rightarrow> [q]
             | (None, Some d) \<Rightarrow> [[], d] | (None, None) \<Rightarrow> []) \<and> p \<noteq> Some [] \<and> c \<noteq> Some []"
  by (auto simp: coord_rest_def split: list.splits if_splits)

lemma Coord_parse_iff:
  "Coord_parse lc s = Inr x \<longleftrightarrow> segments (trim s) = coord_parts x \<and> coord_ok lc x"
proof
  assume parse: "Coord_parse lc s = Inr x"
  then obtain g a v rest where parts: "segments (trim s) = g # a # v # rest"
    by (auto simp: Coord_parse_def Let_def split: list.splits)
  with parse obtain p c ver where pc: "coord_rest rest = Some (p, c)" "g \<noteq> []" "a \<noteq> []" "v \<noteq> []"
    and ver: "Version_parse lc v = Inr ver"
    and x: "x = \<lparr>group_id = g, artifact_id = a, version = ver, packaging = p, classifier = c\<rparr>"
    by (auto simp: Coord_parse_def Let_def split: option.splits sum.splits if_splits)
  have segs: "q \<in> set (g # a # v # rest) \<Longrightarrow> trim q = q \<and> CHR '':'' \<notin> set q" for q
    using segments_ok [of q "trim s"] unfolding parts .
  have orig: "original ver = v" "Version_parse lc (original ver) = Inr ver"
    using Version_parse_again [OF ver] segs [of v] by auto
  have "segments (trim s) = coord_parts x"
    using parts coord_rest_parts [OF pc(1)] orig(1) by (simp add: coord_parts_def x)
  with segs parts pc orig coord_rest_parts [OF pc(1)] show "segments (trim s) = coord_parts x \<and> coord_ok lc x"
    by (simp add: coord_ok_def x)
next
  assume x: "segments (trim s) = coord_parts x \<and> coord_ok lc x"
  then show "Coord_parse lc s = Inr x"
    by (cases x) (auto simp: Coord_parse_def Let_def coord_parts_def coord_ok_def coord_rest_def
        split: option.splits)
qed

lemma Coord_parse_display: "coord_ok lc x \<Longrightarrow> Coord_parse lc (Coord_display x) = Inr x"
  unfolding Coord_parse_iff Coord_display_join
  using segments_join [of "coord_parts x"] by (simp add: coord_ok_def coord_parts_def)

abbreviation text_or_empty :: "string option \<Rightarrow> string" where
  "text_or_empty m \<equiv> (case m of None \<Rightarrow> [] | Some s \<Rightarrow> s)"

abbreviation version_text :: "Version option \<Rightarrow> string" where
  "version_text m \<equiv> (case m of None \<Rightarrow> [] | Some v \<Rightarrow> original v)"

definition partial_parts :: "PartialCoord \<Rightarrow> string list" where
  "partial_parts p =
     (case pgroup_id p of
        None \<Rightarrow> [partifact_id p]
      | Some g \<Rightarrow>
          [g, partifact_id p] @
          (if pclassifier p \<noteq> None then [version_text (pversion p), text_or_empty (ppackaging p), text_or_empty (pclassifier p)]
           else if ppackaging p \<noteq> None then [version_text (pversion p), text_or_empty (ppackaging p)]
           else if pversion p \<noteq> None then [version_text (pversion p)]
           else []))"

lemma PartialCoord_display_join: "PartialCoord_display p = join_with '':'' (partial_parts p)"
  by (cases "pgroup_id p"; cases "pversion p"; cases "ppackaging p"; cases "pclassifier p")
    (simp_all add: PartialCoord_display_def partial_parts_def)

text \<open>What a parsed partial coordinate satisfies.\<close>

definition partial_ok :: "(string \<Rightarrow> string) \<Rightarrow> PartialCoord \<Rightarrow> bool" where
  "partial_ok lc p \<longleftrightarrow>
     (\<forall>q \<in> set (partial_parts p). trim q = q \<and> CHR '':'' \<notin> set q) \<and>
     pgroup_id p \<noteq> Some [] \<and> partifact_id p \<noteq> [] \<and> ppackaging p \<noteq> Some [] \<and> pclassifier p \<noteq> Some [] \<and>
     (pgroup_id p = None \<longrightarrow> pversion p = None \<and> ppackaging p = None \<and> pclassifier p = None) \<and>
     (\<forall>v. pversion p = Some v \<longrightarrow> original v \<noteq> [] \<and> Version_parse lc (original v) = Inr v)"

lemma segment_at_Cons: "segment_at (x # xs) (Suc i) = segment_at xs i"
  by (simp add: segment_at_def)

lemma segment_at_Nil: "segment_at [] i = None"
  by (simp add: segment_at_def)

lemma segment_at_0: "segment_at (x # xs) 0 = (if x \<noteq> [] then Some x else None)"
  by (simp add: segment_at_def)

lemmas segment_simps = segment_at_Cons segment_at_Nil segment_at_0 numeral_2_eq_2 numeral_3_eq_3
  eval_nat_numeral

lemma PartialCoord_parse_parts:
  assumes "segments (trim s) = partial_parts p" and ok: "partial_ok lc p"
  shows "PartialCoord_parse lc s = Inr p"
proof (cases "pgroup_id p")
  case None
  with ok have p: "p = \<lparr>pgroup_id = None, partifact_id = partifact_id p, pversion = None,
      ppackaging = None, pclassifier = None\<rparr>" "partifact_id p \<noteq> []"
    by (auto simp: partial_ok_def)
  have "segments (trim s) = [partifact_id p]" using assms(1) None by (simp add: partial_parts_def)
  with p(2) have "PartialCoord_parse lc s = Inr \<lparr>pgroup_id = None, partifact_id = partifact_id p,
      pversion = None, ppackaging = None, pclassifier = None\<rparr>"
    by (simp add: PartialCoord_parse_def)
  with p(1) show ?thesis by simp
next
  case (Some g)
  have ne: "g \<noteq> []" "partifact_id p \<noteq> []" "ppackaging p \<noteq> Some []" "pclassifier p \<noteq> Some []"
    "\<And>v. pversion p = Some v \<Longrightarrow> original v \<noteq> [] \<and> Version_parse lc (original v) = Inr v"
    using ok Some by (auto simp: partial_ok_def)
  show ?thesis
    using assms(1) Some ne
    by (cases p; cases "pversion p"; cases "ppackaging p"; cases "pclassifier p")
      (simp_all add: PartialCoord_parse_def partial_parts_def segment_simps)
qed

lemma PartialCoord_parse_ok:
  assumes "PartialCoord_parse lc s = Inr p"
  shows "partial_ok lc p"
proof -
  let ?ps = "segments (trim s)"
  have segs: "q \<in> set ?ps \<Longrightarrow> trim q = q \<and> CHR '':'' \<notin> set q" for q by (rule segments_ok)
  have len: "length ?ps \<le> 5" "?ps \<noteq> [] \<Longrightarrow> last ?ps \<noteq> []"
    using assms by (auto simp: PartialCoord_parse_def Let_def split: if_splits)
  have ne: "?ps \<noteq> []" by (simp add: segments_def)
  show ?thesis
  proof (cases "length ?ps = 1")
    case True
    then obtain a where a: "?ps = [a]" by (auto simp: length_Suc_conv)
    with assms len ne segs show ?thesis
      by (auto simp: PartialCoord_parse_def Let_def partial_ok_def partial_parts_def)
  next
    case False
    with ne obtain g a rest where ps: "?ps = g # a # rest"
      by (cases ?ps; cases "tl ?ps") auto
    with assms len(1) obtain ver where ver:
      "(case segment_at rest 0 of None \<Rightarrow> ver = None | Some v \<Rightarrow> \<exists>w. Version_parse lc v = Inr w \<and> ver = Some w)"
      and p: "g \<noteq> []" "a \<noteq> []" "p = \<lparr>pgroup_id = Some g, partifact_id = a, pversion = ver,
        ppackaging = segment_at rest 1, pclassifier = segment_at rest 2\<rparr>"
      by (auto simp: PartialCoord_parse_def Let_def and_then_Inr segment_simps
          split: if_splits option.splits sum.splits)
    have seg: "segment_at rest i = Some q \<Longrightarrow> q \<in> set ?ps \<and> q \<noteq> []" for i q
      by (auto simp: segment_at_def ps split: if_splits)
    have segi: "segment_at rest i = Some q \<Longrightarrow> trim q = q \<and> CHR '':'' \<notin> set q \<and> q \<noteq> []" for i q
      using seg segs by blast
    have v: "original v = q \<and> Version_parse lc q = Inr v"
      if "ver = Some v" "segment_at rest 0 = Some q" for v q
      using ver that segi [of 0 q] Version_parse_again [of lc q v] by auto
    have none: "segment_at rest 0 = None \<Longrightarrow> ver = None" using ver by simp
    have texts: "trim (version_text ver) = version_text ver \<and> CHR '':'' \<notin> set (version_text ver)"
      "trim (text_or_empty (segment_at rest i)) = text_or_empty (segment_at rest i) \<and>
        CHR '':'' \<notin> set (text_or_empty (segment_at rest i))" for i
    proof -
      show "trim (version_text ver) = version_text ver \<and> CHR '':'' \<notin> set (version_text ver)"
      proof (cases ver)
        case (Some w)
        then obtain q where q: "segment_at rest 0 = Some q" using none by (cases "segment_at rest 0") auto
        with v [OF Some q] segi [OF q] Some show ?thesis by simp
      qed simp
      show "trim (text_or_empty (segment_at rest i)) = text_or_empty (segment_at rest i) \<and>
        CHR '':'' \<notin> set (text_or_empty (segment_at rest i))"
        using segi [of i] by (cases "segment_at rest i") auto
    qed
    have "original v \<noteq> [] \<and> Version_parse lc (original v) = Inr v" if "ver = Some v" for v
      using that v segi [of 0] none by (cases "segment_at rest 0") auto
    moreover have "trim g = g" "trim a = a" "CHR '':'' \<notin> set g" "CHR '':'' \<notin> set a"
      using segs [of g] segs [of a] by (auto simp: ps)
    ultimately show ?thesis
      using p(1,2) texts segi by (auto simp: partial_ok_def partial_parts_def p(3))
  qed
qed

lemma PartialCoord_parse_display: "partial_ok lc p \<Longrightarrow> PartialCoord_parse lc (PartialCoord_display p) = Inr p"
proof (rule PartialCoord_parse_parts)
  assume ok: "partial_ok lc p"
  have "partial_parts p \<noteq> []" by (auto simp: partial_parts_def split: option.splits)
  with ok show "segments (trim (PartialCoord_display p)) = partial_parts p"
    unfolding PartialCoord_display_join by (intro segments_join) (auto simp: partial_ok_def)
qed

section \<open>Checked coordinates\<close>

lemma Gav_validate_ok:
  "Gav_validate x = Inr u \<longleftrightarrow>
     component_ok Group (group x) \<and> component_ok Artifact (artifact x) \<and> component_ok FVersion (gav_version x)"
  by (auto simp: Gav_validate_def and_then_Inr validate_ok)

lemma ArtifactCoord_validate_ok:
  "ArtifactCoord_validate x = Inr u \<longleftrightarrow>
     Gav_validate (gav x) = Inr u \<and> component_ok Extension (extension x) \<and>
     (\<forall>c. ac_classifier x = Some c \<longrightarrow> component_ok Classifier c)"
  by (cases "ac_classifier x") (auto simp: ArtifactCoord_validate_def and_then_Inr validate_ok)

lemma component_no_slash: "component_ok fld s \<Longrightarrow> CHR ''/'' \<notin> set s"
proof -
  assume "component_ok fld s"
  then have "list_all (\<lambda>c. c \<notin> set FORBIDDEN) s"
    unfolding component_ok_def by (simp add: list_all_iff)
  then show ?thesis by (auto simp: list_all_iff FORBIDDEN_def)
qed

lemma component_nonempty: "component_ok fld s \<Longrightarrow> s \<noteq> []"
  by (simp add: component_ok_def)

lemma split_dots_to_slashes: "CHR ''/'' \<notin> set g \<Longrightarrow> split_on CHR ''/'' (dots_to_slashes g) = split_on CHR ''.'' g"
  by (induction g) (auto simp: dots_to_slashes_def split: list.splits)

lemma split_on_append_last:
  "c \<notin> set b \<Longrightarrow> split_on c (a @ c # b) = split_on c a @ [b]"
proof (induction a)
  case (Cons x a)
  then show ?case by (cases "split_on c a") auto
qed (simp add: split_on_fresh)

lemma artifact_file_no_slash:
  assumes "CHR ''/'' \<notin> set a" "CHR ''/'' \<notin> set fv" "CHR ''/'' \<notin> set ext"
    "\<And>c. cl = Some c \<Longrightarrow> CHR ''/'' \<notin> set c"
  shows "CHR ''/'' \<notin> set (artifact_file a fv ext cl)"
  using assms by (cases cl) (auto simp: artifact_file_def)

text \<open>The directories and the file of a path.\<close>

lemma split_artifact_path:
  assumes "CHR ''/'' \<notin> set g" "CHR ''/'' \<notin> set a" "CHR ''/'' \<notin> set dv"
    "CHR ''/'' \<notin> set (artifact_file a fv ext cl)"
  shows "split_on CHR ''/'' (artifact_path_from_parts g a dv fv ext cl) =
    split_on CHR ''.'' g @ [a, dv, artifact_file a fv ext cl]"
proof -
  have "artifact_path_from_parts g a dv fv ext cl =
      ((dots_to_slashes g @ CHR ''/'' # a) @ CHR ''/'' # dv) @ CHR ''/'' # artifact_file a fv ext cl"
    by (simp add: artifact_path_from_parts_def)
  then show ?thesis
    by (simp only: split_on_append_last [OF assms(4)] split_on_append_last [OF assms(3)]
        split_on_append_last [OF assms(2)] split_dots_to_slashes [OF assms(1)]) simp
qed

lemma dotted_segments:
  "s \<noteq> [] \<Longrightarrow> hd s \<noteq> CHR ''.'' \<Longrightarrow> last s \<noteq> CHR ''.'' \<Longrightarrow> \<not> contains_sub ''..'' s \<Longrightarrow>
   [] \<notin> set (split_on CHR ''.'' s)"
proof (induction s rule: length_induct)
  case (1 s)
  then obtain x t where s: "s = x # t" "x \<noteq> CHR ''.''" by (cases s) auto
  show ?case
  proof (cases t)
    case Nil
    then show ?thesis using s by simp
  next
    case t: (Cons y u)
    have sub: "\<not> contains_sub ''..'' t" "last t \<noteq> CHR ''.''" using 1(4,5) s t by auto
    show ?thesis
    proof (cases "y = CHR ''.''")
      case False
      then have "[] \<notin> set (split_on CHR ''.'' t)"
        using 1(1) [rule_format, of t] s(1) sub by (simp add: t del: split_on.simps)
      then show ?thesis using s(2) by (auto simp: s(1) split: list.splits)
    next
      case True
      then have "u \<noteq> []" "hd u \<noteq> CHR ''.''"
        using sub t by (cases u; auto simp: starts_with_iff)+
      moreover have "\<not> contains_sub ''..'' u" "last u \<noteq> CHR ''.''"
        using sub t \<open>u \<noteq> []\<close> by auto
      ultimately have "[] \<notin> set (split_on CHR ''.'' u)"
        using 1(1) [rule_format, of u] by (simp add: s(1) t)
      then show ?thesis using s(2) by (auto simp: s(1) t True split: list.splits)
    qed
  qed
qed

definition safe_segment :: "string \<Rightarrow> bool" where
  "safe_segment s \<longleftrightarrow> s \<noteq> [] \<and> s \<noteq> ''.'' \<and> s \<noteq> ''..'' \<and> last s \<noteq> CHR ''.'' \<and>
     list_all (\<lambda>c. is_ascii_graphic c \<and> c \<notin> set FORBIDDEN) s"

lemma safe_segmentI:
  "s \<noteq> [] \<Longrightarrow> last s \<noteq> CHR ''.'' \<Longrightarrow> list_all (\<lambda>c. is_ascii_graphic c \<and> c \<notin> set FORBIDDEN) s \<Longrightarrow> safe_segment s"
  by (auto simp: safe_segment_def)

lemma component_safe: "component_ok fld s \<Longrightarrow> safe_segment s"
  unfolding component_ok_def by (rule safe_segmentI) blast+

lemma component_chars: "component_ok fld s \<Longrightarrow> list_all (\<lambda>c. is_ascii_graphic c \<and> c \<notin> set FORBIDDEN) s"
  unfolding component_ok_def by blast

lemma group_segments_safe:
  assumes "component_ok Group g" and "s \<in> set (split_on CHR ''.'' g)"
  shows "safe_segment s"
proof (rule safe_segmentI)
  have "\<not> contains_sub ''..'' g" using assms(1) unfolding component_ok_def contains_sub_iff by blast
  then have "[] \<notin> set (split_on CHR ''.'' g)"
    using assms(1) by (intro dotted_segments) (simp_all add: component_ok_def)
  with assms(2) show ne: "s \<noteq> []" by auto
  show "last s \<noteq> CHR ''.''"
    using split_on_parts [OF assms(2)] last_in_set [OF ne] by auto
  show "list_all (\<lambda>c. is_ascii_graphic c \<and> c \<notin> set FORBIDDEN) s"
    using component_chars [OF assms(1)] split_on_chars [OF assms(2)] by (auto simp: list_all_iff)
qed

lemma artifact_file_safe:
  assumes "component_ok Artifact a" "component_ok FVersion fv" "component_ok Extension ext"
    "\<And>c. cl = Some c \<Longrightarrow> component_ok Classifier c"
  shows "safe_segment (artifact_file a fv ext cl)"
proof (rule safe_segmentI)
  have ext: "ext \<noteq> []" "last ext \<noteq> CHR ''.''" using assms(3) by (simp_all add: component_ok_def)
  then show "artifact_file a fv ext cl \<noteq> []" "last (artifact_file a fv ext cl) \<noteq> CHR ''.''"
    by (cases cl; simp add: artifact_file_def)+
  have sep: "is_ascii_graphic c \<and> c \<notin> set FORBIDDEN" if "c = CHR ''-'' \<or> c = CHR ''.''" for c
    using that by (auto simp: is_ascii_graphic_def less_eq_char_def FORBIDDEN_def)
  show "list_all (\<lambda>c. is_ascii_graphic c \<and> c \<notin> set FORBIDDEN) (artifact_file a fv ext cl)"
    using assms [THEN component_chars] sep
    by (cases cl) (auto simp: artifact_file_def simp del: disj_not1)
qed

lemma checked_path_segments:
  assumes "ArtifactCoord_validate x = Inr ()" "component_ok FVersion dv" "component_ok FVersion fv"
  shows "split_on CHR ''/'' (artifact_path x dv fv) =
    split_on CHR ''.'' (group (gav x)) @
      [artifact (gav x), dv, artifact_file (artifact (gav x)) fv (extension x) (ac_classifier x)]"
proof -
  have ok: "component_ok Group (group (gav x))" "component_ok Artifact (artifact (gav x))"
    "component_ok Extension (extension x)" "\<And>c. ac_classifier x = Some c \<Longrightarrow> component_ok Classifier c"
    using assms(1) by (auto simp: ArtifactCoord_validate_ok Gav_validate_ok)
  have "CHR ''/'' \<notin> set (artifact_file (artifact (gav x)) fv (extension x) (ac_classifier x))"
    by (rule artifact_file_no_slash) (use component_no_slash ok assms(3) in blast)+
  then show ?thesis
    unfolding artifact_path_def
    by (intro split_artifact_path) (use component_no_slash ok(1,2) assms(2) in blast)+
qed

section \<open>Properties\<close>

text \<open>
  Property C28. A coordinate is what its display parses to, with or without a packaging and a classifier.
\<close>

theorem coord_round_trip:
  "Coord_parse lc s = Inr x \<Longrightarrow> Coord_parse lc (Coord_display x) = Inr x"
  by (simp add: Coord_parse_display Coord_parse_iff)

theorem coord_round_trip_witness:
  "\<exists>x. Coord_parse to_ascii_lowercase '' g : a:1.0::tests'' = Inr x \<and>
     Coord_parse to_ascii_lowercase (Coord_display x) = Inr x"
proof -
  have "Coord_parse to_ascii_lowercase '' g : a:1.0::tests'' =
      Inr (projr (Coord_parse to_ascii_lowercase '' g : a:1.0::tests''))" by code_simp
  with coord_round_trip [OF this] show ?thesis by blast
qed

text \<open>
  Property C29. A partial coordinate is what its display parses to, with empty segments for the parts it
  leaves open; and a text that parses as both kinds of coordinate names a coordinate that its partial
  reading matches.
\<close>

theorem partial_coord_round_trip:
  assumes "PartialCoord_parse lc s = Inr p"
  shows "PartialCoord_parse lc (PartialCoord_display p) = Inr p \<and>
    (\<forall>x. Coord_parse lc s = Inr x \<longrightarrow> PartialCoord_matches p x)"
proof (intro conjI allI impI)
  show "PartialCoord_parse lc (PartialCoord_display p) = Inr p"
    by (rule PartialCoord_parse_display [OF PartialCoord_parse_ok [OF assms]])
  fix x assume "Coord_parse lc s = Inr x"
  then have x: "segments (trim s) = coord_parts x" "coord_ok lc x" by (simp_all add: Coord_parse_iff)
  then show "PartialCoord_matches p x"
    using assms
    by (cases "packaging x"; cases "classifier x")
      (auto simp: PartialCoord_parse_def Let_def coord_parts_def coord_ok_def and_then_Inr segment_simps
        PartialCoord_matches_def Version_eq_def version.cmp_refl split: if_splits)
qed

theorem partial_coord_round_trip_witness:
  "\<exists>p. PartialCoord_parse to_ascii_lowercase ''g:a::jar'' = Inr p \<and>
     PartialCoord_parse to_ascii_lowercase (PartialCoord_display p) = Inr p"
proof -
  have "PartialCoord_parse to_ascii_lowercase ''g:a::jar'' =
      Inr (projr (PartialCoord_parse to_ascii_lowercase ''g:a::jar''))" by code_simp
  with partial_coord_round_trip [OF this] show ?thesis by blast
qed

text \<open>
  Property C26. The path of a checked coordinate stays below the repository root: its segments are those of
  the group, the artifact, the version and the file name, none of them is empty, \<^verbatim>\<open>.\<close> or \<^verbatim>\<open>..\<close> or ends in a
  dot, and no byte of them is outside printable ASCII or changes what a path or a URL means.
\<close>

theorem checked_path_is_safe:
  assumes "ArtifactCoord_validate x = Inr ()"
    and "validate_coordinate_component FVersion dv = Inr ()" "validate_coordinate_component FVersion fv = Inr ()"
  shows "split_on CHR ''/'' (artifact_path x dv fv) =
      split_on CHR ''.'' (group (gav x)) @
        [artifact (gav x), dv, artifact_file (artifact (gav x)) fv (extension x) (ac_classifier x)] \<and>
    list_all safe_segment (split_on CHR ''/'' (artifact_path x dv fv))"
proof -
  have dv: "component_ok FVersion dv" "component_ok FVersion fv" using assms(2,3) by (simp_all add: validate_ok)
  have ok: "component_ok Group (group (gav x))" "component_ok Artifact (artifact (gav x))"
    "component_ok Extension (extension x)" "\<And>c. ac_classifier x = Some c \<Longrightarrow> component_ok Classifier c"
    using assms(1) by (auto simp: ArtifactCoord_validate_ok Gav_validate_ok)
  have "safe_segment (artifact_file (artifact (gav x)) fv (extension x) (ac_classifier x))"
    by (rule artifact_file_safe [OF ok(2) dv(2) ok(3) ok(4)])
  then show ?thesis
    unfolding checked_path_segments [OF assms(1) dv]
    using group_segments_safe [OF ok(1)] component_safe [OF ok(2)] component_safe [OF dv(1)]
    by (simp add: list_all_iff)
qed

theorem checked_path_is_safe_witness:
  "ArtifactCoord_validate (ArtifactCoord_new ''org.example'' ''lib'' ''1.0'' ''jar'' (Some ''tests'')) = Inr () \<and>
   list_all safe_segment (split_on CHR ''/''
     (artifact_path (ArtifactCoord_new ''org.example'' ''lib'' ''1.0'' ''jar'' (Some ''tests'')) ''1.0'' ''1.0''))"
proof -
  have ok: "ArtifactCoord_validate (ArtifactCoord_new ''org.example'' ''lib'' ''1.0'' ''jar'' (Some ''tests'')) = Inr ()"
    "validate_coordinate_component FVersion ''1.0'' = Inr ()" by code_simp+
  from checked_path_is_safe [OF ok(1,2,2)] ok(1) show ?thesis by blast
qed

text \<open>
  Property C27. Checked coordinates with the same path have the same group, artifact, directory version and
  file name: no two group, artifact and version triples share a directory.
\<close>

theorem checked_path_is_injective:
  assumes "ArtifactCoord_validate x = Inr ()" "ArtifactCoord_validate y = Inr ()"
    and "list_all (\<lambda>v. validate_coordinate_component FVersion v = Inr ()) [dv, fv, dw, fw]"
    and "artifact_path x dv fv = artifact_path y dw fw"
  shows "group (gav x) = group (gav y) \<and> artifact (gav x) = artifact (gav y) \<and> dv = dw \<and>
    artifact_file (artifact (gav x)) fv (extension x) (ac_classifier x) =
      artifact_file (artifact (gav y)) fw (extension y) (ac_classifier y)"
proof -
  have v: "component_ok FVersion dv" "component_ok FVersion fv" "component_ok FVersion dw" "component_ok FVersion fw"
    using assms(3) by (simp_all add: validate_ok)
  let ?gx = "split_on CHR ''.'' (group (gav x))" and ?gy = "split_on CHR ''.'' (group (gav y))"
  have eq: "?gx @ [artifact (gav x), dv, artifact_file (artifact (gav x)) fv (extension x) (ac_classifier x)] =
      ?gy @ [artifact (gav y), dw, artifact_file (artifact (gav y)) fw (extension y) (ac_classifier y)]"
    using arg_cong [OF assms(4), of "split_on CHR ''/''"]
    unfolding checked_path_segments [OF assms(1) v(1,2)] checked_path_segments [OF assms(2) v(3,4)] .
  then have gx: "?gx = ?gy" by (auto dest: arg_cong [of _ _ length])
  then have "join_with [CHR ''.''] ?gx = join_with [CHR ''.''] ?gy" by simp
  then have "group (gav x) = group (gav y)" by (simp only: join_split)
  with eq show ?thesis unfolding gx same_append_eq list.inject by blast
qed

theorem checked_path_is_injective_witness:
  "group (gav (ArtifactCoord_new ''g.h'' ''a'' ''1'' ''jar'' None)) =
   group (gav (ArtifactCoord_new ''g.h'' ''a'' ''1'' ''jar'' (Some [])))"
proof -
  let ?x = "ArtifactCoord_new ''g.h'' ''a'' ''1'' ''jar'' None"
  let ?y = "ArtifactCoord_new ''g.h'' ''a'' ''1'' ''jar'' (Some [])"
  have "ArtifactCoord_validate ?x = Inr ()" "ArtifactCoord_validate ?y = Inr ()"
    "list_all (\<lambda>v. validate_coordinate_component FVersion v = Inr ()) [''1'', ''1'', ''1'', ''1'']"
    "artifact_path ?x ''1'' ''1'' = artifact_path ?y ''1'' ''1''"
    by code_simp+
  from checked_path_is_injective [OF this] show ?thesis by blast
qed



text \<open>
  A classifier is never the empty text, and an artifact key survives the index, which stores a
  missing classifier as the empty text: building the key again from what is stored gives the same key.
\<close>

theorem classifier_key_round_trip:
  "ac_classifier (ArtifactCoord_of g ext cl) \<noteq> Some [] \<and>
   ArtifactCoord_of g ext (Some (classifier_key (ArtifactCoord_of g ext cl))) = ArtifactCoord_of g ext cl"
  by (cases cl) (simp_all add: ArtifactCoord_of_def classifier_key_def)

end
