(* ===== verification/Content_Digest.thy ===== *)
theory Content_Digest
  imports Snapshot_Version
begin

text \<open>
  Digests and package URLs: \<^verbatim>\<open>rv-maven-types/src/digest.rs\<close> and \<^verbatim>\<open>rv-maven-types/src/purl.rs\<close>.

  The hash functions (crates \<^verbatim>\<open>md5\<close>, \<^verbatim>\<open>sha1\<close>, \<^verbatim>\<open>sha2\<close>, with \<^verbatim>\<open>hex::encode\<close>) are the argument \<open>hash\<close>, the
  hexadecimal digest of an algorithm on bytes, and the purl crate's rendering is the argument \<open>encoded\<close>.
  The lemmas show that a digest holds lower case hex of the length of its algorithm, that parsing
  inverts the display, and that a plain package URL determines its coordinates.
\<close>

section \<open>Digests\<close>

datatype HashAlgorithm = Md5 | Sha1 | Sha256

fun HashAlgorithm_as_str :: "HashAlgorithm \<Rightarrow> string" where
  "HashAlgorithm_as_str Md5 = ''md5''"
| "HashAlgorithm_as_str Sha1 = ''sha1''"
| "HashAlgorithm_as_str Sha256 = ''sha256''"

definition HashAlgorithm_parse :: "string \<Rightarrow> HashAlgorithm option" where
  "HashAlgorithm_parse raw =
     (let trimmed = trim raw in
      if eq_ignore_ascii_case trimmed ''sha256'' \<or> eq_ignore_ascii_case trimmed ''sha-256'' then Some Sha256
      else if eq_ignore_ascii_case trimmed ''sha1'' \<or> eq_ignore_ascii_case trimmed ''sha-1'' then Some Sha1
      else None)"

fun hex_len :: "HashAlgorithm \<Rightarrow> nat" where
  "hex_len Md5 = 32"
| "hex_len Sha1 = 40"
| "hex_len Sha256 = 64"

datatype DigestError =
    UnsupportedAlgorithm
  | InvalidLength HashAlgorithm
  | InvalidCharacters HashAlgorithm

fun length_message :: "HashAlgorithm \<Rightarrow> string" where
  "length_message Sha256 = ''invalid blob id length''"
| "length_message Sha1 = ''sha1 digest must be 40 hex chars''"
| "length_message Md5 = ''md5 digest must be 32 hex chars''"

fun characters_message :: "HashAlgorithm \<Rightarrow> string" where
  "characters_message Sha256 = ''invalid blob id characters''"
| "characters_message Sha1 = ''sha1 digest must be 40 hex chars''"
| "characters_message Md5 = ''md5 digest must be 32 hex chars''"

definition normalize_hex :: "HashAlgorithm \<Rightarrow> string \<Rightarrow> DigestError + string" where
  "normalize_hex alg hex =
     (if length hex \<noteq> hex_len alg then Inl (InvalidLength alg)
      else if \<not> list_all is_ascii_hexdigit hex then Inl (InvalidCharacters alg)
      else Inr (to_ascii_lowercase hex))"

text \<open>
  The loop of \<^verbatim>\<open>hash_reader\<close> over what the reads of a reader give: an error, or the bytes of a chunk. An
  empty chunk ends the loop, and so does the end of the list.
\<close>

fun hash_reader :: "(string \<Rightarrow> string) \<Rightarrow> string \<Rightarrow> ('e + string) list \<Rightarrow> 'e + string" where
  "hash_reader digest seen [] = Inr (digest seen)"
| "hash_reader digest seen (Inl e # reads) = Inl e"
| "hash_reader digest seen (Inr chunk # reads) =
     (if chunk = [] then Inr (digest seen) else hash_reader digest (seen @ chunk) reads)"

text \<open>One of the three newtypes of \<^verbatim>\<open>define_digest!\<close>, tagged with its algorithm.\<close>

datatype Digest = Digest (algorithm: HashAlgorithm) (hex: string)

definition Digest_from_hex :: "HashAlgorithm \<Rightarrow> string \<Rightarrow> DigestError + Digest" where
  "Digest_from_hex alg h =
     and_then (normalize_hex alg (case alg of Sha256 \<Rightarrow> h | _ \<Rightarrow> trim h)) (\<lambda>d. Inr (Digest alg d))"

definition Digest_parse :: "string \<Rightarrow> string \<Rightarrow> DigestError + Digest" where
  "Digest_parse alg h = and_then (ok_or (HashAlgorithm_parse alg) UnsupportedAlgorithm) (\<lambda>a. Digest_from_hex a h)"

definition as_sha256 :: "Digest \<Rightarrow> string option" where
  "as_sha256 d = (case algorithm d of Sha256 \<Rightarrow> Some (hex d) | _ \<Rightarrow> None)"

definition Digest_of_bytes :: "(HashAlgorithm \<Rightarrow> string \<Rightarrow> string) \<Rightarrow> HashAlgorithm \<Rightarrow> string \<Rightarrow> Digest" where
  "Digest_of_bytes hash alg bytes = Digest alg (hash alg bytes)"

definition Digest_of_reader ::
  "(HashAlgorithm \<Rightarrow> string \<Rightarrow> string) \<Rightarrow> HashAlgorithm \<Rightarrow> ('e + string) list \<Rightarrow> 'e + Digest" where
  "Digest_of_reader hash alg reads =
     and_then (hash_reader (hash alg) [] reads) (\<lambda>h. Inr (Digest alg h))"

definition Digest_display :: "Digest \<Rightarrow> string" where
  "Digest_display d = HashAlgorithm_as_str (algorithm d) @ '':'' @ hex d"

section \<open>Package URLs\<close>

definition is_plain :: "string \<Rightarrow> bool" where
  "is_plain value \<longleftrightarrow> list_all is_id_byte value"

text \<open>The loop over \<^verbatim>\<open>classifier\<close> and \<^verbatim>\<open>type\<close>, with the separator it starts with.\<close>

fun purl_qualifiers :: "char \<Rightarrow> (string \<times> string option) list \<Rightarrow> string" where
  "purl_qualifiers sep [] = []"
| "purl_qualifiers sep ((key, value) # rest) =
     (case value of
        Some v \<Rightarrow> sep # key @ ''='' @ v @ purl_qualifiers CHR ''&'' rest
      | None \<Rightarrow> purl_qualifiers sep rest)"

definition plain_maven_purl ::
  "string \<Rightarrow> string \<Rightarrow> string \<Rightarrow> string option \<Rightarrow> string option \<Rightarrow> string" where
  "plain_maven_purl g a v packaging cl =
     ''pkg:maven/'' @ g @ ''/'' @ a @ ''@'' @ v @
     purl_qualifiers CHR ''?'' [(''classifier'', cl), (''type'', packaging)]"

definition opt_filter :: "('a \<Rightarrow> bool) \<Rightarrow> 'a option \<Rightarrow> 'a option" where
  "opt_filter P m = (case m of Some x \<Rightarrow> if P x then Some x else None | None \<Rightarrow> None)"

definition maven_purl_with_qualifiers ::
  "(string \<Rightarrow> string \<Rightarrow> string \<Rightarrow> string option \<Rightarrow> string option \<Rightarrow> string + string) \<Rightarrow>
   string \<Rightarrow> string \<Rightarrow> string \<Rightarrow> string \<Rightarrow> string option \<Rightarrow> string + string" where
  "maven_purl_with_qualifiers encoded g a v packaging cl =
     (if trim a = [] then Inl (''invalid artifact name '' @ [CHR 0x27, CHR 0x27] @ '': name cannot be empty'')
      else if trim g = [] then Inl (''invalid group '' @ [CHR 0x27, CHR 0x27] @ '': group cannot be empty'')
      else if trim v = [] then Inl (''invalid version '' @ [CHR 0x27, CHR 0x27] @ '': version cannot be empty'')
      else
        (let p = opt_filter (\<lambda>p. p \<noteq> [] \<and> p \<noteq> ''jar'') (Some packaging);
             c = opt_filter (\<lambda>c. c \<noteq> []) cl
         in if list_all is_plain ([g, a, v] @ (case p of Some q \<Rightarrow> [q] | None \<Rightarrow> []) @
                 (case c of Some d \<Rightarrow> [d] | None \<Rightarrow> []))
            then Inr (plain_maven_purl g a v p c)
            else encoded g a v p c))"

definition maven_purl ::
  "(string \<Rightarrow> string \<Rightarrow> string \<Rightarrow> string option \<Rightarrow> string option \<Rightarrow> string + string) \<Rightarrow>
   string \<Rightarrow> string \<Rightarrow> string \<Rightarrow> string + string" where
  "maven_purl encoded g a v = maven_purl_with_qualifiers encoded g a v ''jar'' None"

section \<open>Properties\<close>

lemma graphic_solid: "is_ascii_graphic c \<Longrightarrow> c \<notin> ws_first \<and> c \<notin> ws_last"
  by (auto simp: is_ascii_graphic_def less_eq_char_def ws_first_eval ws_last_eval)

lemma trim_graphic: "list_all is_ascii_graphic s \<Longrightarrow> trim s = s"
  using graphic_solid by (cases "s = []") (auto intro!: trim_solid simp: list_all_iff)

definition lower_hex :: "char \<Rightarrow> bool" where
  "lower_hex c \<longleftrightarrow> is_ascii_digit c \<or> CHR ''a'' \<le> c \<and> c \<le> CHR ''f''"

lemma lower_hex_facts:
  assumes "is_ascii_hexdigit c"
  shows "lower_hex (to_ascii_lower c)"
proof (cases "is_ascii_upper c")
  case True
  with assms have range: "65 \<le> (of_char c :: nat)" "of_char c \<le> (70 :: nat)"
    by (auto simp: ascii_defs less_eq_char_def)
  have low: "of_char (to_ascii_lower c) = (of_char c + 32 :: nat)"
    using True range by (simp add: to_ascii_lower_def)
  show ?thesis using range unfolding lower_hex_def less_eq_char_def low by simp
next
  case False
  then show ?thesis using assms by (auto simp: lower_hex_def to_ascii_lower_def ascii_defs less_eq_char_def)
qed

lemma lower_hex_fixed: "lower_hex c \<Longrightarrow> is_ascii_hexdigit c \<and> to_ascii_lower c = c \<and> is_ascii_graphic c"
  by (auto simp: lower_hex_def to_ascii_lower_def ascii_defs less_eq_char_def)

lemma normalize_hex_facts:
  assumes "normalize_hex alg h = Inr d"
  shows "length d = hex_len alg" "list_all lower_hex d" "normalize_hex alg d = Inr d"
proof -
  have d: "d = map to_ascii_lower h" "length h = hex_len alg" "list_all is_ascii_hexdigit h"
    using assms by (auto simp: normalize_hex_def to_ascii_lowercase_def split: if_splits)
  show len: "length d = hex_len alg" by (simp add: d(1,2))
  show low: "list_all lower_hex d" using d(1,3) lower_hex_facts by (auto simp: list_all_iff)
  have "map to_ascii_lower d = d" using low lower_hex_fixed by (auto simp: list_all_iff intro: map_idI)
  moreover have "list_all is_ascii_hexdigit d" using low lower_hex_fixed by (auto simp: list_all_iff)
  ultimately show "normalize_hex alg d = Inr d"
    by (simp add: normalize_hex_def len to_ascii_lowercase_def)
qed

text \<open>
  Property C35. A digest holds lower case hexadecimal text of its algorithm's length, so equality is equality
  of bytes, and the text it holds reads back as the same digest, with the algorithm given or by its name where
  the name is one a lock file may use.
\<close>

theorem digest_round_trip:
  assumes "Digest_from_hex alg h = Inr d"
  shows "algorithm d = alg \<and> length (hex d) = hex_len alg \<and> list_all lower_hex (hex d) \<and>
    Digest_from_hex alg (hex d) = Inr d \<and>
    (alg \<noteq> Md5 \<longrightarrow> Digest_parse (HashAlgorithm_as_str alg) (hex d) = Inr d)"
proof -
  let ?t = "case alg of Sha256 \<Rightarrow> h | _ \<Rightarrow> trim h"
  obtain e where e: "normalize_hex alg ?t = Inr e" and d: "d = Digest alg e"
    using assms by (auto simp: Digest_from_hex_def and_then_Inr)
  note facts = normalize_hex_facts [OF e]
  have "trim e = e"
    using facts(2) lower_hex_fixed by (intro trim_graphic) (auto simp: list_all_iff)
  then have from_hex: "Digest_from_hex alg (hex d) = Inr d"
    using facts(3) by (cases alg) (simp_all add: Digest_from_hex_def d)
  have "HashAlgorithm_parse ''sha1'' = Some Sha1" "HashAlgorithm_parse ''sha256'' = Some Sha256"
    by code_simp+
  then have "HashAlgorithm_parse (HashAlgorithm_as_str alg) = Some alg" if "alg \<noteq> Md5"
    using that by (cases alg) simp_all
  then show ?thesis using facts(1,2) from_hex by (simp add: d Digest_parse_def)
qed

theorem digest_round_trip_witness:
  "Digest_from_hex Sha1 (replicate 40 CHR ''A'') = Inr (Digest Sha1 (replicate 40 CHR ''a'')) \<and>
   Digest_parse ''sha1'' (replicate 40 CHR ''a'') = Inr (Digest Sha1 (replicate 40 CHR ''a''))"
proof -
  have "Digest_from_hex Sha1 (replicate 40 CHR ''A'') = Inr (Digest Sha1 (replicate 40 CHR ''a''))"
    by code_simp
  with digest_round_trip [OF this] show ?thesis by simp
qed



lemma plain_fresh: "is_plain s \<Longrightarrow> c \<in> set ''/@?&='' \<Longrightarrow> c \<notin> set s"
  by (auto simp: is_plain_def list_all_iff is_id_byte_def ascii_defs)

lemma append_sep_inject:
  assumes "a @ c # b = a' @ c # b'" "c \<notin> set a" "c \<notin> set a'"
  shows "a = a' \<and> b = b'"
proof -
  have "split_once c (a @ c # b) = Some (a, b)" "split_once c (a' @ c # b') = Some (a', b')"
    unfolding split_once_Some using assms(2,3) by blast+
  then have "Some (a, b) = Some (a', b')" unfolding assms(1) by (rule trans [OF sym])
  then show ?thesis by blast
qed

lemma takeWhile_sep: "c \<notin> set a \<Longrightarrow> s = [] \<or> hd s = c \<Longrightarrow> takeWhile (\<lambda>x. x \<noteq> c) (a @ s) = a"
proof (induction a)
  case Nil
  then show ?case by (cases s) auto
qed auto

lemma append_option_inject:
  assumes "a @ s = a' @ s'" and "c \<notin> set a" "c \<notin> set a'" and "s = [] \<or> hd s = c" "s' = [] \<or> hd s' = c"
  shows "a = a' \<and> s = s'"
proof -
  have "a = a'"
    using takeWhile_sep [OF assms(2,4)] takeWhile_sep [OF assms(3,5)] unfolding assms(1)
    by (rule trans [OF sym])
  with assms(1) show ?thesis by simp
qed

lemma qualifiers_start:
  "purl_qualifiers CHR ''?'' [(''classifier'', c), (''type'', p)] = [] \<or>
   hd (purl_qualifiers CHR ''?'' [(''classifier'', c), (''type'', p)]) = CHR ''?''"
  by (cases c; cases p) simp_all

lemma qualifiers_inject:
  assumes "purl_qualifiers CHR ''?'' [(''classifier'', c), (''type'', p)] =
      purl_qualifiers CHR ''?'' [(''classifier'', c'), (''type'', p')]"
    and "\<And>s. c = Some s \<Longrightarrow> is_plain s" "\<And>s. c' = Some s \<Longrightarrow> is_plain s"
  shows "c = c' \<and> p = p'"
proof (cases "c = None \<or> c' = None")
  case True
  with assms(1) show ?thesis by (cases c; cases c'; cases p; cases p') auto
next
  case False
  then obtain s s' where c: "c = Some s" "c' = Some s'" by auto
  let ?rest = "\<lambda>p. purl_qualifiers CHR ''&'' [(''type'', p)]"
  have "s @ ?rest p = s' @ ?rest p'" using assms(1) by (simp add: c)
  moreover have "CHR ''&'' \<notin> set s" "CHR ''&'' \<notin> set s'"
    using plain_fresh assms(2,3) c by auto
  moreover have "?rest q = [] \<or> hd (?rest q) = CHR ''&''" for q by (cases q) simp_all
  ultimately have "s = s' \<and> ?rest p = ?rest p'" by (intro append_option_inject) assumption+
  then show ?thesis by (cases p; cases p') (auto simp: c)
qed

definition shown_qualifiers :: "string \<Rightarrow> string option \<Rightarrow> string option \<times> string option" where
  "shown_qualifiers packaging cl =
     (opt_filter (\<lambda>p. p \<noteq> [] \<and> p \<noteq> ''jar'') (Some packaging), opt_filter (\<lambda>c. c \<noteq> []) cl)"

text \<open>
  Property C40. Two coordinates of plain characters with the same package URL are the same: the URL
  determines the group, the artifact, the version, the classifier, and the packaging, where a missing
  packaging, an empty one and \<^verbatim>\<open>jar\<close> are one. The encoder of other coordinates is never asked.
\<close>

theorem plain_purl_is_injective:
  assumes "list_all is_plain [g, a, v, p, g', a', v', p']"
    and "\<And>s. c = Some s \<or> c' = Some s \<Longrightarrow> is_plain s"
    and "maven_purl_with_qualifiers encoded g a v p c = Inr u"
    and "maven_purl_with_qualifiers encoded g' a' v' p' c' = Inr u"
  shows "g = g' \<and> a = a' \<and> v = v' \<and> shown_qualifiers p c = shown_qualifiers p' c'"
proof -
  have plain: "list_all is_plain [g, a, v]" "list_all is_plain [g', a', v']"
    and opt: "\<And>s. opt_filter P (Some p) = Some s \<Longrightarrow> is_plain s" "\<And>s. opt_filter P (Some p') = Some s \<Longrightarrow> is_plain s"
      "\<And>s. opt_filter Q c = Some s \<Longrightarrow> is_plain s" "\<And>s. opt_filter Q c' = Some s \<Longrightarrow> is_plain s" for P Q
    using assms(1,2) by (auto simp: opt_filter_def split: option.splits if_splits)
  let ?u = "\<lambda>g a v p c. plain_maven_purl g a v (fst (shown_qualifiers p c)) (snd (shown_qualifiers p c))"
  have "u = ?u g a v p c" "u = ?u g' a' v' p' c'"
    using assms(3,4) plain opt
    by (auto simp: maven_purl_with_qualifiers_def shown_qualifiers_def Let_def split: if_splits option.splits)
  then have eq: "?u g a v p c = ?u g' a' v' p' c'" by simp
  let ?q = "\<lambda>p c. purl_qualifiers CHR ''?''
    [(''classifier'', snd (shown_qualifiers p c)), (''type'', fst (shown_qualifiers p c))]"
  have "g = g' \<and> a @ CHR ''@'' # v @ ?q p c = a' @ CHR ''@'' # v' @ ?q p' c'"
    by (rule append_sep_inject [where c = "CHR ''/''"])
      (use eq plain plain_fresh in \<open>auto simp: plain_maven_purl_def\<close>)
  moreover from this have "a = a' \<and> v @ ?q p c = v' @ ?q p' c'"
    by (intro append_sep_inject [where c = "CHR ''@''"]) (use plain plain_fresh in auto)
  moreover from this have "v = v' \<and> ?q p c = ?q p' c'"
    by (intro append_option_inject [where c = "CHR ''?''"]) (use plain plain_fresh qualifiers_start in auto)
  moreover from this have "snd (shown_qualifiers p c) = snd (shown_qualifiers p' c') \<and>
      fst (shown_qualifiers p c) = fst (shown_qualifiers p' c')"
    by (intro qualifiers_inject) (use opt in \<open>auto simp: shown_qualifiers_def\<close>)
  ultimately show ?thesis by (simp add: prod_eq_iff)
qed

theorem plain_purl_is_injective_witness:
  "shown_qualifiers ''jar'' None = shown_qualifiers [] (Some [])"
proof -
  have eqs: "maven_purl_with_qualifiers (\<lambda>_ _ _ _ _. Inl []) ''g'' ''a'' ''1'' ''jar'' None = Inr ''pkg:maven/g/a@1''"
    "maven_purl_with_qualifiers (\<lambda>_ _ _ _ _. Inl []) ''g'' ''a'' ''1'' [] (Some []) = Inr ''pkg:maven/g/a@1''"
    by code_simp+
  have plain: "list_all is_plain [''g'', ''a'', ''1'', ''jar'', ''g'', ''a'', ''1'', []]" by code_simp
  have opt: "None = Some s \<or> Some [] = Some s \<Longrightarrow> is_plain s" for s
    by (simp add: is_plain_def)
  from plain_purl_is_injective [OF plain opt eqs] show ?thesis by blast
qed

end
