(* ===== verification/Maven_Dependency.thy ===== *)
theory Maven_Dependency
  imports Coordinate_Component
begin

text \<open>
  Dependency declarations of a POM: \<^verbatim>\<open>rv-maven-model/src/scope.rs\<close>, \<^verbatim>\<open>rv-maven-model/src/dependency.rs\<close>,
  and the errors of \<^verbatim>\<open>rv-maven-model/src/error.rs\<close>. The values a declaration has in effect, its
  management key, and the two checks of the effective model. The deserializers and the log lines are not
  modelled: a declaration is the record they fill.
\<close>

section \<open>Definitions\<close>

subsection \<open>Scopes\<close>

datatype Scope = Compile | Runtime | Test | Provided | System | Import

fun Scope_display :: "Scope \<Rightarrow> string" where
  "Scope_display Compile = ''compile''"
| "Scope_display Runtime = ''runtime''"
| "Scope_display Test = ''test''"
| "Scope_display Provided = ''provided''"
| "Scope_display System = ''system''"
| "Scope_display Import = ''import''"

text \<open>The strict parse derived from the serialized names.\<close>

definition Scope_from_str :: "string \<Rightarrow> Scope option" where
  "Scope_from_str s =
     find (\<lambda>sc. Scope_display sc = s) [Compile, Runtime, Test, Provided, System, Import]"

definition Scope_parse :: "string \<Rightarrow> Scope" where
  "Scope_parse s = (case Scope_from_str (trim s) of Some sc \<Rightarrow> sc | None \<Rightarrow> Compile)"

subsection \<open>Declarations\<close>

record Exclusion =
  ex_group_id :: string
  ex_artifact_id :: string

record Dependency =
  d_group_id :: string
  d_artifact_id :: string
  d_version :: "string option"
  d_type :: "string option"
  d_classifier :: "string option"
  d_scope :: "string option"
  d_optional :: "string option"
  d_exclusions :: "Exclusion list"
  d_system_path :: "string option"

type_synonym DependencyManagement = "Dependency list"

datatype PomError =
    Deserialize string
  | UnsupportedEncoding string
  | Ebcdic string
  | UnknownEncoding string
  | EncodingMismatch string string
  | UnterminatedDeclaration
  | NotWellFormed string nat
  | Malformed string nat nat
  | MissingField string
  | PropertyCycle "string list"
  | ParentNotFound string string string
  | UnboundedParentRange string string string
  | ImportNotFound string string string
  | UnresolvedImport string string
  | EmptyManagedType string
  | ParentExpression string
  | FetchedParentExpression string string
  | ParentCoordMismatch string
  | InvalidModel string
  | InvalidSystemPath string
  | UnparseablePom string PomError

definition effective_scope :: "Dependency \<Rightarrow> Scope" where
  "effective_scope d =
     (case map_option trim (d_scope d) of
        None \<Rightarrow> Compile
      | Some s \<Rightarrow> if s = [] then Compile else Scope_parse s)"

definition declares_system_scope :: "Dependency \<Rightarrow> bool" where
  "declares_system_scope d \<longleftrightarrow> map_option trim (d_scope d) = Some ''system''"

definition is_import_scope :: "Dependency \<Rightarrow> bool" where
  "is_import_scope d \<longleftrightarrow> map_option trim (d_scope d) = Some ''import''"

definition jar_types :: "string list" where
  "jar_types = [''test-jar'', ''maven-plugin'', ''ejb'', ''ejb-client'', ''java-source'', ''javadoc'']"

definition effective_type :: "Dependency \<Rightarrow> string" where
  "effective_type d =
     (case d_type d of
        Some value \<Rightarrow> if value \<in> set jar_types then ''jar'' else if value \<noteq> [] then value else ''jar''
      | None \<Rightarrow> ''jar'')"

definition implied_classifier :: "string \<Rightarrow> string option" where
  "implied_classifier t =
     (if t = ''test-jar'' then Some ''tests''
      else if t = ''ejb-client'' then Some ''client''
      else if t = ''java-source'' then Some ''sources''
      else if t = ''javadoc'' then Some ''javadoc''
      else None)"

definition effective_classifier :: "Dependency \<Rightarrow> string option" where
  "effective_classifier d =
     (case d_classifier d of
        Some c \<Rightarrow> if c \<noteq> [] then Some c else Option.bind (d_type d) implied_classifier
      | None \<Rightarrow> Option.bind (d_type d) implied_classifier)"

definition management_key :: "Dependency \<Rightarrow> string \<times> string \<times> string \<times> string option" where
  "management_key d =
     (d_group_id d, d_artifact_id d,
      (case d_type d of Some t \<Rightarrow> t | None \<Rightarrow> ''jar''),
      (case d_classifier d of Some c \<Rightarrow> if c \<noteq> [] then Some c else None | None \<Rightarrow> None))"

definition includes_dependencies :: "Dependency \<Rightarrow> bool" where
  "includes_dependencies d \<longleftrightarrow> d_type d \<in> set [Some ''war'', Some ''ear'', Some ''rar'']"

definition effective_optional :: "Dependency \<Rightarrow> bool" where
  "effective_optional d =
     (case d_optional d of Some value \<Rightarrow> eq_ignore_ascii_case value ''true'' | None \<Rightarrow> False)"

definition is_followed_transitively :: "Dependency \<Rightarrow> bool" where
  "is_followed_transitively d \<longleftrightarrow>
     \<not> effective_optional d \<and> effective_scope d \<notin> set [Test, Provided]"

subsection \<open>Checks of the effective model\<close>

definition quote_char :: string where
  "quote_char = [CHR 0x27]"

definition dep_invalid :: "Dependency \<Rightarrow> bool \<Rightarrow> string \<Rightarrow> string \<Rightarrow> PomError" where
  "dep_invalid d managed fld problem =
     (case management_key d of (g, a, t, c) \<Rightarrow>
        InvalidModel (quote_char @ (if managed then ''dependencyManagement.'' else []) @
          ''dependencies.dependency.'' @ fld @ quote_char @ '' for '' @
          bounded g @ '':'' @ bounded a @ '':'' @ bounded t @
          (case c of Some c \<Rightarrow> '':'' @ bounded c | None \<Rightarrow> []) @ '' '' @ problem @ ''.''))"

definition dep_missing :: "Dependency \<Rightarrow> bool \<Rightarrow> string \<Rightarrow> PomError" where
  "dep_missing d managed fld = dep_invalid d managed fld ''is missing''"

fun check_fields :: "Dependency \<Rightarrow> bool \<Rightarrow> (string \<times> string) list \<Rightarrow> PomError + unit" where
  "check_fields d managed [] = Inr ()"
| "check_fields d managed ((fld, value) # rest) =
     (if value = [] then Inl (dep_missing d managed fld)
      else if fld \<noteq> ''type'' \<and> \<not> is_maven_id_text value then
        Inl (dep_invalid d managed fld
          (''with value '' @ quote_char @ bounded value @ quote_char @
           '' does not match a valid id pattern''))
      else check_fields d managed rest)"

definition validate_coordinates :: "bool \<Rightarrow> Dependency \<Rightarrow> PomError + unit" where
  "validate_coordinates managed d =
     (let ty = (if managed then ''jar'' else case d_type d of Some t \<Rightarrow> t | None \<Rightarrow> ''jar'') in
      and_then (check_fields d managed
        [(''artifactId'', d_artifact_id d), (''groupId'', d_group_id d), (''type'', ty)]) (\<lambda>_.
      if \<not> declares_system_scope d \<and>
         (case d_system_path d of Some p \<Rightarrow> p \<noteq> [] | None \<Rightarrow> False) then
        Inl (dep_invalid d managed ''systemPath''
          (''must be omitted. This field may only be specified for a dependency with '' @
           ''system scope''))
      else Inr ()))"

text \<open>
  \<^verbatim>\<open>cfg(unix)\<close> is the argument \<open>unix\<close>.
\<close>

definition is_absolute_path :: "bool \<Rightarrow> string \<Rightarrow> bool" where
  "is_absolute_path unix path \<longleftrightarrow>
     unix \<and> starts_with ''/'' path \<or>
     length path \<ge> 3 \<and> is_ascii_alphabetic (path ! 0) \<and> path ! 1 = CHR '':'' \<and>
       (path ! 2 = CHR 0x5C \<or> path ! 2 = CHR ''/'') \<or>
     length path \<ge> 2 \<and>
       (path ! 0 = CHR 0x5C \<and> path ! 1 = CHR 0x5C \<or> path ! 0 = CHR ''/'' \<and> path ! 1 = CHR ''/'')"

text \<open>\<^verbatim>\<open>str::split\<close> with a non-empty text.\<close>

function split_str :: "string \<Rightarrow> string \<Rightarrow> string list" where
  "split_str p s =
     (case s of
        [] \<Rightarrow> [[]]
      | c # cs \<Rightarrow>
          if p \<noteq> [] \<and> starts_with p s then [] # split_str p (drop (length p) s)
          else (case split_str p cs of w # ws \<Rightarrow> (c # w) # ws | [] \<Rightarrow> [[c]]))"
  by pat_completeness auto
termination
  by (relation "measure (length \<circ> snd)") (auto simp: length_greater_0_conv)

declare split_str.simps [simp del]

definition known_expression :: "string \<Rightarrow> bool" where
  "known_expression rest =
     (case split_once CHR ''}'' rest of
        Some (name, _) \<Rightarrow> list_ex (\<lambda>p. starts_with p name) [''java.'', ''user.'', ''env.'']
      | None \<Rightarrow> False)"

definition keeps_known_values :: "string \<Rightarrow> bool" where
  "keeps_known_values path \<longleftrightarrow>
     contains_sub ''${'' path \<and> list_all known_expression (drop 1 (split_str ''${'' path))"

definition validate_system_scope :: "bool \<Rightarrow> Dependency \<Rightarrow> PomError + unit" where
  "validate_system_scope unix d =
     (if \<not> declares_system_scope d then Inr ()
      else let coord = bounded (d_group_id d) @ '':'' @ bounded (d_artifact_id d) in
        case map_option trim (d_system_path d) of
          None \<Rightarrow> Inl (InvalidSystemPath (''system-scoped dependency '' @ coord @
            '' requires a non-empty <systemPath>''))
        | Some path \<Rightarrow>
            if path = [] then Inl (InvalidSystemPath (''system-scoped dependency '' @ coord @
              '' requires a non-empty <systemPath>''))
            else if keeps_known_values path then Inr ()
            else if \<not> is_absolute_path unix path then
              Inl (InvalidSystemPath (''system-scoped dependency '' @ coord @
                '' requires an absolute <systemPath> (got '' @ quoted path @ '')''))
            else Inr ())"

end
