(* ===== verification/Resolver_Base.thy ===== *)
theory Resolver_Base
  imports Maven_Dependency Coordinates
begin

text \<open>
  What the parts of the resolver share: the failures of \<^verbatim>\<open>rv-resolver/src/error.rs\<close> with the context
  they collect on the way up, repository contexts of \<^verbatim>\<open>rv-resolver/src/context.rs\<close>, the mediation key
  and the exact comparison of coordinates of \<^verbatim>\<open>rv-resolver/src/graph.rs\<close>, the version tokens of
  \<^verbatim>\<open>rv-resolver/src/util.rs\<close>, and the effective project model the solver reads. The errors of other
  crates are kept as the text they show.
\<close>

section \<open>Definitions\<close>

subsection \<open>Failures\<close>

datatype RepoStatus =
    Http nat
  | Timeout
  | Tls
  | Connect
  | Network
  | Auth
  | InvalidMetadata
  | Io
  | OtherStatus

record CredentialTarget =
  ct_id :: "string option"
  ct_url :: string
  ct_sent :: "string option"

record RepoSearchStatus =
  rs_repo_url :: string
  rs_status :: RepoStatus
  rs_refused_by :: "CredentialTarget option"
  rs_served_by :: "string option"

record DroppedRepo =
  dr_url :: string
  dr_declared_by :: string
  dr_releases_enabled :: bool
  dr_snapshots_enabled :: bool
  dr_http_blocked :: bool

record ConflictingPom =
  cp_coord :: string
  cp_first_origin :: string
  cp_second_origin :: string
  cp_first_sha256 :: string
  cp_second_sha256 :: string

datatype ResolveError =
    VersionConflict string string string
  | RelocationCycle string
  | WorkspaceDependencyCycle string
  | ConflictingArtifactBytes string string string string string
  | ConflictingSupportPomBytes ConflictingPom
  | ConflictingCompanionPomBytes ConflictingPom
  | ConflictingPomPackagedBytes string string string
  | ConflictingResolvedPomBytes ConflictingPom
  | ArtifactNotFound string "RepoSearchStatus list" "DroppedRepo list" "string option"
  | NoRepositories
  | MissingVersion string string
  | InvalidVersionRequirement string string
  | UndefinedProperty string string string
  | VersionNotFound string string
  | GraphLimitExceeded string nat string
  | MediationDiverged string nat
  | MissingRepoClient
  | NoSnapshotRepository string string
  | UnrecordableSnapshotBuild string
  | ConfigError string
  | StoreError string
  | RepoError "string option" string "RepoSearchStatus list"
  | Pom PomError
  | LocalPom string PomError
  | VersionErr VersionError
  | IoError string
  | WorkspaceStalled string nat
  | InternalError string
  | Declared string "string list" ResolveError
  | MultipleArtifactErrors ResolveError "ResolveError list"

fun cause :: "ResolveError \<Rightarrow> ResolveError" where
  "cause (Declared module via err) = cause err"
| "cause other = other"

fun declared_via :: "ResolveError \<Rightarrow> string list \<Rightarrow> ResolveError" where
  "declared_via (Declared module via' err) via = Declared module via' err"
| "declared_via err via = Declared [] via err"

definition gav_text :: "Coord \<Rightarrow> string" where
  "gav_text x = group_id x @ '':'' @ artifact_id x @ '':'' @ original (version x)"

fun in_model_of :: "ResolveError \<Rightarrow> Coord \<Rightarrow> ResolveError" where
  "in_model_of (Declared module via err) x =
     (if module = [] then Declared module (gav_text x # via) err else Declared module via err)"
| "in_model_of (Pom err) x = declared_via (Pom err) [gav_text x]"
| "in_model_of other x = other"

fun names_no_dependency :: "ResolveError \<Rightarrow> bool" where
  "names_no_dependency (Declared module via err) = True"
| "names_no_dependency (LocalPom path err) = True"
| "names_no_dependency (ConfigError m) = True"
| "names_no_dependency (StoreError m) = True"
| "names_no_dependency (IoError m) = True"
| "names_no_dependency (InternalError m) = True"
| "names_no_dependency MissingRepoClient = True"
| "names_no_dependency NoRepositories = True"
| "names_no_dependency (WorkspaceStalled modules secs) = True"
| "names_no_dependency (WorkspaceDependencyCycle c) = True"
| "names_no_dependency _ = False"

function in_module :: "ResolveError \<Rightarrow> string \<Rightarrow> ResolveError" where
  "in_module err module =
     (case err of
        Declared named via e \<Rightarrow> if named = [] then Declared module via e else err
      | MultipleArtifactErrors first rest \<Rightarrow>
          MultipleArtifactErrors (in_module first module) (map (\<lambda>e. in_module e module) rest)
      | _ \<Rightarrow> if names_no_dependency err then err else Declared module [] err)"
  by pat_completeness auto
termination
proof (relation "measure (size \<circ> fst)", goal_cases)
  case (3 err module first rest e)
  then have "size e < Suc (size_list size rest)" by (simp add: size_list_estimation' less_Suc_eq_le)
  with 3 show ?case by simp
qed auto

declare in_module.simps [simp del]

text \<open>
  \<^verbatim>\<open>undefined_property\<close>: \<^verbatim>\<open>find\<close> and \<^verbatim>\<open>rfind\<close> give the position of a text, counted in bytes.
\<close>

fun find_str :: "string \<Rightarrow> string \<Rightarrow> nat option" where
  "find_str p [] = (if p = [] then Some 0 else None)"
| "find_str p (c # cs) = (if starts_with p (c # cs) then Some 0 else map_option Suc (find_str p cs))"

fun rfind_str :: "string \<Rightarrow> string \<Rightarrow> nat option" where
  "rfind_str p [] = (if p = [] then Some 0 else None)"
| "rfind_str p (c # cs) =
     (case rfind_str p cs of
        Some i \<Rightarrow> Some (Suc i)
      | None \<Rightarrow> if starts_with p (c # cs) then Some 0 else None)"

definition undefined_property :: "string \<Rightarrow> string option" where
  "undefined_property s =
     Option.bind (find_str ''${'' s) (\<lambda>first.
     Option.bind (find_str ''}'' (drop first s)) (\<lambda>off.
     let stop = first + off in
     Option.bind (rfind_str ''${'' (take stop s)) (\<lambda>i.
     let start = i + 2 in
     Some (take (stop - start) (drop start s)))))"

subsection \<open>Version tokens\<close>

datatype DynamicVersionToken = Release | Integration

fun requirement_label :: "DynamicVersionToken \<Rightarrow> string" where
  "requirement_label Release = ''RELEASE''"
| "requirement_label Integration = ''LATEST''"

definition parse_dynamic_version_token :: "string \<Rightarrow> DynamicVersionToken option" where
  "parse_dynamic_version_token token =
     (if trim token = ''RELEASE'' then Some Release
      else if trim token = ''LATEST'' then Some Integration
      else None)"

subsection \<open>Repository contexts\<close>

datatype UpdatePolicy = Always | Daily | Interval nat | Never

datatype ChecksumPolicy = Warn | Fail | Ignore | Unsupported

text \<open>
  The provenance of a repository is never compared and the solver does not read it. \<open>Repository_Routing\<close> extends the
  record by it.
\<close>

record Repository =
  repo_id :: "string option"
  url :: string
  releases_enabled :: bool
  snapshots_enabled :: bool
  snapshots_update_policy :: UpdatePolicy
  releases_update_policy :: UpdatePolicy
  releases_checksum_policy :: ChecksumPolicy
  snapshots_checksum_policy :: ChecksumPolicy

text \<open>
  A context is a shared list of repositories with its hash, or nothing when there are none. The hash is a
  function of the list, so two contexts are equal when their lists are, and the list stands for both.
\<close>

type_synonym RepoContext = "Repository list"

record RepoRef =
  rr_id :: "string option"
  rr_url :: string

subsection \<open>Coordinates in mediation\<close>

record CoordKey =
  k_group_id :: string
  k_artifact_id :: string
  k_packaging :: "string option"
  k_classifier :: "string option"

definition CoordKey_from :: "Coord \<Rightarrow> CoordKey" where
  "CoordKey_from x =
     \<lparr>k_group_id = group_id x, k_artifact_id = artifact_id x,
      k_packaging = (if packaging x \<in> set [None, Some ''jar'', Some ''maven-plugin''] then None
                     else packaging x),
      k_classifier = classifier x\<rparr>"

definition coord_text ::
  "Coord \<Rightarrow> string \<times> string \<times> string \<times> string option \<times> string option" where
  "coord_text x = (group_id x, artifact_id x, original (version x), packaging x, classifier x)"

definition same_text :: "Coord \<Rightarrow> Coord \<Rightarrow> bool" where
  "same_text a b \<longleftrightarrow> coord_text a = coord_text b"

subsection \<open>Projects\<close>

record Relocation =
  rel_group_id :: "string option"
  rel_artifact_id :: "string option"
  rel_version :: "string option"
  rel_message :: "string option"

text \<open>What the solver reads of an effective project model.\<close>

record Project =
  pr_group_id :: string
  pr_artifact_id :: string
  pr_version :: string
  pr_dependency_management :: DependencyManagement
  pr_dependencies :: "Dependency list"
  pr_relocation :: "Relocation option"

definition Project_new :: "string \<Rightarrow> string \<Rightarrow> string \<Rightarrow> Project" where
  "Project_new g a v =
     \<lparr>pr_group_id = g, pr_artifact_id = a, pr_version = v, pr_dependency_management = [],
      pr_dependencies = [], pr_relocation = None\<rparr>"

end
