(* ===== verification/Solver_Queue.thy ===== *)
theory Solver_Queue
  imports Resolver_Base
begin

text \<open>
  The solver's queue, \<^verbatim>\<open>rv-resolver/src/solver/queue.rs\<close>: the path of a declaration, its place in the
  dependency tree, the queue order and its bounds, and exclusions. An \<^verbatim>\<open>Arc\<close> is the value it holds;
  whether two of them are one allocation is the argument \<open>ptr_eq\<close> of the one comparison that asks.
\<close>

section \<open>Definitions\<close>

definition MAX_QUEUE_SIZE :: nat where
  "MAX_QUEUE_SIZE = 100000"

definition MAX_DEPTH :: nat where
  "MAX_DEPTH = 1000"

definition MAX_DECLARATIONS :: nat where
  "MAX_DECLARATIONS = 1000000"

subsection \<open>Exclusions\<close>

record ExclusionKey =
  xk_group_id :: string
  xk_artifact_id :: string

definition ExclusionKey_from :: "Exclusion \<Rightarrow> ExclusionKey" where
  "ExclusionKey_from ex = \<lparr>xk_group_id = ex_group_id ex, xk_artifact_id = ex_artifact_id ex\<rparr>"

definition excludes :: "ExclusionKey list \<Rightarrow> string \<Rightarrow> string \<Rightarrow> bool" where
  "excludes exclusions g a =
     (let dep_group = trim g; dep_artifact = trim a in
      list_ex (\<lambda>ex.
        let ex_group = trim (xk_group_id ex); ex_artifact = trim (xk_artifact_id ex) in
        (ex_group = ''*'' \<or> ex_group = dep_group) \<and>
        (ex_artifact = ''*'' \<or> ex_artifact = dep_artifact)) exclusions)"

definition is_excluded :: "Dependency \<Rightarrow> ExclusionKey list \<Rightarrow> bool" where
  "is_excluded dep exclusions = excludes exclusions (d_group_id dep) (d_artifact_id dep)"

definition extend_exclusions :: "ExclusionKey list \<Rightarrow> Exclusion list \<Rightarrow> ExclusionKey list" where
  "extend_exclusions parent current =
     (if current = [] then parent else parent @ map ExclusionKey_from current)"

subsection \<open>Paths\<close>

datatype PathNode =
  PathNode (p_key: CoordKey) (p_version: string) (p_parent: "PathNode option")
    (p_repos: RepoContext) (p_depth: nat)

definition PathNode_root :: "Coord \<Rightarrow> PathNode" where
  "PathNode_root coord = PathNode (CoordKey_from coord) (original (version coord)) None [] 0"

definition PathNode_extend :: "PathNode \<Rightarrow> Coord \<Rightarrow> Version \<Rightarrow> RepoContext \<Rightarrow> PathNode" where
  "PathNode_extend parent coord v repos =
     PathNode (CoordKey_from coord) (original v) (Some parent) repos (p_depth parent + 1)"

text \<open>The nodes from this one up to the root: \<^verbatim>\<open>std::iter::successors\<close> along the parents.\<close>

fun successors :: "PathNode \<Rightarrow> PathNode list" where
  "successors (PathNode k v par r d) =
     PathNode k v par r d # (case par of None \<Rightarrow> [] | Some p \<Rightarrow> successors p)"

definition key_text :: "CoordKey \<Rightarrow> string" where
  "key_text k = k_group_id k @ '':'' @ k_artifact_id k"

definition coordinates :: "PathNode \<Rightarrow> string list" where
  "coordinates node = rev (map (\<lambda>n. key_text (p_key n) @ '':'' @ p_version n) (successors node))"

definition below_root :: "PathNode \<Rightarrow> (CoordKey \<times> string) list" where
  "below_root node =
     map (\<lambda>n. (p_key n, p_version n)) (filter (\<lambda>n. p_parent n \<noteq> None) (successors node))"

definition path_keys :: "PathNode \<Rightarrow> CoordKey list" where
  "path_keys node = map fst (below_root node)"

definition path_contains :: "PathNode \<Rightarrow> CoordKey \<Rightarrow> bool" where
  "path_contains node key = list_ex (\<lambda>ancestor. ancestor = key) (path_keys node)"

definition arrow :: string where
  "arrow = '' -> ''"

definition format_cycle :: "PathNode \<Rightarrow> CoordKey \<Rightarrow> string" where
  "format_cycle node next =
     join_with arrow (rev (key_text next # map (\<lambda>n. key_text (p_key n)) (successors node)))"

subsection \<open>Places in the tree\<close>

text \<open>
  \<^verbatim>\<open>TreeOrder(None)\<close> is \<open>RootOrder\<close>, and \<^verbatim>\<open>TreeOrder(Some(node))\<close> is an \<open>OrderNode\<close> with the node's index,
  its stored length and its parent.
\<close>

datatype TreeOrder = RootOrder | OrderNode (o_index: nat) (o_len: nat) (o_parent: TreeOrder)

definition u32_max :: nat where
  "u32_max = 4294967295"

fun order_len :: "TreeOrder \<Rightarrow> nat" where
  "order_len RootOrder = 0"
| "order_len (OrderNode i l p) = l"

definition order_child :: "TreeOrder \<Rightarrow> nat \<Rightarrow> TreeOrder" where
  "order_child o' i = OrderNode (if i \<le> u32_max then i else u32_max) (order_len o' + 1) o'"

fun order_parent :: "TreeOrder \<Rightarrow> TreeOrder" where
  "order_parent RootOrder = RootOrder"
| "order_parent (OrderNode i l p) = p"

text \<open>The two loops that climb from the longer order to the length of the shorter.\<close>

fun climb :: "TreeOrder \<Rightarrow> nat \<Rightarrow> TreeOrder" where
  "climb RootOrder n = RootOrder"
| "climb (OrderNode i l p) n = (if l > n then climb p n else OrderNode i l p)"

text \<open>
  The loop over orders of equal length: the topmost index that differs decides, and \<open>ptr_eq\<close> ends the walk
  at a shared ancestor.
\<close>

fun order_walk ::
  "(TreeOrder \<Rightarrow> TreeOrder \<Rightarrow> bool) \<Rightarrow> TreeOrder \<Rightarrow> TreeOrder \<Rightarrow> ordering \<Rightarrow> ordering" where
  "order_walk ptr_eq (OrderNode i l p) (OrderNode j k q) first =
     (if ptr_eq (OrderNode i l p) (OrderNode j k q) then first
      else order_walk ptr_eq p q (then_ord (cmp_of i j) first))"
| "order_walk ptr_eq _ _ first = first"

definition TreeOrder_cmp ::
  "(TreeOrder \<Rightarrow> TreeOrder \<Rightarrow> bool) \<Rightarrow> TreeOrder \<Rightarrow> TreeOrder \<Rightarrow> ordering" where
  "TreeOrder_cmp ptr_eq x y =
     (let by_len = cmp_of (order_len x) (order_len y);
          a = climb x (order_len y);
          b = climb y (order_len a)
      in then_ord (order_walk ptr_eq a b Equal) by_len)"

text \<open>What the hasher is fed: the indexes from this node up.\<close>

fun order_hash :: "TreeOrder \<Rightarrow> nat list" where
  "order_hash RootOrder = []"
| "order_hash (OrderNode i l p) = i # order_hash p"

text \<open>
  \<^verbatim>\<open>PartialEq\<close> of orders, by \<^verbatim>\<open>cmp\<close>. No result depends on which allocations are shared
  (lemma \<open>TreeOrder_cmp_ptr_eq\<close>), so the rest of the solver compares without sharing.
\<close>

abbreviation order_cmp :: "TreeOrder \<Rightarrow> TreeOrder \<Rightarrow> ordering" where
  "order_cmp \<equiv> TreeOrder_cmp (\<lambda>_ _. False)"

definition order_eq :: "TreeOrder \<Rightarrow> TreeOrder \<Rightarrow> bool" where
  "order_eq x y \<longleftrightarrow> order_cmp x y = Equal"

subsection \<open>The queue\<close>

record ShadowOrigin =
  so_group :: CoordKey
  so_instance :: nat
  so_coord :: Coord

record QueueItem =
  q_parent :: nat
  q_parent_generation :: nat
  q_dependency :: Dependency
  q_managed_scope :: bool
  q_depth :: nat
  q_order :: TreeOrder
  q_declared_at :: nat
  q_exclusions :: "ExclusionKey list"
  q_path :: PathNode
  q_shadow :: "ShadowOrigin option"

type_synonym SortKey = "nat \<times> TreeOrder \<times> nat"

definition item_sort_key :: "QueueItem \<Rightarrow> SortKey" where
  "item_sort_key item = (q_depth item, q_order item, q_declared_at item)"

definition SortKey_cmp :: "SortKey \<Rightarrow> SortKey \<Rightarrow> ordering" where
  "SortKey_cmp x y =
     (case (x, y) of ((d, o1, n), (e, o2, m)) \<Rightarrow>
        then_ord (cmp_of d e) (then_ord (order_cmp o1 o2) (cmp_of n m)))"

text \<open>\<^verbatim>\<open>Ord for QueueItem\<close> compares the other item's key with its own: the greatest item comes first.\<close>

definition QueueItem_cmp :: "QueueItem \<Rightarrow> QueueItem \<Rightarrow> ordering" where
  "QueueItem_cmp a b = SortKey_cmp (item_sort_key b) (item_sort_key a)"

text \<open>
  \<^verbatim>\<open>BinaryHeap\<close>: the items in any order; \<^verbatim>\<open>pop\<close> takes a greatest one out. \<open>max_by\<close> is \<^verbatim>\<open>Iterator::max_by\<close>,
  which keeps the last of several greatest ones, and \<open>min_by\<close> is \<^verbatim>\<open>Iterator::min_by\<close>, which keeps the first of several
  least ones.
\<close>

definition max_by :: "('a \<Rightarrow> 'a \<Rightarrow> ordering) \<Rightarrow> 'a list \<Rightarrow> 'a option" where
  "max_by cmp xs =
     (case xs of
        [] \<Rightarrow> None
      | x # xs \<Rightarrow> Some (fold (\<lambda>y best. if cmp best y = Greater then best else y) xs x))"

definition min_by :: "('a \<Rightarrow> 'a \<Rightarrow> ordering) \<Rightarrow> 'a list \<Rightarrow> 'a option" where
  "min_by cmp xs =
     (case xs of
        [] \<Rightarrow> None
      | x # xs \<Rightarrow> Some (fold (\<lambda>y best. if cmp best y = Greater then y else best) xs x))"

text \<open>\<^verbatim>\<open>slice::sort_by\<close> is stable.\<close>

fun insort_by :: "('a \<Rightarrow> 'a \<Rightarrow> ordering) \<Rightarrow> 'a \<Rightarrow> 'a list \<Rightarrow> 'a list" where
  "insort_by cmp x [] = [x]"
| "insort_by cmp x (y # ys) = (if cmp x y = Greater then y # insort_by cmp x ys else x # y # ys)"

definition sort_by :: "('a \<Rightarrow> 'a \<Rightarrow> ordering) \<Rightarrow> 'a list \<Rightarrow> 'a list" where
  "sort_by cmp xs = foldr (insort_by cmp) xs []"

definition heap_pop :: "QueueItem list \<Rightarrow> (QueueItem \<times> QueueItem list) option" where
  "heap_pop queue =
     (case max_by QueueItem_cmp queue of
        None \<Rightarrow> None
      | Some item \<Rightarrow> Some (item, remove1 item queue))"

definition queue_limit :: "QueueItem list \<Rightarrow> QueueItem \<Rightarrow> (string \<times> nat) option" where
  "queue_limit queue item =
     (if length queue \<ge> MAX_QUEUE_SIZE then Some (''declarations queued at once'', MAX_QUEUE_SIZE)
      else if q_depth item > MAX_DEPTH then Some (''levels of depth'', MAX_DEPTH)
      else if q_declared_at item \<ge> MAX_DECLARATIONS then Some (''declarations'', MAX_DECLARATIONS)
      else None)"

definition push_queue :: "QueueItem list \<Rightarrow> QueueItem \<Rightarrow> ResolveError + QueueItem list" where
  "push_queue queue item =
     (case queue_limit queue item of
        Some (what, limit) \<Rightarrow>
          Inl (GraphLimitExceeded what limit
            (d_group_id (q_dependency item) @ '':'' @ d_artifact_id (q_dependency item)))
      | None \<Rightarrow> Inr (item # queue))"

section \<open>Comparisons that are total on a carrier\<close>

text \<open>
  What the solver relies on when it takes the least or the greatest of some values: the comparison turns
  around with its arguments and is transitive, on the values that occur. It need not separate them.
\<close>

locale cmp_on =
  fixes cmp :: "'a \<Rightarrow> 'a \<Rightarrow> ordering" and carrier :: "'a \<Rightarrow> bool"
  assumes swap: "carrier x \<Longrightarrow> carrier y \<Longrightarrow> cmp y x = reverse (cmp x y)"
    and trans_ge: "carrier x \<Longrightarrow> carrier y \<Longrightarrow> carrier z \<Longrightarrow>
      cmp x y \<noteq> Greater \<Longrightarrow> cmp y z \<noteq> Greater \<Longrightarrow> cmp x z \<noteq> Greater"
begin

lemma less_trans_ge:
  assumes "carrier x" "carrier y" "carrier z" and "cmp x y = Less" and "cmp y z \<noteq> Greater"
  shows "cmp x z = Less"
proof (rule ccontr)
  assume "cmp x z \<noteq> Less"
  with swap [of x z] assms have "cmp z x \<noteq> Greater" by simp
  with trans_ge [of y z x] assms have "cmp y x \<noteq> Greater" by simp
  with swap [of x y] assms show False by simp
qed

lemma ge_trans_less:
  assumes "carrier x" "carrier y" "carrier z" and "cmp x y \<noteq> Greater" and "cmp y z = Less"
  shows "cmp x z = Less"
proof (rule ccontr)
  assume "cmp x z \<noteq> Less"
  with swap [of x z] assms have "cmp z x \<noteq> Greater" by simp
  with trans_ge [of z x y] assms have "cmp z y \<noteq> Greater" by simp
  with swap [of y z] assms show False by simp
qed

lemma equal_trans:
  assumes "carrier x" "carrier y" "carrier z" and "cmp x y = Equal" and "cmp y z = Equal"
  shows "cmp x z = Equal"
proof -
  from trans_ge [of x y z] assms have "cmp x z \<noteq> Greater" by simp
  moreover from trans_ge [of z y x] swap [of y z] swap [of x y] assms have "cmp z x \<noteq> Greater" by simp
  ultimately show ?thesis using swap [of x z] assms by (cases "cmp x z") simp_all
qed

lemma self: "carrier x \<Longrightarrow> cmp x x = Equal"
  using swap [of x x] by (cases "cmp x x") simp_all

text \<open>\<^verbatim>\<open>min_by\<close> is the first of the least, \<^verbatim>\<open>max_by\<close> the last of the greatest.\<close>

lemma min_by_split:
  assumes "min_by cmp xs = Some m" and "list_all carrier xs"
  shows "\<exists>ys zs. xs = ys @ m # zs \<and> (\<forall>y \<in> set ys. cmp m y = Less) \<and> (\<forall>z \<in> set zs. cmp m z \<noteq> Greater)"
  using assms
proof (induction xs arbitrary: m rule: rev_induct)
  case (snoc z xs)
  show ?case
  proof (cases xs)
    case Nil
    with snoc.prems have "m = z" by (simp add: min_by_def)
    with Nil show ?thesis by force
  next
    case (Cons x xs')
    then obtain b where b: "min_by cmp xs = Some b" by (simp add: min_by_def)
    then have m: "m = (if cmp b z = Greater then z else b)"
      using snoc.prems(1) Cons by (auto simp: min_by_def)
    from snoc.IH [OF b] snoc.prems(2) obtain ys zs where split: "xs = ys @ b # zs"
      "\<forall>y \<in> set ys. cmp b y = Less" "\<forall>z \<in> set zs. cmp b z \<noteq> Greater" by auto
    show ?thesis
    proof (cases "cmp b z = Greater")
      case False
      with m split show ?thesis by (intro exI [of _ ys] exI [of _ "zs @ [z]"]) auto
    next
      case True
      have c: "carrier z" "carrier b" "\<forall>y \<in> set xs. carrier y"
        using snoc.prems(2) split(1) by (auto simp: list_all_iff)
      from True swap [of z b] c have zb: "cmp z b = Less" by simp
      have "cmp z y = Less" if "y \<in> set xs" for y
        using that split c less_trans_ge [OF c(1,2) _ zb, of y] zb by auto
      with m True show ?thesis by (intro exI [of _ xs] exI [of _ "[]"]) simp
    qed
  qed
qed (simp add: min_by_def)

lemma min_by_least:
  assumes "min_by cmp xs = Some m" and "list_all carrier xs" and "x \<in> set xs"
  shows "cmp m x \<noteq> Greater"
  using min_by_split [OF assms(1,2)] assms(2,3) self [of m] by (auto simp: list_all_iff)

lemma min_by_least_unique:
  assumes "list_all carrier xs" and "m \<in> set xs" and "\<And>x. x \<in> set xs \<Longrightarrow> x \<noteq> m \<Longrightarrow> cmp m x = Less"
  shows "min_by cmp xs = Some m"
proof -
  from assms(2) obtain b where b: "min_by cmp xs = Some b" by (cases xs) (auto simp: min_by_def)
  have "b \<in> set xs" using min_by_split [OF b assms(1)] by auto
  moreover from min_by_least [OF b assms(1,2)] have "cmp b m \<noteq> Greater" .
  ultimately show ?thesis using b assms(1,2,3) swap [of m b] by (auto simp: list_all_iff)
qed

lemma max_by_split:
  assumes "max_by cmp xs = Some m" and "list_all carrier xs"
  shows "\<exists>ys zs. xs = ys @ m # zs \<and> (\<forall>y \<in> set ys. cmp m y \<noteq> Less) \<and> (\<forall>z \<in> set zs. cmp m z = Greater)"
  using assms
proof (induction xs arbitrary: m rule: rev_induct)
  case (snoc z xs)
  show ?case
  proof (cases xs)
    case Nil
    with snoc.prems have "m = z" by (simp add: max_by_def)
    with Nil show ?thesis by force
  next
    case (Cons x xs')
    then obtain b where b: "max_by cmp xs = Some b" by (simp add: max_by_def)
    then have m: "m = (if cmp b z = Greater then b else z)"
      using snoc.prems(1) Cons by (auto simp: max_by_def)
    from snoc.IH [OF b] snoc.prems(2) obtain ys zs where split: "xs = ys @ b # zs"
      "\<forall>y \<in> set ys. cmp b y \<noteq> Less" "\<forall>z \<in> set zs. cmp b z = Greater" by auto
    show ?thesis
    proof (cases "cmp b z = Greater")
      case True
      with m split show ?thesis by (intro exI [of _ ys] exI [of _ "zs @ [z]"]) auto
    next
      case False
      have c: "carrier z" "carrier b" "\<forall>y \<in> set xs. carrier y"
        using snoc.prems(2) split(1) by (auto simp: list_all_iff)
      have "cmp z y \<noteq> Less" if y: "y \<in> set xs" for y
      proof -
        from y split self [OF c(2)] have "cmp b y \<noteq> Less" by auto
        with swap [of b y] c y have "cmp y b \<noteq> Greater" by simp
        from trans_ge [OF _ c(2,1) this False] c y have "cmp y z \<noteq> Greater" by simp
        with swap [of y z] c y show ?thesis by simp
      qed
      with m False show ?thesis by (intro exI [of _ xs] exI [of _ "[]"]) simp
    qed
  qed
qed (simp add: max_by_def)

lemma max_by_greatest:
  assumes "max_by cmp xs = Some m" and "list_all carrier xs" and "x \<in> set xs"
  shows "cmp m x \<noteq> Less"
  using max_by_split [OF assms(1,2)] assms(2,3) self [of m] by (auto simp: list_all_iff)

lemma flipped: "cmp_on (\<lambda>x y. cmp y x) carrier"
  by unfold_locales (use swap trans_ge in blast)+

end

text \<open>Lexicographic combinations and comparisons of keys keep the contract.\<close>

lemma cmp_on_then:
  assumes "cmp_on c1 P" and "cmp_on c2 P"
  shows "cmp_on (\<lambda>x y. then_ord (c1 x y) (c2 x y)) P"
proof
  fix x y assume "P x" "P y"
  with assms show "then_ord (c1 y x) (c2 y x) = reverse (then_ord (c1 x y) (c2 x y))"
    by (simp add: cmp_on.swap [of c1 P x y] cmp_on.swap [of c2 P x y])
next
  fix x y z
  assume P: "P x" "P y" "P z"
    and le: "then_ord (c1 x y) (c2 x y) \<noteq> Greater" "then_ord (c1 y z) (c2 y z) \<noteq> Greater"
  note t = cmp_on.less_trans_ge [OF assms(1) P] cmp_on.ge_trans_less [OF assms(1) P]
    cmp_on.equal_trans [OF assms(1) P] cmp_on.trans_ge [OF assms(2) P]
  show "then_ord (c1 x z) (c2 x z) \<noteq> Greater"
  proof (cases "c1 x y"; cases "c1 y z")
  qed (use le t in simp_all)
qed

lemma cmp_on_key:
  assumes "cmp_on c Q" and "\<And>x. P x \<Longrightarrow> Q (f x)"
  shows "cmp_on (\<lambda>x y. c (f x) (f y)) P"
proof
  fix x y z
  assume "P x" "P y"
  then show "c (f y) (f x) = reverse (c (f x) (f y))"
    by (intro cmp_on.swap [OF assms(1)] assms(2))
  assume "P z" "c (f x) (f y) \<noteq> Greater" "c (f y) (f z) \<noteq> Greater"
  then show "c (f x) (f z) \<noteq> Greater"
    by (rule cmp_on.trans_ge [OF assms(1), OF assms(2) assms(2) assms(2), OF \<open>P x\<close> \<open>P y\<close>])
qed

lemma cmp_on_of: "cmp_on (\<lambda>x y. cmp_of (f x) (f y)) P"
proof
  fix x y z
  show "cmp_of (f y) (f x) = reverse (cmp_of (f x) (f y))" by (rule cmp_of_swap)
  show "cmp_of (f x) (f y) \<noteq> Greater \<Longrightarrow> cmp_of (f y) (f z) \<noteq> Greater \<Longrightarrow> cmp_of (f x) (f z) \<noteq> Greater"
    by simp
qed

lemma min_by_None [simp]: "min_by cmp xs = None \<longleftrightarrow> xs = []"
  by (cases xs) (auto simp: min_by_def)

lemma max_by_None [simp]: "max_by cmp xs = None \<longleftrightarrow> xs = []"
  by (cases xs) (auto simp: max_by_def)

lemma fold_choose:
  assumes "\<And>y b. f y b = y \<or> f y b = b"
  shows "fold f xs x \<in> insert x (set xs)"
proof (induction xs arbitrary: x)
  case (Cons y xs)
  from Cons [of "f y x"] assms [of y x] show ?case by auto
qed simp

lemma min_by_in:
  assumes "min_by cmp xs = Some x"
  shows "x \<in> set xs"
proof (cases xs)
  case (Cons y ys)
  have "fold (\<lambda>y b. if cmp b y = Greater then y else b) ys y \<in> insert y (set ys)"
    by (rule fold_choose) simp
  with assms Cons show ?thesis by (simp add: min_by_def)
qed (use assms in \<open>simp add: min_by_def\<close>)

lemma max_by_in:
  assumes "max_by cmp xs = Some x"
  shows "x \<in> set xs"
proof (cases xs)
  case (Cons y ys)
  have "fold (\<lambda>y b. if cmp b y = Greater then b else y) ys y \<in> insert y (set ys)"
    by (rule fold_choose) simp
  with assms Cons show ?thesis by (simp add: max_by_def)
qed (use assms in \<open>simp add: max_by_def\<close>)

section \<open>Places in the tree\<close>

text \<open>An order whose stored lengths are those of its path, as \<^verbatim>\<open>child\<close> builds it; and the path, from the root down.\<close>

fun order_ok :: "TreeOrder \<Rightarrow> bool" where
  "order_ok RootOrder = True"
| "order_ok (OrderNode i l p) = (l = Suc (order_len p) \<and> order_ok p)"

definition order_path :: "TreeOrder \<Rightarrow> nat list" where
  "order_path t = rev (order_hash t)"

lemma order_path_simps [simp]:
  "order_path RootOrder = []"
  "order_path (OrderNode i l p) = order_path p @ [i]"
  by (simp_all add: order_path_def)

lemma order_len_path [simp]: "order_ok t \<Longrightarrow> order_len t = length (order_path t)"
  by (induction t) auto

lemma order_ok_child [simp, intro]: "order_ok t \<Longrightarrow> order_ok (order_child t i)"
  by (simp add: order_child_def)

lemma order_ok_parent [simp, intro]: "order_ok t \<Longrightarrow> order_ok (order_parent t)"
  by (cases t) auto

lemma order_path_child [simp]: "order_path (order_child t i) = order_path t @ [min i u32_max]"
  by (simp add: order_child_def min_def)

lemma order_path_parent [simp]: "order_path (order_parent t) = butlast (order_path t)"
  by (cases t) auto

lemma order_ok_inject: "order_ok x \<Longrightarrow> order_ok y \<Longrightarrow> order_path x = order_path y \<Longrightarrow> x = y"
proof (induction x arbitrary: y)
  case RootOrder
  then show ?case by (cases y) auto
next
  case (OrderNode i l p)
  then show ?case by (cases y) auto
qed

lemma climb_path: "order_ok t \<Longrightarrow> order_ok (climb t n) \<and> order_path (climb t n) = take n (order_path t)"
  by (induction t) auto

lemma cmp_of_Cons [simp]: "cmp_of (x # xs) (y # ys) = then_ord (cmp_of x y) (cmp_of xs ys)"
  by (auto simp: cmp_of_def)

lemma cmp_of_snoc:
  "length p = length q \<Longrightarrow> cmp_of (p @ [i]) (q @ [j]) = then_ord (cmp_of p q) (cmp_of i j)"
  for i j :: "'a::linorder"
  by (induction p q rule: list_induct2) simp_all

lemma cmp_of_length:
  "cmp_of xs ys = then_ord (cmp_of (take (min (length xs) (length ys)) xs) (take (min (length xs) (length ys)) ys))
     (cmp_of (length xs) (length ys))" for xs ys :: "'a::linorder list"
proof (induction xs arbitrary: ys)
  case Nil
  show ?case by (cases ys) (simp_all add: cmp_of_def)
next
  case (Cons x xs)
  show ?case
  proof (cases ys)
    case Nil
    then show ?thesis by (simp add: cmp_of_def)
  next
    case (Cons y ys')
    have "cmp_of (Suc m) (Suc n) = cmp_of m n" for m n :: nat by (simp add: cmp_of_def)
    with Cons.IH [of ys'] Cons show ?thesis by simp
  qed
qed

lemma order_walk_path:
  shows "(\<And>a b. ptr_eq a b \<Longrightarrow> a = b) \<Longrightarrow> order_ok x \<Longrightarrow> order_ok y \<Longrightarrow> length (order_path x) = length (order_path y) \<Longrightarrow>
    order_walk ptr_eq x y first = then_ord (cmp_of (order_path x) (order_path y)) first"
proof (induction ptr_eq x y first rule: order_walk.induct)
  case (1 ptr_eq i l p j k q first)
  show ?case
  proof (cases "ptr_eq (OrderNode i l p) (OrderNode j k q)")
    case True
    with 1(2) have "OrderNode i l p = OrderNode j k q" by blast
    with True show ?thesis by simp
  next
    case False
    with 1 show ?thesis by (simp add: cmp_of_snoc)
  qed
qed auto

text \<open>The comparison is the lexicographic order of the paths, whichever ancestors are shared.\<close>

lemma TreeOrder_cmp_path:
  assumes "\<And>a b. ptr_eq a b \<Longrightarrow> a = b" and "order_ok x" and "order_ok y"
  shows "TreeOrder_cmp ptr_eq x y = cmp_of (order_path x) (order_path y)"
proof -
  define n where "n = min (length (order_path x)) (length (order_path y))"
  define a where "a = climb x (order_len y)"
  define b where "b = climb y (order_len a)"
  have a: "order_ok a" "order_path a = take n (order_path x)"
    using climb_path [OF assms(2), of "order_len y"] assms(3) by (auto simp: a_def n_def min_def)
  have b: "order_ok b" "order_path b = take n (order_path y)"
    using climb_path [OF assms(3), of "order_len a"] a by (auto simp: b_def n_def)
  have "TreeOrder_cmp ptr_eq x y =
      then_ord (cmp_of (order_path a) (order_path b)) (cmp_of (length (order_path x)) (length (order_path y)))"
    using order_walk_path [of ptr_eq a b Equal, OF assms(1) a(1) b(1)] a b assms(2,3)
    by (simp add: TreeOrder_cmp_def a_def b_def n_def Let_def)
  with a b cmp_of_length [of "order_path x" "order_path y"] show ?thesis by (simp add: n_def)
qed

lemma TreeOrder_cmp_ptr_eq:
  assumes "\<And>a b. ptr_eq a b \<Longrightarrow> a = b" and "order_ok x" and "order_ok y"
  shows "TreeOrder_cmp ptr_eq x y = order_cmp x y"
  using TreeOrder_cmp_path [of ptr_eq x y, OF assms] TreeOrder_cmp_path [of "\<lambda>_ _. False" x y] assms(2,3)
  by simp

lemma order_cmp_path [simp]:
  "order_ok x \<Longrightarrow> order_ok y \<Longrightarrow> order_cmp x y = cmp_of (order_path x) (order_path y)"
  using TreeOrder_cmp_path [of "\<lambda>_ _. False" x y] by simp

lemma order_eq_iff [simp]: "order_ok x \<Longrightarrow> order_ok y \<Longrightarrow> order_eq x y \<longleftrightarrow> x = y"
  by (auto simp: order_eq_def dest: order_ok_inject)

interpretation tree_order: cmp_on order_cmp order_ok
proof
  fix x y z
  assume "order_ok x" "order_ok y"
  then show "order_cmp y x = reverse (order_cmp x y)" by (simp add: cmp_of_swap [of "order_path x"])
  assume "order_ok z" "order_cmp x y \<noteq> Greater" "order_cmp y z \<noteq> Greater"
  with \<open>order_ok x\<close> \<open>order_ok y\<close> show "order_cmp x z \<noteq> Greater" by simp
qed

section \<open>The queue\<close>

definition key_ok :: "SortKey \<Rightarrow> bool" where
  "key_ok k \<longleftrightarrow> order_ok (fst (snd k))"

lemma SortKey_cmp_then:
  "SortKey_cmp = (\<lambda>x y. then_ord (cmp_of (fst x) (fst y))
     (then_ord (order_cmp (fst (snd x)) (fst (snd y))) (cmp_of (snd (snd x)) (snd (snd y)))))"
  by (auto simp: SortKey_cmp_def fun_eq_iff)

interpretation queue_key: cmp_on SortKey_cmp key_ok
  unfolding SortKey_cmp_then
  by (intro cmp_on_then cmp_on_of cmp_on_key [OF tree_order.cmp_on_axioms]) (simp add: key_ok_def)

definition item_ok :: "QueueItem \<Rightarrow> bool" where
  "item_ok item \<longleftrightarrow> order_ok (q_order item)"

interpretation queue_order: cmp_on QueueItem_cmp item_ok
proof -
  have "cmp_on (\<lambda>a b. (\<lambda>x y. SortKey_cmp y x) (item_sort_key a) (item_sort_key b)) item_ok"
    by (rule cmp_on_key [OF queue_key.flipped]) (simp add: item_ok_def key_ok_def item_sort_key_def)
  then show "cmp_on QueueItem_cmp item_ok" by (simp add: QueueItem_cmp_def [abs_def])
qed

lemma heap_pop_None [simp]: "heap_pop queue = None \<longleftrightarrow> queue = []"
  by (cases queue) (auto simp: heap_pop_def max_by_def)

lemma heap_pop_Nil [simp]: "heap_pop [] = None"
  by simp

lemma heap_pop_mset:
  "heap_pop queue = Some (item, rest) \<Longrightarrow> mset queue = add_mset item (mset rest)"
  by (auto simp: heap_pop_def dest!: max_by_in split: option.splits)

lemma heap_pop_set:
  "heap_pop queue = Some (item, rest) \<Longrightarrow> set queue = insert item (set rest)"
  using heap_pop_mset [of queue item rest] by (metis set_mset_add_mset_insert set_mset_mset)

lemma heap_pop_first:
  assumes "heap_pop queue = Some (item, rest)" and "list_all item_ok queue" and "other \<in> set queue"
  shows "SortKey_cmp (item_sort_key item) (item_sort_key other) \<noteq> Greater"
proof -
  from assms(1) have "max_by QueueItem_cmp queue = Some item" by (auto simp: heap_pop_def split: option.splits)
  from queue_order.max_by_greatest [OF this assms(2,3)]
  have "SortKey_cmp (item_sort_key other) (item_sort_key item) \<noteq> Less" by (simp add: QueueItem_cmp_def)
  moreover have "key_ok (item_sort_key item)" "key_ok (item_sort_key other)"
    using assms heap_pop_set [OF assms(1)] by (auto simp: list_all_iff item_ok_def key_ok_def item_sort_key_def)
  ultimately show ?thesis using queue_key.swap [of "item_sort_key item" "item_sort_key other"] by simp
qed

lemma heap_pop_least:
  assumes "heap_pop queue = Some (item, rest)" and "list_all item_ok queue" and "distinct (map q_declared_at queue)"
    and other: "other \<in> set rest"
  shows "(q_depth item, order_path (q_order item), q_declared_at item) <
    (q_depth other, order_path (q_order other), q_declared_at other)"
proof -
  have "distinct (map q_declared_at (item # rest))"
    using assms(3) heap_pop_mset [OF assms(1)] by (metis mset.simps(2) mset_eq_imp_distinct_iff mset_map)
  with other have "q_declared_at item \<noteq> q_declared_at other" by force
  moreover have "order_ok (q_order item)" "order_ok (q_order other)"
    using assms(2) other heap_pop_set [OF assms(1)] by (auto simp: list_all_iff item_ok_def)
  moreover have "other \<in> set queue" using other heap_pop_set [OF assms(1)] by simp
  ultimately show ?thesis
    using heap_pop_first [OF assms(1,2), of other]
    by (auto simp: SortKey_cmp_def item_sort_key_def cmp_of_def split: if_splits)
qed

section \<open>Properties\<close>

lemma order_path_eq: "order_path x = order_path y \<longleftrightarrow> order_hash x = order_hash y"
  by (simp add: order_path_def)

text \<open>
  Property C20. The order of declarations is the depth-first order of the dependency tree: comparing two orders climbs
  to equal lengths and stops early at shared ancestors, and still gives the lexicographic order of the index
  paths from the root, for any sound test of sharing. Orders are equal exactly when they feed the hasher the same
  indexes, and a child's path is its parent's with the child's index, capped at \<^verbatim>\<open>u32::MAX\<close>.
\<close>

theorem tree_order_is_depth_first:
  assumes "\<And>a b. ptr_eq a b \<Longrightarrow> a = b" and "order_ok x" and "order_ok y"
  shows "TreeOrder_cmp ptr_eq x y = cmp_of (order_path x) (order_path y) \<and>
    (TreeOrder_cmp ptr_eq x y = Equal \<longleftrightarrow> order_hash x = order_hash y) \<and>
    order_ok (order_child x i) \<and> order_path (order_child x i) = order_path x @ [min i u32_max]"
  using TreeOrder_cmp_path [of ptr_eq x y, OF assms] assms(2,3) by (simp add: order_path_eq)

theorem tree_order_is_depth_first_witness:
  "TreeOrder_cmp (=) (order_child (order_child RootOrder 0) 5) (order_child RootOrder 1) = Less \<and>
   TreeOrder_cmp (=) (order_child (order_child RootOrder 0) 5) (order_child RootOrder 0) = Greater"
  using tree_order_is_depth_first [of "(=)" "order_child (order_child RootOrder 0) 5" "order_child RootOrder 1" 0]
    tree_order_is_depth_first [of "(=)" "order_child (order_child RootOrder 0) 5" "order_child RootOrder 0" 0]
  by (simp add: u32_max_def cmp_of_def)

text \<open>
  The queue hands out its items breadth first, then in depth-first order: the item that is popped comes
  strictly before every item left, by depth, then place in the tree, then declaration; nothing is lost or repeated.
\<close>

theorem queue_hands_out_breadth_first:
  assumes "list_all item_ok queue" and "distinct (map q_declared_at queue)"
    and "heap_pop queue = Some (item, rest)"
  shows "mset queue = add_mset item (mset rest) \<and>
    (\<forall>other \<in> set rest.
      (q_depth item, order_path (q_order item), q_declared_at item) <
      (q_depth other, order_path (q_order other), q_declared_at other))"
  using heap_pop_mset [OF assms(3)] heap_pop_least [OF assms(3,1,2)] by blast

text \<open>Items that differ only in what the order reads, for examples.\<close>

definition item_at :: "nat \<Rightarrow> TreeOrder \<Rightarrow> nat \<Rightarrow> QueueItem" where
  "item_at depth ord at' =
     \<lparr>q_parent = 0, q_parent_generation = 1,
      q_dependency = \<lparr>d_group_id = ''g'', d_artifact_id = ''a'', d_version = None, d_type = None,
        d_classifier = None, d_scope = None, d_optional = None, d_exclusions = [], d_system_path = None\<rparr>,
      q_managed_scope = False, q_depth = depth, q_order = ord, q_declared_at = at', q_exclusions = [],
      q_path = PathNode \<lparr>k_group_id = ''g'', k_artifact_id = ''r'', k_packaging = None, k_classifier = None\<rparr>
        ''1'' None [] 0, q_shadow = None\<rparr>"

lemma item_at_simps [simp]:
  "q_depth (item_at d t n) = d" "q_order (item_at d t n) = t" "q_declared_at (item_at d t n) = n"
  "item_at d t n = item_at d' t' n' \<longleftrightarrow> d = d' \<and> t = t' \<and> n = n'"
  by (simp_all add: item_at_def)

theorem queue_hands_out_breadth_first_witness:
  "\<exists>rest. heap_pop [item_at 2 (order_child (order_child RootOrder 0) 0) 2, item_at 1 (order_child RootOrder 1) 1]
       = Some (item_at 1 (order_child RootOrder 1) 1, rest) \<and>
     (1, order_path (order_child RootOrder 1), 1) <
     (2::nat, order_path (order_child (order_child RootOrder 0) 0), 2::nat)"
proof -
  let ?i = "item_at 1 (order_child RootOrder 1) 1" and ?j = "item_at 2 (order_child (order_child RootOrder 0) 0) 2"
  have pop: "heap_pop [?j, ?i] = Some (?i, [?j])"
    by (simp add: heap_pop_def max_by_def QueueItem_cmp_def SortKey_cmp_def item_sort_key_def cmp_of_def)
  with queue_hands_out_breadth_first [of "[?j, ?i]" ?i "[?j]"] show ?thesis
    by (simp add: item_ok_def)
qed

end
