(* ===== verification/Dependency_Graph.thy ===== *)
theory Dependency_Graph
  imports Solver_Queue "HOL-Library.AList"
begin

text \<open>
  The resolved graph and the scopes of its nodes, \<^verbatim>\<open>rv-resolver/src/graph.rs\<close>. The graph is a list of nodes,
  by index, and a list of edges. The order in which petgraph lists the edges at a node is the argument
  \<open>visit\<close> of the operations whose result can depend on it; \<open>lists_all\<close> states that it drops and adds none.
\<close>

section \<open>Definitions\<close>

subsection \<open>Nodes and edges\<close>

definition MAX_GATHER_STATES :: nat where
  "MAX_GATHER_STATES = 100000"

definition RepoRef_of :: "Repository \<Rightarrow> RepoRef" where
  "RepoRef_of repo = \<lparr>rr_id = repo_id repo, rr_url = url repo\<rparr>"

definition RepoRef_is :: "RepoRef \<Rightarrow> Repository \<Rightarrow> bool" where
  "RepoRef_is r repo \<longleftrightarrow> rr_url r = url repo \<and> rr_id r = repo_id repo"

type_synonym NodeIndex = nat

record Node =
  n_coord :: Coord
  n_scope :: Scope
  n_repo_url :: "string option"
  n_build_repo :: "RepoRef option"
  n_repos :: RepoContext
  n_checksum :: "string option"
  n_workspace_module :: "string option"
  n_local :: bool
  n_system_path :: "string option"
  n_winner_parent :: "NodeIndex option"

record Edge =
  e_scope :: Scope
  e_managed_scope :: bool
  e_declared :: "nat option"
  e_optional :: bool
  e_exclusions :: "Exclusion list"
  e_requested :: "string option"

definition scope_below :: "Edge \<Rightarrow> Scope \<Rightarrow> Scope" where
  "scope_below e parent =
     (if e_managed_scope e then e_scope e
      else if e_scope e \<in> set [System, Test] \<or> parent = Compile then e_scope e
      else if parent \<in> set [Test, Runtime] then parent
      else if parent \<in> set [Provided, System] then Provided
      else Runtime)"

fun width :: "Scope \<Rightarrow> nat" where
  "width Compile = 4"
| "width Runtime = 3"
| "width Provided = 2"
| "width Test = 1"
| "width System = 0"
| "width Import = 0"

type_synonym EdgeRef = "NodeIndex \<times> NodeIndex \<times> Edge"

abbreviation edge_source :: "EdgeRef \<Rightarrow> NodeIndex" where
  "edge_source \<equiv> fst"

abbreviation edge_target :: "EdgeRef \<Rightarrow> NodeIndex" where
  "edge_target r \<equiv> fst (snd r)"

abbreviation edge_weight :: "EdgeRef \<Rightarrow> Edge" where
  "edge_weight r \<equiv> snd (snd r)"

record Graph =
  g_nodes :: "Node list"
  g_edges :: "EdgeRef list"
  g_root :: NodeIndex

type_synonym visit_order = "EdgeRef list \<Rightarrow> EdgeRef list"

definition lists_all :: "visit_order \<Rightarrow> bool" where
  "lists_all visit \<longleftrightarrow> (\<forall>es. set (visit es) = set es \<and> length (visit es) = length es)"

subsection \<open>The graph's operations\<close>

definition Graph_new :: "Node \<Rightarrow> Graph" where
  "Graph_new root_node = \<lparr>g_nodes = [root_node], g_edges = [], g_root = 0\<rparr>"

definition graph_node :: "Graph \<Rightarrow> NodeIndex \<Rightarrow> Node option" where
  "graph_node g idx = (if idx < length (g_nodes g) then Some (g_nodes g ! idx) else None)"

definition node_count :: "Graph \<Rightarrow> nat" where
  "node_count g = length (g_nodes g)"

definition outgoing :: "Graph \<Rightarrow> NodeIndex \<Rightarrow> EdgeRef list" where
  "outgoing g n = filter (\<lambda>r. edge_source r = n) (g_edges g)"

definition incoming :: "Graph \<Rightarrow> NodeIndex \<Rightarrow> EdgeRef list" where
  "incoming g n = filter (\<lambda>r. edge_target r = n) (g_edges g)"

definition insert_node :: "Graph \<Rightarrow> Node \<Rightarrow> NodeIndex \<times> Graph" where
  "insert_node g n = (length (g_nodes g), g\<lparr>g_nodes := g_nodes g @ [n]\<rparr>)"

definition add_edge :: "Graph \<Rightarrow> NodeIndex \<Rightarrow> NodeIndex \<Rightarrow> Edge \<Rightarrow> Graph" where
  "add_edge g from' to e =
     (if (from', to, e) \<in> set (g_edges g) then g else g\<lparr>g_edges := g_edges g @ [(from', to, e)]\<rparr>)"

definition remove_edge :: "Graph \<Rightarrow> NodeIndex \<Rightarrow> NodeIndex \<Rightarrow> Edge \<Rightarrow> Graph" where
  "remove_edge g from' to e = g\<lparr>g_edges := remove1 (from', to, e) (g_edges g)\<rparr>"

definition clear_outgoing :: "Graph \<Rightarrow> NodeIndex \<Rightarrow> Graph" where
  "clear_outgoing g n = g\<lparr>g_edges := filter (\<lambda>r. edge_source r \<noteq> n) (g_edges g)\<rparr>"

definition clear_incoming :: "Graph \<Rightarrow> NodeIndex \<Rightarrow> Graph" where
  "clear_incoming g n = g\<lparr>g_edges := filter (\<lambda>r. edge_target r \<noteq> n) (g_edges g)\<rparr>"

text \<open>
  Edges are taken out one at a time and added again at the new target. The loop ends because the two nodes
  differ, which the walk's invariant gives for its one call.
\<close>

definition retarget_incoming :: "Graph \<Rightarrow> NodeIndex \<Rightarrow> NodeIndex \<Rightarrow> Graph" where
  "retarget_incoming g from' to =
     fold (\<lambda>r g'. add_edge (remove_edge g' (edge_source r) (edge_target r) (edge_weight r)) (edge_source r) to (edge_weight r))
       (incoming g from') g"

text \<open>\<^verbatim>\<open>Option<u64>\<close> compares \<^verbatim>\<open>None\<close> first.\<close>

fun opt_le :: "nat option \<Rightarrow> nat option \<Rightarrow> bool" where
  "opt_le None _ = True"
| "opt_le (Some _) None = False"
| "opt_le (Some a) (Some b) = (a \<le> b)"

definition direct_edges :: "visit_order \<Rightarrow> Graph \<Rightarrow> (NodeIndex \<times> Edge) list" where
  "direct_edges visit g =
     fold (\<lambda>r first.
       case map_of first (edge_target r) of
         Some current \<Rightarrow>
           if opt_le (e_declared (edge_weight r)) (e_declared current)
           then AList.update (edge_target r) (edge_weight r) first else first
       | None \<Rightarrow> AList.update (edge_target r) (edge_weight r) first)
     (visit (outgoing g (g_root g))) []"

text \<open>The nodes petgraph's breadth-first walk from the root visits.\<close>

fun reach_rounds :: "nat \<Rightarrow> Graph \<Rightarrow> NodeIndex list \<Rightarrow> NodeIndex list" where
  "reach_rounds 0 g seen = seen"
| "reach_rounds (Suc n) g seen =
     (case filter (\<lambda>r. edge_source r \<in> set seen \<and> edge_target r \<notin> set seen) (g_edges g) of
        [] \<Rightarrow> seen
      | r # _ \<Rightarrow> reach_rounds n g (seen @ [edge_target r]))"

definition reachable :: "Graph \<Rightarrow> NodeIndex list" where
  "reachable g = reach_rounds (length (g_edges g)) g [g_root g]"

definition via_parent :: "visit_order \<Rightarrow> Graph \<Rightarrow> NodeIndex \<Rightarrow> NodeIndex option" where
  "via_parent visit g idx =
     (case Option.bind (graph_node g idx) n_winner_parent of
        Some p \<Rightarrow> Some p
      | None \<Rightarrow> find (\<lambda>p. p \<in> set (reachable g)) (map edge_source (visit (incoming g idx))))"

function via_loop :: "visit_order \<Rightarrow> Graph \<Rightarrow> NodeIndex option \<Rightarrow> string list \<Rightarrow> string list" where
  "via_loop visit g at' via =
     (case at' of
        None \<Rightarrow> via
      | Some n \<Rightarrow>
          if n = g_root g \<or> length via \<ge> node_count g then via
          else via_loop visit g (via_parent visit g n)
                 (via @ [case graph_node g n of Some nd \<Rightarrow> gav_text (n_coord nd) | None \<Rightarrow> []]))"
  by pat_completeness auto
termination
  by (relation "measure (\<lambda>(visit, g, at', via). node_count g - length via)") auto

declare via_loop.simps [simp del]

definition graph_declared_via :: "visit_order \<Rightarrow> Graph \<Rightarrow> NodeIndex \<Rightarrow> string list" where
  "graph_declared_via visit g idx = rev (via_loop visit g (via_parent visit g idx) [])"

end
