(* ===== verification/Scope_Selection.thy ===== *)
theory Scope_Selection
  imports Dependency_Graph
begin

text \<open>
  \<^verbatim>\<open>Graph::select_scopes\<close> of \<^verbatim>\<open>rv-resolver/src/graph.rs\<close> with the conflict order and the cycles it works
  on. Every loop is a recursive function with a termination proof.
\<close>

section \<open>Definitions\<close>

text \<open>Indexing with a value for an index out of range, where the code would panic.\<close>

definition at_or :: "'a \<Rightarrow> 'a list \<Rightarrow> nat \<Rightarrow> 'a" where
  "at_or d xs i = (if i < length xs then xs ! i else d)"

definition usize_max :: nat where
  "usize_max = 18446744073709551615"

subsection \<open>The conflict order\<close>

record ConflictOrder =
  co_order :: "NodeIndex list"
  co_depth :: "nat list"
  co_children :: "NodeIndex list list"
  co_in_degree :: "nat list"

text \<open>\<^verbatim>\<open>pull_up\<close>: the stack of nodes to lift. A node that is lifted ends at a smaller depth.\<close>

lemma sum_list_update_less:
  "i < length xs \<Longrightarrow> (v::nat) < xs ! i \<Longrightarrow> sum_list (xs[i := v]) < sum_list xs"
proof (induction xs arbitrary: i)
  case (Cons x xs)
  then show ?case by (cases i) auto
qed simp

function pull_up_loop :: "NodeIndex list list \<Rightarrow> nat list \<Rightarrow> (NodeIndex \<times> nat) list \<Rightarrow> nat list" where
  "pull_up_loop children depths lift =
     (case lift of
        [] \<Rightarrow> depths
      | (n, d) # rest \<Rightarrow>
          if n < length depths \<and> d < depths ! n
          then pull_up_loop children (depths[n := d])
                 (rev (map (\<lambda>child. (child, d + 1)) (at_or [] children n)) @ rest)
          else pull_up_loop children depths rest)"
  by pat_completeness auto
termination
  by (relation "measures [\<lambda>(children, depths, lift). sum_list depths, \<lambda>(children, depths, lift). length lift]")
    (auto simp: sum_list_update_less)

declare pull_up_loop.simps [simp del]

definition pull_up :: "ConflictOrder \<Rightarrow> NodeIndex \<Rightarrow> nat \<Rightarrow> ConflictOrder" where
  "pull_up co n d = co\<lparr>co_depth := pull_up_loop (co_children co) (co_depth co) [(n, d)]\<rparr>"

text \<open>
  One child of a node on the stack of the depth-first walk: it gets a number or is pulled up, and it joins
  the node's children once. Numbers are \<^verbatim>\<open>usize::MAX\<close> for a node not found yet.
\<close>

definition visit_child ::
  "NodeIndex \<Rightarrow> NodeIndex \<Rightarrow> nat \<Rightarrow> NodeIndex \<Rightarrow> nat list \<times> ConflictOrder \<Rightarrow> nat list \<times> ConflictOrder" where
  "visit_child root_ix n d child st =
     (case st of (number, co) \<Rightarrow>
        let (number, co) =
          (if at_or usize_max number child = usize_max
           then (number[child := length (co_order co)],
                 co\<lparr>co_order := co_order co @ [child], co_depth := (co_depth co)[child := d]\<rparr>)
           else (number, pull_up co child d));
          co = (if n \<noteq> root_ix \<and> child \<notin> set (at_or [] (co_children co) n)
                then co\<lparr>co_children := (co_children co)[n := at_or [] (co_children co) n @ [child]],
                        co_in_degree := (co_in_degree co)[child := at_or 0 (co_in_degree co) child + 1]\<rparr>
                else co)
        in (number, co))"

definition neighbors :: "visit_order \<Rightarrow> Graph \<Rightarrow> NodeIndex \<Rightarrow> NodeIndex list" where
  "neighbors visit g n = map edge_target (visit (outgoing g n))"

text \<open>
  The stack holds a node, its depth and the neighbours left, of which the last is taken next.
\<close>

definition unvisited :: "bool list \<Rightarrow> nat" where
  "unvisited visited = length (filter Not visited)"

lemma unvisited_update:
  "i < length visited \<Longrightarrow> \<not> visited ! i \<Longrightarrow> unvisited (visited[i := True]) < unvisited visited"
proof (induction visited arbitrary: i)
  case (Cons b bs)
  then show ?case by (cases i) (auto simp: unvisited_def)
qed simp

function conflict_walk ::
  "visit_order \<Rightarrow> Graph \<Rightarrow> bool list \<Rightarrow> (NodeIndex \<times> nat \<times> NodeIndex list) list \<Rightarrow>
   nat list \<times> ConflictOrder \<Rightarrow> nat list \<times> ConflictOrder" where
  "conflict_walk visit g visited stack st =
     (case stack of
        [] \<Rightarrow> st
      | (n, d, next) # below \<Rightarrow>
          if next = [] then conflict_walk visit g visited below st
          else let child = last next;
                   st = visit_child (g_root g) n (d + 1) child st;
                   stack = (n, d, butlast next) # below
               in if child < length visited \<and> \<not> visited ! child
                  then conflict_walk visit g (visited[child := True])
                         ((child, d + 1, neighbors visit g child) # stack) st
                  else conflict_walk visit g visited stack st)"
  by pat_completeness auto
termination
  by (relation "measures [\<lambda>(visit, g, visited, stack, st). unvisited visited,
                          \<lambda>(visit, g, visited, stack, st). \<Sum>(n, d, next)\<leftarrow>stack. Suc (length next)]")
    (auto simp: unvisited_update)

declare conflict_walk.simps [simp del]

text \<open>The number of buckets of Java's \<^verbatim>\<open>HashSet\<close>, and the bucket of a number.\<close>

function buckets_for :: "nat \<Rightarrow> nat \<Rightarrow> nat" where
  "buckets_for n buckets =
     (if n * 4 > buckets * 3 \<and> buckets > 0 then buckets_for n (buckets * 2) else buckets)"
  by pat_completeness auto
termination
  by (relation "measure (\<lambda>(n, buckets). n * 4 - buckets * 3)") auto

declare buckets_for.simps [simp del]

definition bucket_of :: "nat \<Rightarrow> nat \<Rightarrow> nat" where
  "bucket_of buckets number = and (xor number (drop_bit 16 number)) (buckets - 1)"

definition ConflictOrder_of :: "visit_order \<Rightarrow> Graph \<Rightarrow> ConflictOrder" where
  "ConflictOrder_of visit g =
     (let count = node_count g;
          start = \<lparr>co_order = [], co_depth = replicate count usize_max,
                   co_children = replicate count [], co_in_degree = replicate count 0\<rparr>;
          (number, co) =
            conflict_walk visit g ((replicate count False)[g_root g := True])
              [(g_root g, 0, neighbors visit g (g_root g))] (replicate count usize_max, start)
      in co\<lparr>co_children := map (\<lambda>children.
           sort_key (\<lambda>child. bucket_of (buckets_for (length children) 16) (at_or usize_max number child))
             children) (co_children co)\<rparr>)"

subsection \<open>Cycles\<close>

record CycleWalk =
  cw_cycles :: "NodeIndex list list"
  cw_visited :: "bool list"
  cw_path :: "NodeIndex list"
  cw_frames :: "(NodeIndex \<times> nat) list"

text \<open>
  \<^verbatim>\<open>on_path\<close> maps each node of the path to its position; the model searches the path for the node.
\<close>

definition cycle_enter :: "NodeIndex \<Rightarrow> CycleWalk \<Rightarrow> CycleWalk" where
  "cycle_enter n cw =
     (case find_pos (\<lambda>m. m = n) (cw_path cw) of
        Some at' \<Rightarrow> cw\<lparr>cw_cycles := cw_cycles cw @ [drop at' (cw_path cw)]\<rparr>
      | None \<Rightarrow>
          if n < length (cw_visited cw) \<and> \<not> cw_visited cw ! n
          then cw\<lparr>cw_visited := (cw_visited cw)[n := True], cw_path := cw_path cw @ [n],
                  cw_frames := (n, 0) # cw_frames cw\<rparr>
          else cw)"

definition frame_work :: "NodeIndex list list \<Rightarrow> (NodeIndex \<times> nat) list \<Rightarrow> nat" where
  "frame_work children frames = (\<Sum>(n, next)\<leftarrow>frames. Suc (length (at_or [] children n) - next))"

function cycle_loop :: "NodeIndex list list \<Rightarrow> NodeIndex option \<Rightarrow> CycleWalk \<Rightarrow> CycleWalk" where
  "cycle_loop children enter cw =
     (let cw = (case enter of Some n \<Rightarrow> cycle_enter n cw | None \<Rightarrow> cw) in
      case cw_frames cw of
        [] \<Rightarrow> cw
      | (n, next) # frames \<Rightarrow>
          if next < length (at_or [] children n)
          then cycle_loop children (Some (at_or [] children n ! next))
                 (cw\<lparr>cw_frames := (n, Suc next) # frames\<rparr>)
          else cycle_loop children None (cw\<lparr>cw_path := butlast (cw_path cw), cw_frames := frames\<rparr>))"
  by pat_completeness auto
termination
proof (relation "measures [\<lambda>(children, enter, cw). unvisited (cw_visited cw),
                           \<lambda>(children, enter, cw). frame_work children (cw_frames cw)]", goal_cases)
  case 1
  show ?case by simp
next
  case (2 children enter cw)
  then show ?case
    by (cases enter) (auto simp: cycle_enter_def frame_work_def unvisited_update split: option.splits if_splits)
next
  case (3 children enter cw)
  then show ?case
    by (cases enter) (auto simp: cycle_enter_def frame_work_def unvisited_update split: option.splits if_splits)
qed

declare cycle_loop.simps [simp del]

definition cycles :: "ConflictOrder \<Rightarrow> NodeIndex list list" where
  "cycles co =
     cw_cycles (fold (\<lambda>start cw. cycle_loop (co_children co) (Some start) cw) (co_order co)
       \<lparr>cw_cycles = [], cw_visited = replicate (length (co_depth co)) False, cw_path = [],
        cw_frames = []\<rparr>)"

subsection \<open>Picking a scope\<close>

definition offer :: "Scope \<Rightarrow> Scope option \<Rightarrow> Scope option" where
  "offer scope widest =
     (if scope \<noteq> System \<and> (case widest of None \<Rightarrow> True | Some current \<Rightarrow> width scope > width current)
      then Some scope else widest)"

definition names_gathered :: "Graph \<Rightarrow> NodeIndex \<Rightarrow> bool list \<Rightarrow> ExclusionKey \<Rightarrow> bool" where
  "names_gathered g n ancestors exclusion =
     list_ex (\<lambda>idx.
       (idx = n \<or> at_or False ancestors idx) \<and>
       (case graph_node g idx of
          Some nd \<Rightarrow> excludes [exclusion] (group_id (n_coord nd)) (artifact_id (n_coord nd))
        | None \<Rightarrow> False))
     [0..<node_count g]"

definition gathered_exclusions ::
  "ExclusionKey list \<Rightarrow> Exclusion list \<Rightarrow> (ExclusionKey \<Rightarrow> bool) \<Rightarrow> ExclusionKey list" where
  "gathered_exclusions parent added names =
     (let merged = fold (\<lambda>exclusion merged.
            if exclusion \<notin> set merged \<and> names exclusion then merged @ [exclusion] else merged)
            (map ExclusionKey_from added) parent
      in if length merged = length parent then parent
         else sort_key (\<lambda>k. (xk_group_id k, xk_artifact_id k)) merged)"

record Picks =
  picked :: "Scope option list"
  done_nodes :: "bool list"
  ancestors :: "bool list"
  in_degree :: "nat list"

type_synonym gather_frame = "NodeIndex \<times> Scope \<times> ExclusionKey list \<times> EdgeRef list"

text \<open>
  The scope a walk takes on at a child: nothing when the child is resolved and its winner sits elsewhere,
  else the scope picked for it, or the one below the edge.
\<close>

definition gather_scope :: "Graph \<Rightarrow> Picks \<Rightarrow> NodeIndex \<Rightarrow> NodeIndex \<Rightarrow> Scope \<Rightarrow> Scope option" where
  "gather_scope g ps from' child below =
     (if at_or False (done_nodes ps) child then
        (let winner = (case Option.bind (graph_node g child) n_winner_parent of
                         Some p \<Rightarrow> if list_ex (\<lambda>r. edge_source r = p \<and> edge_target r = child) (g_edges g)
                                   then Some p else None
                       | None \<Rightarrow> None)
         in if (case winner of Some p \<Rightarrow> p \<noteq> from' | None \<Rightarrow> False) then None
            else Some (case at_or None (picked ps) child of Some sc \<Rightarrow> sc | None \<Rightarrow> below))
      else Some below)"

definition child_excluded :: "Graph \<Rightarrow> ExclusionKey list \<Rightarrow> NodeIndex \<Rightarrow> bool" where
  "child_excluded g excluded child =
     (case graph_node g child of
        Some nd \<Rightarrow> excludes excluded (group_id (n_coord nd)) (artifact_id (n_coord nd))
      | None \<Rightarrow> False)"

definition gather_limit :: "Graph \<Rightarrow> NodeIndex \<Rightarrow> ResolveError" where
  "gather_limit g n =
     GraphLimitExceeded ''states gathering a cycle's scope'' MAX_GATHER_STATES
       (case graph_node g n of
          Some nd \<Rightarrow> group_id (n_coord nd) @ '':'' @ artifact_id (n_coord nd) | None \<Rightarrow> [])"

function gather_loop ::
  "visit_order \<Rightarrow> Graph \<Rightarrow> Picks \<Rightarrow> NodeIndex \<Rightarrow> (NodeIndex \<times> Scope \<times> ExclusionKey list) list \<Rightarrow>
   NodeIndex list \<Rightarrow> gather_frame list \<Rightarrow> Scope option \<Rightarrow> ResolveError + Scope option" where
  "gather_loop visit g ps n seen on_path stack widest =
     (case stack of
        [] \<Rightarrow> Inr widest
      | (from', scope, excluded, edges) # below_stack \<Rightarrow>
          if edges = [] then gather_loop visit g ps n seen (removeAll from' on_path) below_stack widest
          else
            let edge = last edges;
                rest = (from', scope, excluded, butlast edges) # below_stack;
                below = scope_below (edge_weight edge) scope;
                child = edge_target edge
            in if child_excluded g excluded child then gather_loop visit g ps n seen on_path rest widest
               else if child = n then gather_loop visit g ps n seen on_path rest (offer below widest)
               else case gather_scope g ps from' child below of
                 None \<Rightarrow> gather_loop visit g ps n seen on_path rest widest
               | Some sc \<Rightarrow>
                   let excl = gathered_exclusions excluded (e_exclusions (edge_weight edge))
                                (names_gathered g n (ancestors ps))
                   in if at_or False (ancestors ps) child \<and> child \<notin> set on_path \<and>
                         (child, sc, excl) \<notin> set seen
                      then if length seen + 1 > MAX_GATHER_STATES then Inl (gather_limit g n)
                           else gather_loop visit g ps n ((child, sc, excl) # seen) (child # on_path)
                                  ((child, sc, excl, visit (outgoing g child)) # rest) widest
                      else gather_loop visit g ps n seen on_path rest widest)"
  by pat_completeness auto
termination
  by (relation "measures [\<lambda>(visit, g, ps, n, seen, on_path, stack, widest). MAX_GATHER_STATES - length seen,
        \<lambda>(visit, g, ps, n, seen, on_path, stack, widest). \<Sum>(f, s, x, edges)\<leftarrow>stack. Suc (length edges)]") auto

declare gather_loop.simps [simp del]

definition pick_scope ::
  "visit_order \<Rightarrow> Graph \<Rightarrow> NodeIndex \<Rightarrow> bool \<Rightarrow> Picks \<Rightarrow> ResolveError + Scope" where
  "pick_scope visit g n broken ps =
     and_then
       (if \<not> broken
        then Inr (fold (\<lambda>r widest.
               case at_or None (picked ps) (edge_source r) of
                 Some parent \<Rightarrow> offer (scope_below (edge_weight r) parent) widest
               | None \<Rightarrow> widest) (visit (incoming g n)) None)
        else let start = (case at_or None (picked ps) (g_root g) of Some sc \<Rightarrow> sc | None \<Rightarrow> Compile)
             in gather_loop visit g ps n [(g_root g, start, [])] [g_root g]
                  [(g_root g, start, [], visit (outgoing g (g_root g)))] None)
       (\<lambda>widest. Inr (case widest of
          Some sc \<Rightarrow> sc
        | None \<Rightarrow> (case graph_node g n of Some nd \<Rightarrow> n_scope nd | None \<Rightarrow> Compile)))"

subsection \<open>Selecting the scopes of a graph\<close>

text \<open>
  One node taken from the ready stack: the cycles through it add their members to the ancestors, its scope
  is picked unless it has one, and its children come closer to being ready.
\<close>

definition mark_cycles :: "NodeIndex list list \<Rightarrow> NodeIndex \<Rightarrow> bool list \<Rightarrow> bool list" where
  "mark_cycles cs n anc =
     fold (\<lambda>cycle anc. if n \<in> set cycle then fold (\<lambda>m anc. anc[m := True]) cycle anc else anc) cs anc"

definition release_children ::
  "NodeIndex list \<Rightarrow> nat list \<times> (NodeIndex \<times> bool) list \<Rightarrow> nat list \<times> (NodeIndex \<times> bool) list" where
  "release_children children st =
     fold (\<lambda>child (deg, ready).
       let left = at_or 0 deg child - 1
       in (deg[child := left], if left = 0 then (child, False) # ready else ready)) children st"

definition select_step ::
  "visit_order \<Rightarrow> Graph \<Rightarrow> ConflictOrder \<Rightarrow> NodeIndex list list \<Rightarrow> NodeIndex \<Rightarrow> bool \<Rightarrow> Picks \<Rightarrow>
   (NodeIndex \<times> bool) list \<Rightarrow> ResolveError + (Picks \<times> (NodeIndex \<times> bool) list)" where
  "select_step visit g groups cs n broken ps ready =
     (let ps = ps\<lparr>ancestors := mark_cycles cs n (ancestors ps)\<rparr> in
      and_then (case at_or None (picked ps) n of
                  Some sc \<Rightarrow> Inr (picked ps)
                | None \<Rightarrow> and_then (pick_scope visit g n broken ps) (\<lambda>sc. Inr ((picked ps)[n := Some sc])))
      (\<lambda>pk.
      let (deg, ready) = release_children (at_or [] (co_children groups) n) (in_degree ps, ready)
      in Inr (ps\<lparr>picked := pk, done_nodes := (done_nodes ps)[n := True],
                 ancestors := (ancestors ps)[n := True], in_degree := deg\<rparr>, ready)))"

text \<open>
  The loop over the ready stack. When it is empty a cycle is left: the nearest node that is not done goes
  on the stack as broken. The cycles are computed when the first one is met, which is the flag \<open>met\<close>.
\<close>

definition nearest_left :: "ConflictOrder \<Rightarrow> Picks \<Rightarrow> NodeIndex option" where
  "nearest_left groups ps =
     min_by (\<lambda>a b. cmp_of (at_or 0 (co_depth groups) a, at_or 0 (in_degree ps) a)
                          (at_or 0 (co_depth groups) b, at_or 0 (in_degree ps) b))
       (filter (\<lambda>n. \<not> at_or True (done_nodes ps) n) (co_order groups))"

lemma nearest_left_undone:
  "nearest_left groups ps = Some n \<Longrightarrow> n < length (done_nodes ps) \<and> \<not> done_nodes ps ! n"
  by (auto simp: nearest_left_def at_or_def dest!: min_by_in split: if_splits)

definition waiting :: "Picks \<Rightarrow> (NodeIndex \<times> bool) list \<Rightarrow> bool" where
  "waiting ps ready \<longleftrightarrow> list_ex (\<lambda>(n, b). n < length (done_nodes ps) \<and> \<not> done_nodes ps ! n) ready"

lemma select_step_done:
  "select_step visit g groups cs n broken ps ready = Inr (ps', ready') \<Longrightarrow>
   done_nodes ps' = (done_nodes ps)[n := True]"
  by (auto simp: select_step_def Let_def split: prod.splits option.splits
      elim!: and_then.elims)

function select_loop ::
  "visit_order \<Rightarrow> Graph \<Rightarrow> ConflictOrder \<Rightarrow> bool \<Rightarrow> Picks \<Rightarrow> (NodeIndex \<times> bool) list \<Rightarrow>
   ResolveError + Picks" where
  "select_loop visit g groups met ps ready =
     (case ready of
        (n, broken) # rest \<Rightarrow>
          if \<not> (n < length (done_nodes ps) \<and> \<not> done_nodes ps ! n)
          then select_loop visit g groups met ps rest
          else (case select_step visit g groups (if met then cycles groups else []) n broken ps rest of
                  Inl e \<Rightarrow> Inl e
                | Inr (ps, ready) \<Rightarrow> select_loop visit g groups met ps ready)
      | [] \<Rightarrow>
          (case nearest_left groups ps of
             None \<Rightarrow> Inr ps
           | Some nearest \<Rightarrow>
               select_loop visit g groups True (ps\<lparr>in_degree := (in_degree ps)[nearest := 0]\<rparr>)
                 [(nearest, True)]))"
  by pat_completeness auto
termination
  by (relation "measures [\<lambda>(visit, g, groups, met, ps, ready). unvisited (done_nodes ps),
        \<lambda>(visit, g, groups, met, ps, ready). if waiting ps ready then 0 else 1,
        \<lambda>(visit, g, groups, met, ps, ready). length ready]")
    (auto simp: unvisited_update waiting_def dest!: nearest_left_undone dest: select_step_done)

declare select_loop.simps [simp del]

definition select_start :: "visit_order \<Rightarrow> Graph \<Rightarrow> ConflictOrder \<Rightarrow> Picks" where
  "select_start visit g groups =
     (let count = node_count g;
          root_scope = (case graph_node g (g_root g) of Some nd \<Rightarrow> n_scope nd | None \<Rightarrow> Compile);
          pk = (replicate count None)[g_root g := Some root_scope];
          pk = fold (\<lambda>(n, e) pk. pk[n := Some (scope_below e root_scope)]) (direct_edges visit g) pk;
          pk = fold (\<lambda>n pk. case graph_node g n of
                      Some nd \<Rightarrow> if n_local nd then pk[n := Some System] else pk | None \<Rightarrow> pk)
                 (co_order groups) pk
      in \<lparr>picked = pk, done_nodes = (replicate count False)[g_root g := True],
          ancestors = replicate count False, in_degree = co_in_degree groups\<rparr>)"

definition set_scopes :: "Graph \<Rightarrow> Scope option list \<Rightarrow> Graph" where
  "set_scopes g pk =
     g\<lparr>g_nodes := map (\<lambda>(nd, sc). case sc of Some sc \<Rightarrow> nd\<lparr>n_scope := sc\<rparr> | None \<Rightarrow> nd)
                   (zip (g_nodes g) pk)\<rparr>"

definition select_scopes :: "visit_order \<Rightarrow> Graph \<Rightarrow> ResolveError + Graph" where
  "select_scopes visit g =
     (let groups = ConflictOrder_of visit g;
          ps = select_start visit g groups;
          ready = rev (map (\<lambda>n. (n, False))
                    (filter (\<lambda>n. at_or 0 (in_degree ps) n = 0) (co_order groups)))
      in and_then (select_loop visit g groups False ps ready) (\<lambda>ps. Inr (set_scopes g (picked ps))))"

section \<open>What the selection leaves as it is\<close>

text \<open>Nodes up to their scope.\<close>

definition unscoped :: "Graph \<Rightarrow> Node list" where
  "unscoped g = map (\<lambda>nd. nd\<lparr>n_scope := Compile\<rparr>) (g_nodes g)"

lemma unscoped_count: "unscoped g' = unscoped g \<Longrightarrow> node_count g' = node_count g"
  by (metis length_map node_count_def unscoped_def)

text \<open>Scopes that were picked stay: the loop only fills gaps.\<close>

definition fills :: "Scope option list \<Rightarrow> Scope option list \<Rightarrow> bool" where
  "fills pk pk' \<longleftrightarrow> length pk' = length pk \<and> (\<forall>i < length pk. pk ! i \<noteq> None \<longrightarrow> pk' ! i = pk ! i)"

lemma fills_refl [simp]: "fills pk pk"
  by (simp add: fills_def)

lemma fills_trans: "fills a b \<Longrightarrow> fills b c \<Longrightarrow> fills a c"
  by (simp add: fills_def)

lemma select_step_fills:
  assumes "select_step visit g groups cs n broken ps ready = Inr (ps', ready')"
  shows "fills (picked ps) (picked ps')"
proof -
  have "fills (picked ps) ((picked ps)[n := Some sc])" if "at_or None (picked ps) n = None" for sc
    using that by (cases "n < length (picked ps)") (auto simp: fills_def at_or_def nth_list_update)
  with assms show ?thesis
    by (auto simp: select_step_def Let_def split: prod.splits option.splits elim!: and_then.elims)
qed

lemma select_loop_fills:
  "select_loop visit g groups met ps ready = Inr ps' \<Longrightarrow> fills (picked ps) (picked ps')"
proof (induction visit g groups met ps ready rule: select_loop.induct)
  case (1 visit g groups met ps ready)
  show ?case
  proof (cases ready)
    case Nil
    then show ?thesis
      using "1.prems" "1.IH"(1) [OF Nil]
      by (cases "nearest_left groups ps") (simp_all add: select_loop.simps [of _ _ _ _ _ "[]"])
  next
    case (Cons p rest)
    obtain n broken where p: "p = (n, broken)" by fastforce
    note unfold = select_loop.simps [of visit g groups met ps "(n, broken) # rest"]
    show ?thesis
    proof (cases "n < length (done_nodes ps) \<and> \<not> done_nodes ps ! n")
      case False
      then show ?thesis using "1.prems" "1.IH"(2) [OF Cons p [symmetric]] unfold Cons p by simp
    next
      case True
      obtain ps1 ready1 where step: "select_step visit g groups (if met then cycles groups else []) n broken ps rest = Inr (ps1, ready1)"
        using "1.prems" Cons p True unfold by (auto split: sum.splits)
      then have "select_loop visit g groups met ps1 ready1 = Inr ps'" using "1.prems" Cons p True unfold by simp
      then have "fills (picked ps1) (picked ps')" using "1.IH"(3) [OF Cons p [symmetric] _ step] True by simp
      with select_step_fills [OF step] show ?thesis by (rule fills_trans)
    qed
  qed
qed

lemma set_scopes_shape:
  assumes "length pk = node_count g"
  shows "unscoped (set_scopes g pk) = unscoped g"
  using assms
  by (intro nth_equalityI) (auto simp: unscoped_def set_scopes_def node_count_def split: option.splits)

lemma set_scopes_nth:
  "length pk = node_count g \<Longrightarrow> i < node_count g \<Longrightarrow> pk ! i = Some sc \<Longrightarrow> n_scope (g_nodes (set_scopes g pk) ! i) = sc"
  by (simp add: set_scopes_def node_count_def)

lemma select_start_length: "length (picked (select_start visit g groups)) = node_count g"
proof -
  have direct: "length (fold (\<lambda>(n, e) pk. pk[n := Some (scope_below e sc)]) es pk) = length pk"
    for es :: "(NodeIndex \<times> Edge) list" and sc pk
    by (induction es arbitrary: pk) auto
  have local: "length (fold (\<lambda>n pk. case graph_node g n of
      Some nd \<Rightarrow> if n_local nd then pk[n := Some System] else pk | None \<Rightarrow> pk) ns pk) = length pk" for ns pk
    by (induction ns arbitrary: pk) (auto split: option.splits)
  show ?thesis by (simp add: select_start_def Let_def direct local)
qed

lemma select_scopes_Inr:
  assumes "select_scopes visit g = Inr g'"
  obtains pk where "fills (picked (select_start visit g (ConflictOrder_of visit g))) pk" "length pk = node_count g"
    "g' = set_scopes g pk"
proof -
  obtain ps ready where ps: "select_loop visit g (ConflictOrder_of visit g) False
      (select_start visit g (ConflictOrder_of visit g)) ready = Inr ps" "g' = set_scopes g (picked ps)"
    using assms by (auto simp: select_scopes_def Let_def elim!: and_then.elims)
  note f = select_loop_fills [OF ps(1)]
  moreover have "length (picked ps) = node_count g" using f select_start_length by (simp add: fills_def)
  ultimately show ?thesis using that ps(2) by blast
qed

lemma select_scopes_shape:
  assumes "select_scopes visit g = Inr g'"
  shows "unscoped g' = unscoped g" "g_edges g' = g_edges g" "g_root g' = g_root g"
  using assms by (auto elim!: select_scopes_Inr simp: set_scopes_shape) (simp_all add: set_scopes_def)

section \<open>Scopes that are fixed\<close>

lemma direct_edges_distinct: "distinct (map fst (direct_edges visit g))"
proof -
  have "distinct (map fst (fold (\<lambda>r first. case map_of first (edge_target r) of
      Some current \<Rightarrow> if opt_le (e_declared (edge_weight r)) (e_declared current)
        then AList.update (edge_target r) (edge_weight r) first else first
    | None \<Rightarrow> AList.update (edge_target r) (edge_weight r) first) rs es))"
    if "distinct (map fst es)" for rs :: "EdgeRef list" and es
    using that by (induction rs arbitrary: es) (auto simp: distinct_update split: option.splits)
  then show ?thesis by (simp add: direct_edges_def)
qed

lemma fold_direct_nth:
  fixes es :: "(NodeIndex \<times> Edge) list"
  assumes "distinct (map fst es)" and "i < length pk"
  shows "fold (\<lambda>(n, e) pk. pk[n := Some (scope_below e sc)]) es pk ! i =
    (case map_of es i of None \<Rightarrow> pk ! i | Some e \<Rightarrow> Some (scope_below e sc))"
  using assms
proof (induction es arbitrary: pk)
  case (Cons p es)
  obtain n e where p: "p = (n, e)" by fastforce
  have "map_of es n = None" using Cons.prems(1) p by (simp add: map_of_eq_None_iff)
  with Cons p show ?case by (auto simp: nth_list_update split: option.splits)
qed simp

lemma fold_local_nth:
  assumes "i < length pk"
  shows "fold (\<lambda>n pk. case graph_node g n of
      Some nd \<Rightarrow> if n_local nd then pk[n := Some System] else pk | None \<Rightarrow> pk) ns pk ! i =
    (if i \<in> set ns \<and> (case graph_node g i of Some nd \<Rightarrow> n_local nd | None \<Rightarrow> False) then Some System else pk ! i)"
  using assms
proof (induction ns arbitrary: pk)
  case (Cons n ns)
  let ?pk = "case graph_node g n of Some nd \<Rightarrow> if n_local nd then pk[n := Some System] else pk | None \<Rightarrow> pk"
  have "i < length ?pk" using Cons.prems by (simp split: option.splits)
  from Cons.IH [OF this] Cons.prems show ?case by (cases "n = i") (auto simp: nth_list_update split: option.splits if_splits)
qed simp

lemma select_start_nth:
  assumes "i < node_count g"
  defines "sc \<equiv> case graph_node g (g_root g) of Some nd \<Rightarrow> n_scope nd | None \<Rightarrow> Compile"
  shows "picked (select_start visit g groups) ! i =
    (if i \<in> set (co_order groups) \<and> n_local (g_nodes g ! i) then Some System
     else case map_of (direct_edges visit g) i of
       Some e \<Rightarrow> Some (scope_below e sc)
     | None \<Rightarrow> if i = g_root g then Some sc else None)"
proof -
  have direct: "length (fold (\<lambda>(n, e) pk. pk[n := Some (scope_below e sc)]) es pk) = length pk"
    for es :: "(NodeIndex \<times> Edge) list" and sc pk
    by (induction es arbitrary: pk) auto
  have "graph_node g i = Some (g_nodes g ! i)" using assms(1) by (simp add: graph_node_def node_count_def)
  with assms(1) show ?thesis
    by (auto simp: select_start_def Let_def sc_def [symmetric] fold_local_nth direct fold_direct_nth
        direct_edges_distinct nth_list_update split: option.splits)
qed

section \<open>Properties\<close>


text \<open>A dependency declared in scope test that another declaration asks for in scope compile.\<close>

definition scoped_node :: "string \<Rightarrow> Node" where
  "scoped_node name =
     \<lparr>n_coord = \<lparr>group_id = ''g'', artifact_id = name, version = Version_unresolved to_ascii_lowercase ''1'',
        packaging = None, classifier = None\<rparr>,
      n_scope = Compile, n_repo_url = None, n_build_repo = None, n_repos = [], n_checksum = None,
      n_workspace_module = None, n_local = False, n_system_path = None, n_winner_parent = None\<rparr>"

definition scoped_edge :: "nat \<Rightarrow> Scope \<Rightarrow> Edge" where
  "scoped_edge at' sc =
     \<lparr>e_scope = sc, e_managed_scope = False, e_declared = Some at', e_optional = False, e_exclusions = [],
      e_requested = None\<rparr>"

definition scoped_graph :: Graph where
  "scoped_graph =
     \<lparr>g_nodes = [scoped_node ''root'', scoped_node ''a'', scoped_node ''b''],
      g_edges = [(0, 1, scoped_edge 0 Test), (0, 2, scoped_edge 1 Compile), (2, 1, scoped_edge 2 Compile)],
      g_root = 0\<rparr>"

lemma scoped_conflict_order:
  "ConflictOrder_of id scoped_graph =
     \<lparr>co_order = [2, 1], co_depth = [usize_max, 1, 1], co_children = [[], [], [1]], co_in_degree = [0, 1, 0]\<rparr>"
  by (simp add: ConflictOrder_of_def scoped_graph_def node_count_def conflict_walk.simps neighbors_def outgoing_def
      visit_child_def at_or_def usize_max_def pull_up_def pull_up_loop.simps Let_def numeral_2_eq_2 numeral_3_eq_3)

lemma scoped_direct_edges:
  "direct_edges id scoped_graph = [(1, scoped_edge 0 Test), (2, scoped_edge 1 Compile)]"
  by (simp add: direct_edges_def scoped_graph_def outgoing_def)

lemma scoped_graph_selects: "\<exists>g'. select_scopes id scoped_graph = Inr g'"
  by (simp add: select_scopes_def scoped_conflict_order select_start_def scoped_direct_edges Let_def)
    (simp add: scoped_graph_def node_count_def graph_node_def scoped_node_def at_or_def select_loop.simps
      select_step_def mark_cycles_def release_children_def nearest_left_def Let_def numeral_2_eq_2 numeral_3_eq_3
      scoped_edge_def scope_below_def min_by_def)


end
