(* ===== verification/Solver_Management.thy ===== *)
theory Solver_Management
  imports Dependency_Graph Version_Range
begin

text \<open>
  The solver's inputs: the backend it asks (the trait of \<^verbatim>\<open>rv-resolver/src/solver/mod.rs\<close>), the root's
  dependency management (\<^verbatim>\<open>rv-resolver/src/solver/management.rs\<close>), and the requirements a declaration
  states. The backend is a record of functions: each answers for one state of the repositories. Its
  prefetch hints and notes return nothing and change nothing the solver reads.
\<close>

section \<open>Definitions\<close>

subsection \<open>The backend\<close>

record ResolvedVersion =
  rv_version :: Version
  rv_repo :: "RepoRef option"

record ResolvedProject =
  rp_project :: Project
  rp_repo_url :: "string option"
  rp_workspace_module :: "string option"

record Backend =
  b_workspace_module :: "Coord \<Rightarrow> string option"
  b_is_reactor_module :: "string \<Rightarrow> string \<Rightarrow> string \<Rightarrow> bool"
  b_resolve_version ::
    "string \<Rightarrow> string \<Rightarrow> VersionReq \<Rightarrow> RepoContext \<Rightarrow> ResolveError + ResolvedVersion"
  b_resolve_versions ::
    "string \<Rightarrow> string \<Rightarrow> VersionReq \<Rightarrow> RepoContext \<Rightarrow> ResolveError + ResolvedVersion list"
  b_resolve_snapshot_version :: "Coord \<Rightarrow> RepoContext \<Rightarrow> ResolveError + ResolvedVersion"
  b_fetch_project :: "Coord \<Rightarrow> bool \<Rightarrow> RepoContext \<Rightarrow> ResolveError + ResolvedProject"
  b_extend_repo_context :: "RepoContext \<Rightarrow> Coord \<Rightarrow> Project \<Rightarrow> RepoContext"
  b_dropped_repos_on_path :: "string list \<Rightarrow> string \<Rightarrow> RepoSearchStatus list \<Rightarrow> DroppedRepo list"
  b_prefetches :: bool
  b_note_winner :: "Coord \<Rightarrow> PathNode \<Rightarrow> ResolveError + unit"

subsection \<open>Dependency management\<close>

type_synonym ManagementKey = "string \<times> string \<times> string \<times> string option"

type_synonym Management = "(ManagementKey \<times> Dependency) list"

definition effective_key :: "Dependency \<Rightarrow> ManagementKey" where
  "effective_key d = (d_group_id d, d_artifact_id d, effective_type d, effective_classifier d)"

fun or_else :: "'a option \<Rightarrow> 'a option \<Rightarrow> 'a option" where
  "or_else (Some x) y = Some x"
| "or_else None y = y"

definition push_missing :: "'a list \<Rightarrow> 'a list \<Rightarrow> 'a list" where
  "push_missing added xs = fold (\<lambda>x xs. if x \<in> set xs then xs else xs @ [x]) added xs"

definition merge_managed :: "Dependency \<Rightarrow> Dependency \<Rightarrow> Dependency" where
  "merge_managed managed entry =
     managed\<lparr>d_version := or_else (d_version managed) (d_version entry),
             d_scope := or_else (d_scope managed) (d_scope entry),
             d_system_path := or_else (d_system_path managed) (d_system_path entry),
             d_exclusions := push_missing (d_exclusions entry) (d_exclusions managed)\<rparr>"

definition manages_nothing :: "Dependency \<Rightarrow> bool" where
  "manages_nothing d \<longleftrightarrow> d_version d = None \<and> d_scope d = None \<and> d_exclusions d = []"

definition manage_entry :: "Dependency \<Rightarrow> Management \<Rightarrow> Management" where
  "manage_entry entry m =
     (if manages_nothing entry then m
      else case map_of m (effective_key entry) of
        None \<Rightarrow> m @ [(effective_key entry, entry)]
      | Some managed \<Rightarrow> AList.update (effective_key entry) (merge_managed managed entry) m)"

definition Management_new :: "Dependency list \<Rightarrow> Management" where
  "Management_new entries = fold manage_entry entries []"

definition management_entry :: "Management \<Rightarrow> string \<Rightarrow> string \<Rightarrow> Dependency \<Rightarrow> Dependency option" where
  "management_entry m g a like' = map_of m (g, a, effective_type like', effective_classifier like')"

definition managed :: "Management \<Rightarrow> Dependency \<Rightarrow> Dependency option" where
  "managed m d = management_entry m (d_group_id d) (d_artifact_id d) d"

definition resolve_version_str :: "Management \<Rightarrow> Dependency \<Rightarrow> nat \<Rightarrow> ResolveError + string" where
  "resolve_version_str m d depth =
     (case (if depth > 1 \<or> d_version d = None then Option.bind (managed m d) d_version else None) of
        Some v \<Rightarrow> Inr v
      | None \<Rightarrow> ok_or (d_version d) (MissingVersion (d_group_id d) (d_artifact_id d)))"

text \<open>\<^verbatim>\<open>manage\<close>: the dependency with the management applied, and whether its scope was managed.\<close>

definition manage :: "Dependency \<Rightarrow> Dependency \<Rightarrow> nat \<Rightarrow> Dependency \<times> bool" where
  "manage mg dep depth =
     (let scope = (if depth > 1 then d_scope mg else None);
          dep = (case scope of
                   Some sc \<Rightarrow>
                     (let dep = dep\<lparr>d_scope := Some sc\<rparr> in
                      if effective_scope dep = System then
                        (if d_system_path mg \<noteq> None then dep\<lparr>d_system_path := d_system_path mg\<rparr> else dep)
                      else dep\<lparr>d_system_path := None\<rparr>)
                 | None \<Rightarrow> dep)
      in (dep\<lparr>d_exclusions := push_missing (d_exclusions mg) (d_exclusions dep)\<rparr>, scope \<noteq> None))"

definition apply_managed_metadata :: "Management \<Rightarrow> QueueItem \<Rightarrow> QueueItem" where
  "apply_managed_metadata m item =
     (case managed m (q_dependency item) of
        None \<Rightarrow> item
      | Some mg \<Rightarrow>
          if (d_scope mg = None \<or> q_depth item \<le> 1) \<and> d_exclusions mg = [] then item
          else (case manage mg (q_dependency item) (q_depth item) of (dep, scope_managed) \<Rightarrow>
            item\<lparr>q_managed_scope := q_managed_scope item \<or> scope_managed, q_dependency := dep\<rparr>))"

text \<open>The version a project's own management gives one of its dependencies.\<close>

definition managed_child_version :: "DependencyManagement \<Rightarrow> Dependency \<Rightarrow> string option" where
  "managed_child_version mgmt dep =
     (case filter (\<lambda>mg. effective_key mg = effective_key dep \<and> d_version mg \<noteq> None) mgmt of
        [] \<Rightarrow> None
      | mg # _ \<Rightarrow> d_version mg)"

definition follows :: "Dependency \<Rightarrow> bool" where
  "follows d \<longleftrightarrow> \<not> includes_dependencies d \<and> effective_scope d \<noteq> System"

definition jar_none :: "Dependency \<Rightarrow> string option" where
  "jar_none d = (if effective_type d = ''jar'' then None else Some (effective_type d))"

definition key_of :: "Dependency \<Rightarrow> CoordKey" where
  "key_of d =
     \<lparr>k_group_id = d_group_id d, k_artifact_id = d_artifact_id d, k_packaging = jar_none d,
      k_classifier = effective_classifier d\<rparr>"

definition coord_of :: "Dependency \<Rightarrow> Version \<Rightarrow> Coord" where
  "coord_of d v =
     \<lparr>group_id = d_group_id d, artifact_id = d_artifact_id d, version = v, packaging = jar_none d,
      classifier = effective_classifier d\<rparr>"

subsection \<open>Requirements\<close>

datatype RequestedRequirement =
    RExact Version
  | RSoft Version
  | RRanges VersionReq
  | RDynamic DynamicVersionToken

definition parse_requested_requirement ::
  "(string \<Rightarrow> string) \<Rightarrow> string \<Rightarrow> string \<Rightarrow> string \<Rightarrow> ResolveError + RequestedRequirement" where
  "parse_requested_requirement lc g a raw_version =
     (let trimmed = trim raw_version;
          invalid = InvalidVersionRequirement (g @ '':'' @ a) trimmed
      in case parse_dynamic_version_token trimmed of
           Some token \<Rightarrow> Inr (RDynamic token)
         | None \<Rightarrow>
             if ends_with ''+'' trimmed \<or> starts_with ''latest.'' (to_ascii_lowercase trimmed)
             then Inl invalid
             else case VersionReq_parse lc trimmed of
               Inl _ \<Rightarrow> Inl invalid
             | Inr req \<Rightarrow>
                 (case exact_version req of
                    Some v \<Rightarrow> Inr (RExact v)
                  | None \<Rightarrow> (case req of Soft v \<Rightarrow> Inr (RSoft v) | _ \<Rightarrow> Inr (RRanges req))))"

record Hard =
  h_req :: VersionReq
  h_text :: string

definition hard_of :: "VersionReq \<Rightarrow> Hard" where
  "hard_of req = \<lparr>h_req = req, h_text = VersionReq_display req\<rparr>"

fun hard_constraint :: "RequestedRequirement \<Rightarrow> Hard option" where
  "hard_constraint (RRanges req) = Some (hard_of req)"
| "hard_constraint (RExact v) = Some (hard_of (Exact v))"
| "hard_constraint (RSoft v) = None"
| "hard_constraint (RDynamic token) = None"

text \<open>The solver: the backend, the root's management, and Unicode lower casing for parsed versions.\<close>

record Solver =
  s_backend :: Backend
  s_management :: Management
  s_lc :: "string \<Rightarrow> string"

definition resolve_requirement_versions ::
  "Solver \<Rightarrow> string \<Rightarrow> string \<Rightarrow> RequestedRequirement \<Rightarrow> RepoContext \<Rightarrow>
   ResolveError + ResolvedVersion list" where
  "resolve_requirement_versions s g a requirement repos =
     (case requirement of
        RExact v \<Rightarrow> Inr [\<lparr>rv_version = v, rv_repo = None\<rparr>]
      | RSoft v \<Rightarrow> Inr [\<lparr>rv_version = v, rv_repo = None\<rparr>]
      | RRanges req \<Rightarrow> b_resolve_versions (s_backend s) g a req repos
      | RDynamic token \<Rightarrow>
          (case Version_parse (s_lc s) (requirement_label token) of
             Inl e \<Rightarrow> Inl (VersionErr e)
           | Inr marker \<Rightarrow>
               and_then (b_resolve_version (s_backend s) g a (Exact marker) repos) (\<lambda>v. Inr [v])))"

definition requested_versions ::
  "Solver \<Rightarrow> string \<Rightarrow> string \<Rightarrow> string \<Rightarrow> RepoContext \<Rightarrow>
   ResolveError + (RequestedRequirement \<times> ResolvedVersion list \<times> ResolvedVersion)" where
  "requested_versions s g a v repos =
     and_then (parse_requested_requirement (s_lc s) g a v) (\<lambda>requirement.
     and_then (resolve_requirement_versions s g a requirement repos) (\<lambda>versions.
     if versions = [] then Inl (VersionNotFound (g @ '':'' @ a) v)
     else Inr (requirement, butlast versions, last versions)))"

definition names_property :: "Coord \<Rightarrow> bool" where
  "names_property x \<longleftrightarrow>
     list_ex (contains_sub ''${'') [group_id x, artifact_id x, original (version x)]"

fun path_root :: "PathNode \<Rightarrow> PathNode" where
  "path_root (PathNode k v par r d) = (case par of None \<Rightarrow> PathNode k v par r d | Some p \<Rightarrow> path_root p)"

definition checked_coord :: "Solver \<Rightarrow> QueueItem \<Rightarrow> string \<Rightarrow> string" where
  "checked_coord s item version_str =
     (let d = q_dependency item;
          base = d_group_id d @ '':'' @ d_artifact_id d @ '':'' @ version_str;
          exact = (\<not> list_ex (\<lambda>c. c \<in> set ''[('') version_str \<and>
                   version_str \<notin> set [''LATEST'', ''RELEASE''] \<and> effective_type d \<noteq> ''pom'')
      in if q_depth item = 1 \<and> exact \<and>
            \<not> b_is_reactor_module (s_backend s) (d_group_id d) (d_artifact_id d) version_str
         then let pkg = (case jar_none d of None \<Rightarrow> [] | Some t \<Rightarrow> t)
              in case effective_classifier d of
                   Some c \<Rightarrow> base @ '':'' @ pkg @ '':'' @ c
                 | None \<Rightarrow> if pkg \<noteq> [] then base @ '':'' @ pkg else base
         else base)"

definition refuse_undefined_property :: "Solver \<Rightarrow> QueueItem \<Rightarrow> string \<Rightarrow> ResolveError + unit" where
  "refuse_undefined_property s item version_str =
     (let d = q_dependency item; coord = checked_coord s item version_str in
      case undefined_property coord of
        None \<Rightarrow> Inr ()
      | Some property \<Rightarrow>
          let by_root = undefined_property (d_group_id d @ '':'' @ d_artifact_id d) = None \<and>
                        d_version d \<noteq> Some version_str;
              declaring = (if by_root then path_root (q_path item) else q_path item);
              declared_by = last (coordinates declaring);
              module = (case Coord_parse (s_lc s) declared_by of
                          Inl _ \<Rightarrow> None
                        | Inr x \<Rightarrow> b_workspace_module (s_backend s) x)
          in Inl (UndefinedProperty coord property
                   (case module of Some m \<Rightarrow> m | None \<Rightarrow> declared_by)))"

section \<open>Merged management\<close>

text \<open>The first value that a field has in a list of entries.\<close>

fun first_set :: "('a \<Rightarrow> 'b option) \<Rightarrow> 'a list \<Rightarrow> 'b option" where
  "first_set f [] = None"
| "first_set f (x # xs) = or_else (f x) (first_set f xs)"

lemma or_else_assoc [simp]: "or_else (or_else x y) z = or_else x (or_else y z)"
  by (cases x) simp_all

lemma or_else_None [simp]: "or_else x None = x"
  by (cases x) simp_all

lemma set_push_missing [simp]: "set (push_missing added xs) = set xs \<union> set added"
  unfolding push_missing_def by (induction added arbitrary: xs) auto

lemma distinct_push_missing [simp]: "distinct (push_missing added xs) \<longleftrightarrow> distinct xs"
  unfolding push_missing_def by (induction added arbitrary: xs) auto

lemma merge_managed_simps [simp]:
  "d_version (merge_managed m e) = or_else (d_version m) (d_version e)"
  "d_scope (merge_managed m e) = or_else (d_scope m) (d_scope e)"
  "d_system_path (merge_managed m e) = or_else (d_system_path m) (d_system_path e)"
  "d_exclusions (merge_managed m e) = push_missing (d_exclusions e) (d_exclusions m)"
  "effective_key (merge_managed m e) = effective_key m"
  by (simp_all add: merge_managed_def effective_key_def effective_type_def effective_classifier_def split: option.split)

lemma manage_entry_map_of:
  "map_of (manage_entry e m) key =
     (if manages_nothing e \<or> key \<noteq> effective_key e then map_of m key
      else Some (case map_of m key of None \<Rightarrow> e | Some mg \<Rightarrow> merge_managed mg e))"
  by (auto simp: manage_entry_def update_conv' map_add_def split: option.splits)

definition managing :: "ManagementKey \<Rightarrow> Dependency list \<Rightarrow> Dependency list" where
  "managing key entries = filter (\<lambda>e. \<not> manages_nothing e \<and> effective_key e = key) entries"

lemma managing_simps [simp]:
  "managing key [] = []"
  "managing key (e # es) = (if manages_nothing e \<or> effective_key e \<noteq> key then managing key es
                            else e # managing key es)"
  by (simp_all add: managing_def)

lemma fold_manage_entry:
  "map_of (fold manage_entry entries m) key =
     (case map_of m key of
        Some mg \<Rightarrow> Some (fold (\<lambda>e mg. merge_managed mg e) (managing key entries) mg)
      | None \<Rightarrow> (case managing key entries of
           [] \<Rightarrow> None
         | e # es \<Rightarrow> Some (fold (\<lambda>e mg. merge_managed mg e) es e)))"
  by (induction entries arbitrary: m) (auto simp: manage_entry_map_of split: option.splits)

lemma fold_merge_managed:
  "d_version (fold (\<lambda>e mg. merge_managed mg e) es mg) = first_set d_version (mg # es)"
  "d_scope (fold (\<lambda>e mg. merge_managed mg e) es mg) = first_set d_scope (mg # es)"
  "d_system_path (fold (\<lambda>e mg. merge_managed mg e) es mg) = first_set d_system_path (mg # es)"
  "set (d_exclusions (fold (\<lambda>e mg. merge_managed mg e) es mg)) =
     (\<Union>e \<in> set (mg # es). set (d_exclusions e))"
  "effective_key (fold (\<lambda>e mg. merge_managed mg e) es mg) = effective_key mg"
  by (induction es arbitrary: mg) auto

lemma managed_key: "managed m d = map_of m (effective_key d)"
  by (simp add: managed_def management_entry_def effective_key_def)

lemma managed_Management_new:
  "managed (Management_new entries) d =
     (case managing (effective_key d) entries of
        [] \<Rightarrow> None | e # es \<Rightarrow> Some (fold (\<lambda>e mg. merge_managed mg e) es e))"
  by (simp add: managed_key Management_new_def fold_manage_entry)

lemma managing_key: "e \<in> set (managing key entries) \<Longrightarrow> effective_key e = key"
  by (simp add: managing_def)

text \<open>
  Property C21. Entries of the management that share a key merge as Maven's ClassicDependencyManager merges them:
  each field is the one of the first entry that sets it, and the exclusions of all of them add up. A dependency
  is managed exactly when some entry with its group, artifact, effective type and effective classifier manages
  anything at all.
\<close>

theorem management_merges_entries:
  "case managed (Management_new entries) d of
     None \<Rightarrow> managing (effective_key d) entries = []
   | Some mg \<Rightarrow>
       managing (effective_key d) entries \<noteq> [] \<and> effective_key mg = effective_key d \<and>
       d_version mg = first_set d_version (managing (effective_key d) entries) \<and>
       d_scope mg = first_set d_scope (managing (effective_key d) entries) \<and>
       d_system_path mg = first_set d_system_path (managing (effective_key d) entries) \<and>
       set (d_exclusions mg) = (\<Union>e \<in> set (managing (effective_key d) entries). set (d_exclusions e))"
  using managing_key [of _ "effective_key d" entries]
  by (simp add: managed_Management_new fold_merge_managed split: list.splits)

section \<open>Hard constraints\<close>

text \<open>A constraint as a declaration makes it: its text is the display of a requirement that parsed.\<close>

definition hard_ok :: "(string \<Rightarrow> string) \<Rightarrow> Hard \<Rightarrow> bool" where
  "hard_ok lc h \<longleftrightarrow> h_text h = VersionReq_display (h_req h) \<and>
     (case h_req h of
        Exact v \<Rightarrow> plain (original v) \<and> (\<forall>t. range_bound lc t (original v) = Inr (Some v))
      | Ranges rs \<Rightarrow> rs \<noteq> [] \<and> (\<forall>r \<in> set rs. range_ok lc r)
      | Soft v \<Rightarrow> False)"

lemma exact_version_ok:
  assumes "req_ok lc req" and "exact_version req = Some v"
  shows "hard_ok lc (hard_of (Exact v))"
proof (cases req rule: exact_version.cases)
  case (1 w)
  with assms show ?thesis by (auto simp: hard_ok_def hard_of_def range_ok_def)
next
  case (2 r)
  with assms show ?thesis by (auto simp: hard_ok_def hard_of_def range_ok_def split: if_splits)
qed (use assms in simp_all)

lemma hard_constraint_ok:
  assumes "lowercases lc" and "parse_requested_requirement lc g a v = Inr rr" and "hard_constraint rr = Some h"
  shows "hard_ok lc h"
proof -
  obtain req where req: "VersionReq_parse lc (trim v) = Inr req"
    "(case exact_version req of Some v \<Rightarrow> RExact v
      | None \<Rightarrow> (case req of Soft v \<Rightarrow> RSoft v | _ \<Rightarrow> RRanges req)) = rr"
    using assms(2,3) by (auto simp: parse_requested_requirement_def Let_def split: option.splits if_splits sum.splits
      VersionReq.splits)
  note ok = VersionReq_parse_ok [OF assms(1) req(1)]
  show ?thesis
  proof (cases "exact_version req")
    case None
    with req assms(3) ok show ?thesis
      by (cases req) (auto simp: hard_ok_def hard_of_def)
  next
    case (Some v)
    with req assms(3) exact_version_ok [OF ok Some] show ?thesis by auto
  qed
qed

lemma comma_in_union: "rs \<noteq> [] \<Longrightarrow> CHR '','' \<in> set (VersionReq_display (Ranges rs))"
  by (cases rs; cases "tl rs") (auto simp: VersionRange_display_def)

lemma hard_text_inject:
  assumes "hard_ok lc h" and "hard_ok lc k" and "h_text h = h_text k"
  shows "h = k"
proof -
  have texts: "VersionReq_display (h_req h) = VersionReq_display (h_req k)"
    using assms by (simp add: hard_ok_def)
  have "h_req h = h_req k"
  proof (cases "h_req h")
    case h: (Exact v)
    show ?thesis
    proof (cases "h_req k")
      case (Exact w)
      have "range_bound lc [] (original v) = Inr (Some v)" "range_bound lc [] (original w) = Inr (Some w)"
        using assms(1,2) h Exact by (simp_all add: hard_ok_def)
      moreover have "original v = original w" using texts h Exact by simp
      ultimately have "v = w" by (metis sum.inject(2) option.inject)
      then show ?thesis using h Exact by (simp only:)
    next
      case (Ranges rs)
      with h assms(1,2) have "CHR '','' \<in> set (VersionReq_display (h_req k))" "CHR '','' \<notin> set (original v)"
        using comma_in_union [of rs] by (simp_all add: hard_ok_def plain_def del: VersionReq_display.simps)
      then have False unfolding texts [symmetric] h by simp
      then show ?thesis ..
    qed (use assms in \<open>simp add: hard_ok_def\<close>)
  next
    case h: (Ranges rs)
    then have rs: "VersionReq_parse lc (VersionReq_display (h_req h)) = Inr (Ranges rs)"
      and "CHR '','' \<in> set (VersionReq_display (h_req h))"
      using assms(1) comma_in_union [of rs] req_ok_display [of lc "Ranges rs"]
      by (simp_all add: hard_ok_def del: VersionReq_display.simps)
    then have comma: "CHR '','' \<in> set (VersionReq_display (h_req k))" by (simp only: texts)
    show ?thesis
    proof (cases "h_req k")
      case (Exact w)
      with comma assms(2) show ?thesis by (simp add: hard_ok_def plain_def)
    next
      case (Ranges ss)
      with assms(2) req_ok_display [of lc "Ranges ss"]
      have "VersionReq_parse lc (VersionReq_display (h_req k)) = Inr (Ranges ss)"
        by (simp add: hard_ok_def del: VersionReq_display.simps)
      with rs texts h Ranges show ?thesis by (simp del: VersionReq_display.simps)
    qed (use assms in \<open>simp add: hard_ok_def\<close>)
  qed (use assms in \<open>simp add: hard_ok_def\<close>)
  with assms(3) show ?thesis by simp
qed

end
