(* ===== verification/Relocation_Chain.thy ===== *)
theory Relocation_Chain
  imports Solver_Management Snapshot_Version
begin

text \<open>
  Relocations, \<^verbatim>\<open>rv-resolver/src/solver/relocation.rs\<close>: the project at the end of a chain of relocations,
  and the cache of the chains followed so far. The cache is shared by the loads of one walk and survives
  their failures, so every load takes it and hands it on.
\<close>

section \<open>Definitions\<close>

definition MAX_RELOCATIONS :: nat where
  "MAX_RELOCATIONS = 32"

type_synonym ExactCoord = "string \<times> string \<times> string \<times> string option \<times> string option"

type_synonym RelocationCache = "((ExactCoord \<times> RepoContext) \<times> (Coord \<times> Coord list)) list"

text \<open>A step that can fail and hands on the cache in either case.\<close>

type_synonym 'a cached = "RelocationCache \<Rightarrow> (ResolveError + 'a) \<times> RelocationCache"

definition cret :: "ResolveError + 'a \<Rightarrow> 'a cached" where
  "cret r cache = (r, cache)"

definition cbind :: "'a cached \<Rightarrow> ('a \<Rightarrow> 'b cached) \<Rightarrow> 'b cached" where
  "cbind m f cache =
     (case m cache of
        (Inl e, cache) \<Rightarrow> (Inl e, cache)
      | (Inr x, cache) \<Rightarrow> f x cache)"

text \<open>An \<^verbatim>\<open>IndexSet\<close> of coordinates compared by their text: in the order they were inserted.\<close>

definition in_chain :: "Coord \<Rightarrow> Coord list \<Rightarrow> bool" where
  "in_chain x chain = list_ex (same_text x) chain"

definition chain_between :: "Coord list \<Rightarrow> Coord list" where
  "chain_between chain = take (length chain - 1 - 1) (drop 1 chain)"

fun cache_from :: "nat \<Rightarrow> Coord list \<Rightarrow> Coord \<Rightarrow> Coord list \<Rightarrow> RepoContext \<Rightarrow> RelocationCache \<Rightarrow> RelocationCache" where
  "cache_from i [] end' hops repos cache = cache"
| "cache_from i (seen # rest) end' hops repos cache =
     cache_from (Suc i) rest end' hops repos
       (AList.update (coord_text seen, repos) (end', drop i hops) cache)"

definition cache_chain :: "Coord list \<Rightarrow> RepoContext \<Rightarrow> RelocationCache \<Rightarrow> Coord list \<times> RelocationCache" where
  "cache_chain chain repos cache =
     (let hops = chain_between chain
      in (hops, cache_from 0 chain (last chain) hops repos cache))"

definition cycle_error :: "Coord list \<Rightarrow> Coord \<Rightarrow> ResolveError" where
  "cycle_error chain next =
     RelocationCycle (join_with arrow
       (map Coord_display (take 16 chain) @
        (if length chain > 16 then [''... ('' @ to_string (length chain + 1) @ '' coordinates)''] else []) @
        [Coord_display next]))"

definition too_long :: "Coord list \<Rightarrow> Coord \<Rightarrow> ResolveError + unit" where
  "too_long chain coord =
     (if length chain \<le> MAX_RELOCATIONS + 1 then Inr ()
      else Inl (RelocationCycle (Coord_display coord @ arrow @
        (if chain = [] then [] else Coord_display (last chain)) @
        '' (more than '' @ to_string MAX_RELOCATIONS @ '' relocations)'')))"

definition non_empty :: "string option \<Rightarrow> string option" where
  "non_empty opt = (case opt of Some s \<Rightarrow> if s = [] then None else Some s | None \<Rightarrow> None)"

fun unwrap_or :: "'a option \<Rightarrow> 'a \<Rightarrow> 'a" where
  "unwrap_or None d = d"
| "unwrap_or (Some x) d = x"

definition relocation_coord :: "(string \<Rightarrow> string) \<Rightarrow> Coord \<Rightarrow> Relocation \<Rightarrow> ResolveError + Coord" where
  "relocation_coord lc coord rel =
     and_then (case non_empty (rel_version rel) of
                 None \<Rightarrow> Inr (version coord)
               | Some v \<Rightarrow> (case Version_parse lc v of Inl e \<Rightarrow> Inl (VersionErr e) | Inr v \<Rightarrow> Inr v))
     (\<lambda>v. Inr (coord\<lparr>group_id := unwrap_or (non_empty (rel_group_id rel)) (group_id coord),
                     artifact_id := unwrap_or (non_empty (rel_artifact_id rel)) (artifact_id coord),
                     version := v\<rparr>))"

text \<open>A model's fault names each hop after the first coordinate, the last one innermost.\<close>

definition at_hop :: "Coord list \<Rightarrow> ResolveError \<Rightarrow> ResolveError" where
  "at_hop chain err = fold (\<lambda>hop err. in_model_of err hop) (rev (drop 1 chain)) err"

definition map_err :: "('e \<Rightarrow> 'f) \<Rightarrow> 'e + 'a \<Rightarrow> 'f + 'a" where
  "map_err f r = (case r of Inl e \<Rightarrow> Inl (f e) | Inr x \<Rightarrow> Inr x)"

definition fetch_build ::
  "Solver \<Rightarrow> Coord \<Rightarrow> ResolvedVersion option \<Rightarrow> RepoContext \<Rightarrow>
   ResolveError + (ResolvedProject \<times> ResolvedVersion option)" where
  "fetch_build s coord pinned repos =
     (if \<not> resolves_through_snapshot_metadata (original (version coord))
      then and_then (b_fetch_project (s_backend s) coord False repos) (\<lambda>p. Inr (p, None))
      else
        and_then (case pinned of
                    Some bld \<Rightarrow> Inr bld
                  | None \<Rightarrow> b_resolve_snapshot_version (s_backend s) coord repos) (\<lambda>snapshot.
        and_then (b_fetch_project (s_backend s) (coord\<lparr>version := rv_version snapshot\<rparr>) (pinned = None) repos)
          (\<lambda>resolved. Inr (resolved, Some snapshot))))"

type_synonym Fetched = "Coord \<times> ResolvedProject \<times> ResolvedVersion option \<times> Coord list \<times> bool"

text \<open>Insert the hops a cache entry names; a repeat is a cycle.\<close>

fun insert_hops :: "Coord list \<Rightarrow> Coord list \<Rightarrow> ResolveError + Coord list" where
  "insert_hops [] chain = Inr chain"
| "insert_hops (hop # hops) chain =
     (if in_chain hop chain then Inl (cycle_error chain hop) else insert_hops hops (chain @ [hop]))"

definition finish_chain ::
  "bool \<Rightarrow> Coord list \<Rightarrow> RepoContext \<Rightarrow> RelocationCache \<Rightarrow> Coord list \<times> RelocationCache" where
  "finish_chain cacheable chain repos cache =
     (if cacheable then cache_chain chain repos cache else (chain_between chain, cache))"

definition from_cached ::
  "Solver \<Rightarrow> Coord \<Rightarrow> RepoContext \<Rightarrow> bool \<Rightarrow> Coord list \<Rightarrow> Coord \<Rightarrow> Coord \<times> Coord list \<Rightarrow> Fetched cached" where
  "from_cached s coord repos cacheable chain current entry cache =
     (case entry of (mapped, between) \<Rightarrow>
        case insert_hops between chain of
          Inl e \<Rightarrow> (Inl e, cache)
        | Inr chain \<Rightarrow>
            let terminal = same_text mapped current in
            if \<not> terminal \<and> in_chain mapped chain then (Inl (cycle_error chain mapped), cache)
            else let chain = (if terminal then chain else chain @ [mapped]) in
              case too_long chain coord of
                Inl e \<Rightarrow> (Inl e, cache)
              | Inr _ \<Rightarrow>
                  case map_err (at_hop chain) (fetch_build s mapped None repos) of
                    Inl e \<Rightarrow> (Inl e, cache)
                  | Inr (resolved, snapshot) \<Rightarrow>
                      (case finish_chain cacheable chain repos cache of (hops, cache) \<Rightarrow>
                         (Inr (mapped, resolved, snapshot, hops, False), cache)))"

text \<open>What one project says about where the chain goes on.\<close>

definition next_coord :: "Solver \<Rightarrow> Coord \<Rightarrow> ResolvedProject \<Rightarrow> ResolveError + Coord" where
  "next_coord s current resolved =
     (case pr_relocation (rp_project resolved) of
        Some rel \<Rightarrow> if rp_workspace_module resolved = None
                    then relocation_coord (s_lc s) current rel else Inr current
      | None \<Rightarrow> Inr current)"

definition keeps_version :: "ResolvedProject \<Rightarrow> bool" where
  "keeps_version resolved =
     (case pr_relocation (rp_project resolved) of
        Some rel \<Rightarrow> non_empty (rel_version rel) = None | None \<Rightarrow> False)"

function relocation_loop ::
  "Solver \<Rightarrow> Coord \<Rightarrow> RepoContext \<Rightarrow> Coord list \<Rightarrow> Coord \<Rightarrow> ResolvedVersion option \<Rightarrow> bool \<Rightarrow> Fetched cached" where
  "relocation_loop s coord repos chain current inherited cacheable cache =
     (if in_chain current chain then (Inl (cycle_error chain current), cache)
      else let chain = chain @ [current] in
        case too_long chain coord of
          Inl e \<Rightarrow> (Inl e, cache)
        | Inr _ \<Rightarrow>
            case (if inherited = None then map_of cache (coord_text current, repos) else None) of
              Some entry \<Rightarrow> from_cached s coord repos cacheable chain current entry cache
            | None \<Rightarrow>
                case map_err (at_hop chain) (fetch_build s current inherited repos) of
                  Inl e \<Rightarrow> (Inl e, cache)
                | Inr (resolved, snapshot) \<Rightarrow>
                    case next_coord s current resolved of
                      Inl e \<Rightarrow> (Inl e, cache)
                    | Inr next \<Rightarrow>
                        if same_text next current then
                          (case finish_chain cacheable chain repos cache of (hops, cache) \<Rightarrow>
                             (Inr (current, resolved, snapshot, hops, inherited \<noteq> None), cache))
                        else case (if keeps_version resolved then snapshot else None) of
                          Some bld \<Rightarrow>
                            relocation_loop s coord repos chain next
                              (Some \<lparr>rv_version = rv_version bld, rv_repo = None\<rparr>) False cache
                        | None \<Rightarrow> relocation_loop s coord repos chain next None cacheable cache)"
  by pat_completeness auto
termination
  by (relation "measure (\<lambda>(s, coord, repos, chain, r). MAX_RELOCATIONS + 2 - length chain)")
    (auto simp: too_long_def split: if_splits)

declare relocation_loop.simps [simp del]

definition fetch_project_with_relocation_cached :: "Solver \<Rightarrow> Coord \<Rightarrow> RepoContext \<Rightarrow> Fetched cached" where
  "fetch_project_with_relocation_cached s coord repos =
     relocation_loop s coord repos [] coord None True"

section \<open>Chains without the cache\<close>

text \<open>
  Versions whose items are those of their text. Coordinates with such versions are determined by their text,
  which is what chains and the cache compare.
\<close>

definition canonical :: "(string \<Rightarrow> string) \<Rightarrow> Coord \<Rightarrow> bool" where
  "canonical lc x \<longleftrightarrow> version x = Version_unresolved lc (original (version x))"

lemma canonical_same:
  assumes "canonical lc x" and "canonical lc y" and "same_text x y"
  shows "x = y"
proof -
  have texts: "coord_text x = coord_text y" using assms(3) by (simp add: same_text_def)
  then have "original (version x) = original (version y)" by (simp add: coord_text_def)
  then have "version x = version y" using assms(1,2) unfolding canonical_def by metis
  with texts show ?thesis by (simp add: coord_text_def)
qed

lemma same_text_refl [simp]: "same_text x x"
  by (simp add: same_text_def)

lemma same_text_sym: "same_text x y \<longleftrightarrow> same_text y x"
  by (auto simp: same_text_def)

lemma Version_parse_canonical: "Version_parse lc s = Inr v \<Longrightarrow> v = Version_unresolved lc (original v)"
  by (auto simp: Version_parse_def Version_unresolved_def Let_def split: if_splits)

lemma relocation_coord_canonical:
  "relocation_coord lc x rel = Inr y \<Longrightarrow> canonical lc x \<Longrightarrow> canonical lc y"
  by (auto simp: relocation_coord_def and_then_Inr canonical_def dest: Version_parse_canonical
      split: option.splits sum.splits)

lemma next_coord_canonical: "next_coord s x p = Inr y \<Longrightarrow> canonical (s_lc s) x \<Longrightarrow> canonical (s_lc s) y"
  by (auto simp: next_coord_def intro: relocation_coord_canonical split: option.splits if_splits)

text \<open>One relocation that takes no snapshot along, the end of a chain, and a chain of such relocations.\<close>

definition relocates :: "Solver \<Rightarrow> RepoContext \<Rightarrow> Coord \<Rightarrow> Coord \<Rightarrow> bool" where
  "relocates s repos x y \<longleftrightarrow> (\<exists>p snapshot. fetch_build s x None repos = Inr (p, snapshot) \<and>
     next_coord s x p = Inr y \<and> \<not> same_text y x \<and> \<not> (keeps_version p \<and> snapshot \<noteq> None))"

definition stays :: "Solver \<Rightarrow> RepoContext \<Rightarrow> Coord \<Rightarrow> bool" where
  "stays s repos x \<longleftrightarrow> (\<exists>p snapshot y. fetch_build s x None repos = Inr (p, snapshot) \<and>
     next_coord s x p = Inr y \<and> same_text y x)"

fun leads :: "Solver \<Rightarrow> RepoContext \<Rightarrow> Coord \<Rightarrow> Coord list \<Rightarrow> bool" where
  "leads s repos x [] = stays s repos x"
| "leads s repos x (y # ys) = (relocates s repos x y \<and> leads s repos y ys)"

definition entry_ok :: "Solver \<Rightarrow> RepoContext \<Rightarrow> Coord \<Rightarrow> Coord \<times> Coord list \<Rightarrow> bool" where
  "entry_ok s repos x entry =
     (case entry of (last_coord, between) \<Rightarrow>
        canonical (s_lc s) x \<and> canonical (s_lc s) last_coord \<and>
        (if same_text last_coord x then between = [] \<and> leads s repos x []
         else leads s repos x (between @ [last_coord])))"

definition cache_ok :: "Solver \<Rightarrow> RelocationCache \<Rightarrow> bool" where
  "cache_ok s cache \<longleftrightarrow> (\<forall>t repos entry. map_of cache (t, repos) = Some entry \<longrightarrow>
     (\<exists>x. coord_text x = t \<and> entry_ok s repos x entry))"

lemma cache_ok_Nil [simp]: "cache_ok s []"
  by (simp add: cache_ok_def)

lemma cache_ok_lookup:
  assumes "cache_ok s cache" and "map_of cache (coord_text x, repos) = Some entry" and "canonical (s_lc s) x"
  shows "entry_ok s repos x entry"
proof -
  obtain y where y: "coord_text y = coord_text x" "entry_ok s repos y entry"
    using assms(1,2) unfolding cache_ok_def by blast
  then have "y = x" using canonical_same [of "s_lc s" y x] assms(3) by (auto simp: entry_ok_def same_text_def)
  with y show ?thesis by simp
qed

lemma cache_ok_update:
  "cache_ok s cache \<Longrightarrow> entry_ok s repos x entry \<Longrightarrow> cache_ok s (AList.update (coord_text x, repos) entry cache)"
  by (auto simp: cache_ok_def update_conv')

lemma cache_ok_from:
  assumes "cache_ok s cache"
    and "\<And>j. j < length xs \<Longrightarrow> entry_ok s repos (xs ! j) (end', drop (i + j) hops)"
  shows "cache_ok s (cache_from i xs end' hops repos cache)"
  using assms
proof (induction xs arbitrary: i cache)
  case (Cons x xs)
  have "entry_ok s repos x (end', drop i hops)" using Cons.prems(2) [of 0] by simp
  with Cons.prems(1) have "cache_ok s (AList.update (coord_text x, repos) (end', drop i hops) cache)"
    by (intro cache_ok_update)
  moreover have "entry_ok s repos (xs ! j) (end', drop (Suc i + j) hops)" if "j < length xs" for j
    using Cons.prems(2) [of "Suc j"] that by simp
  ultimately show ?case using Cons.IH [of _ "Suc i"] by simp
qed simp

text \<open>A chain as the loop builds it: coordinates whose texts differ, each relocating to the next.\<close>

fun linked :: "Solver \<Rightarrow> RepoContext \<Rightarrow> Coord list \<Rightarrow> bool" where
  "linked s repos (x # y # ys) = (relocates s repos x y \<and> linked s repos (y # ys))"
| "linked s repos ys = True"

lemma linked_snoc: "linked s repos (xs @ [x, y]) \<longleftrightarrow> linked s repos (xs @ [x]) \<and> relocates s repos x y"
  by (induction s repos xs rule: linked.induct) auto

lemma linked_leads:
  "linked s repos (x # ys) \<Longrightarrow> stays s repos (last (x # ys)) \<Longrightarrow> leads s repos x ys"
  by (induction ys arbitrary: x) auto

lemma linked_drop: "linked s repos xs \<Longrightarrow> linked s repos (drop n xs)"
proof (induction n arbitrary: xs)
  case (Suc n)
  then show ?case by (cases "(s, repos, xs)" rule: linked.cases) auto
qed simp

definition chain_ok :: "(string \<Rightarrow> string) \<Rightarrow> Coord list \<Rightarrow> bool" where
  "chain_ok lc chain \<longleftrightarrow> list_all (canonical lc) chain \<and> distinct (map coord_text chain)"

lemma in_chain_iff: "in_chain x chain \<longleftrightarrow> coord_text x \<in> coord_text ` set chain"
  by (auto simp: in_chain_def same_text_def list_ex_iff)

lemma chain_ok_snoc [simp]:
  "chain_ok lc (chain @ [x]) \<longleftrightarrow> chain_ok lc chain \<and> canonical lc x \<and> \<not> in_chain x chain"
  by (auto simp: chain_ok_def in_chain_iff)

lemma cache_ok_chain:
  assumes "cache_ok s cache" and "chain_ok (s_lc s) chain" and "chain \<noteq> []"
    and "linked s repos chain" and "stays s repos (last chain)"
  shows "cache_ok s (snd (cache_chain chain repos cache))"
  unfolding cache_chain_def Let_def snd_conv
proof (rule cache_ok_from [OF assms(1)])
  fix j assume j: "j < length chain"
  have can: "canonical (s_lc s) x" if "x \<in> set chain" for x
    using assms(2) that by (auto simp: chain_ok_def list_all_iff)
  have ends: "same_text (last chain) (chain ! j) \<longleftrightarrow> Suc j = length chain"
    using assms(2,3) j nth_eq_iff_index_eq [of "map coord_text chain" j "length chain - 1"]
    by (auto simp: chain_ok_def same_text_def last_conv_nth)
  have "leads s repos (chain ! j) (drop (Suc j) chain)"
    using linked_leads [of s repos "chain ! j" "drop (Suc j) chain"] linked_drop [OF assms(4), of j] assms(5) j
    by (simp add: Cons_nth_drop_Suc last_drop)
  moreover have "drop j (chain_between chain) @ [last chain] = drop (Suc j) chain" if "Suc j < length chain"
    using that assms(3)
    by (simp add: chain_between_def drop_take) (metis Suc_diff_Suc append_butlast_last_id butlast_conv_take
        diff_Suc_1 drop_eq_Nil2 last_drop length_drop linorder_not_le)
  ultimately show "entry_ok s repos (chain ! j) (last chain, drop (0 + j) (chain_between chain))"
    using can j ends assms(3)
    by (cases "Suc j = length chain") (auto simp: entry_ok_def chain_between_def)
qed

section \<open>The cache changes no answer\<close>

fun is_cycle :: "ResolveError \<Rightarrow> bool" where
  "is_cycle (RelocationCycle t) = True"
| "is_cycle _ = False"

text \<open>The same answer, where failures of chains that cycle or are too long may differ in their text.\<close>

fun agree :: "ResolveError + 'a \<Rightarrow> ResolveError + 'a \<Rightarrow> bool" where
  "agree (Inr x) (Inr y) \<longleftrightarrow> x = y"
| "agree (Inl e) (Inl f) \<longleftrightarrow> e = f \<or> is_cycle e \<and> is_cycle f"
| "agree _ _ \<longleftrightarrow> False"

lemma agree_refl [simp]: "agree x x"
  by (cases x) simp_all

lemma agree_trans: "agree x z \<Longrightarrow> agree y z \<Longrightarrow> agree x y"
  by (cases x; cases y; cases z) auto

lemma is_cycle_error [simp]: "is_cycle (cycle_error chain x)"
  by (simp add: cycle_error_def)

lemma too_long_cases:
  "length chain \<le> MAX_RELOCATIONS + 1 \<Longrightarrow> too_long chain x = Inr ()"
  "length chain > MAX_RELOCATIONS + 1 \<Longrightarrow> \<exists>e. too_long chain x = Inl e \<and> is_cycle e"
  by (simp_all add: too_long_def)

text \<open>What is left of a round once its coordinate is in the chain and the cache does not know it.\<close>

definition go_on ::
  "Solver \<Rightarrow> Coord \<Rightarrow> RepoContext \<Rightarrow> Coord list \<Rightarrow> Coord \<Rightarrow> ResolvedVersion option \<Rightarrow> bool \<Rightarrow> Fetched cached" where
  "go_on s coord repos chain current inherited cacheable cache =
     (case map_err (at_hop chain) (fetch_build s current inherited repos) of
        Inl e \<Rightarrow> (Inl e, cache)
      | Inr (resolved, snapshot) \<Rightarrow>
          (case next_coord s current resolved of
             Inl e \<Rightarrow> (Inl e, cache)
           | Inr n \<Rightarrow>
               if same_text n current then
                 (case finish_chain cacheable chain repos cache of (hops, cache) \<Rightarrow>
                    (Inr (current, resolved, snapshot, hops, inherited \<noteq> None), cache))
               else case (if keeps_version resolved then snapshot else None) of
                 Some bld \<Rightarrow>
                   relocation_loop s coord repos chain n (Some \<lparr>rv_version = rv_version bld, rv_repo = None\<rparr>) False cache
               | None \<Rightarrow> relocation_loop s coord repos chain n None cacheable cache))"

lemma relocation_loop_go_on:
  "relocation_loop s coord repos chain current inherited cacheable cache =
     (if in_chain current chain then (Inl (cycle_error chain current), cache)
      else case too_long (chain @ [current]) coord of
        Inl e \<Rightarrow> (Inl e, cache)
      | Inr _ \<Rightarrow>
          (case (if inherited = None then map_of cache (coord_text current, repos) else None) of
             Some entry \<Rightarrow> from_cached s coord repos cacheable (chain @ [current]) current entry cache
           | None \<Rightarrow> go_on s coord repos (chain @ [current]) current inherited cacheable cache))"
  by (subst relocation_loop.simps) (simp add: go_on_def Let_def split: option.splits sum.splits)

text \<open>The end of a chain the cache knows, once its hops are in the chain.\<close>

definition finish_cached ::
  "Solver \<Rightarrow> Coord \<Rightarrow> RepoContext \<Rightarrow> bool \<Rightarrow> Coord \<Rightarrow> Coord list \<Rightarrow> Fetched cached" where
  "finish_cached s coord repos cacheable mapped chain cache =
     (case too_long chain coord of
        Inl e \<Rightarrow> (Inl e, cache)
      | Inr _ \<Rightarrow>
          (case map_err (at_hop chain) (fetch_build s mapped None repos) of
             Inl e \<Rightarrow> (Inl e, cache)
           | Inr (resolved, snapshot) \<Rightarrow>
               (case finish_chain cacheable chain repos cache of (hops, cache) \<Rightarrow>
                  (Inr (mapped, resolved, snapshot, hops, False), cache))))"

lemma insert_hops_append:
  "insert_hops (xs @ ys) chain = and_then (insert_hops xs chain) (insert_hops ys)"
  by (induction xs chain rule: insert_hops.induct) auto

lemma from_cached_hops:
  assumes "entry_ok s repos current entry"
  obtains ds where "leads s repos current ds"
    "from_cached s coord repos cacheable chain current entry cache =
       (case insert_hops ds chain of
          Inl e \<Rightarrow> (Inl e, cache)
        | Inr chain \<Rightarrow> finish_cached s coord repos cacheable (last (current # ds)) chain cache)"
proof -
  obtain mapped between where entry: "entry = (mapped, between)" by fastforce
  show ?thesis
  proof (cases "same_text mapped current")
    case True
    with assms entry have "mapped = current" "between = []" "leads s repos current []"
      using canonical_same [of "s_lc s" mapped current] by (auto simp: entry_ok_def)
    with entry True show ?thesis
      by (intro that [of "[]"]) (auto simp: from_cached_def finish_cached_def split: sum.splits)
  next
    case False
    with assms entry have "leads s repos current (between @ [mapped])" by (simp add: entry_ok_def)
    with entry False show ?thesis
      by (intro that [of "between @ [mapped]"])
        (auto simp: from_cached_def finish_cached_def insert_hops_append Let_def split: sum.splits)
  qed
qed

lemma insert_hops_length: "insert_hops ds chain = Inr chain' \<Longrightarrow> length chain' = length chain + length ds"
  by (induction ds chain rule: insert_hops.induct) (auto split: if_splits)

lemma insert_hops_error: "insert_hops ds chain = Inl e \<Longrightarrow> is_cycle e"
  by (induction ds chain rule: insert_hops.induct) (auto split: if_splits)

lemma finish_chain_uncached [simp]: "finish_chain False chain repos cache = (chain_between chain, cache)"
  by (simp add: finish_chain_def)

lemma fst_finish_chain: "fst (finish_chain cacheable chain repos cache) = chain_between chain"
  by (simp add: finish_chain_def cache_chain_def Let_def)

lemma along_leads:
  assumes "leads s repos current ds" and "length chain \<le> MAX_RELOCATIONS + 1"
  shows "agree
    (fst (case insert_hops ds chain of
       Inl e \<Rightarrow> (Inl e, [])
     | Inr chain \<Rightarrow> finish_cached s coord repos False (last (current # ds)) chain []))
    (fst (go_on s coord repos chain current None False []))"
  using assms
proof (induction ds arbitrary: current chain)
  case Nil
  then obtain p snapshot y where "fetch_build s current None repos = Inr (p, snapshot)"
    "next_coord s current p = Inr y" "same_text y current"
    by (auto simp: stays_def)
  with Nil show ?case by (simp add: finish_cached_def go_on_def too_long_cases map_err_def)
next
  case (Cons d ds)
  then obtain p snapshot where step: "fetch_build s current None repos = Inr (p, snapshot)"
    "next_coord s current p = Inr d" "\<not> same_text d current" "\<not> (keeps_version p \<and> snapshot \<noteq> None)"
    and rest: "leads s repos d ds" by (auto simp: relocates_def)
  have go: "go_on s coord repos chain current None False [] = relocation_loop s coord repos chain d None False []"
    using step by (auto simp: go_on_def map_err_def)
  show ?case
  proof (cases "in_chain d chain")
    case True
    then show ?thesis by (simp add: go relocation_loop_go_on)
  next
    case new: False
    show ?thesis
    proof (cases "length (chain @ [d]) \<le> MAX_RELOCATIONS + 1")
      case True
      have last: "last (current # d # ds) = last (d # ds)" by simp
      from Cons.IH [OF rest True] new True show ?thesis
        unfolding last by (simp add: go relocation_loop_go_on [of s coord repos chain d] too_long_cases)
    next
      case False
      then obtain e where e: "too_long (chain @ [d]) coord = Inl e" "is_cycle e"
        using too_long_cases(2) [of "chain @ [d]" coord] by auto
      then have right: "fst (go_on s coord repos chain current None False []) = Inl e"
        using new by (simp add: go relocation_loop_go_on)
      show ?thesis
      proof (cases "insert_hops ds (chain @ [d])")
        case (Inl f)
        then show ?thesis using right e new insert_hops_error [OF Inl] by simp
      next
        case (Inr full)
        then obtain f where "too_long full coord = Inl f" "is_cycle f"
          using False insert_hops_length [OF Inr] too_long_cases(2) [of full coord] by auto
        then show ?thesis using right e new Inr by (simp add: finish_cached_def)
      qed
    qed
  qed
qed

lemma fst_finish_cached:
  "fst (finish_cached s coord repos cacheable mapped chain cache) =
   fst (finish_cached s coord repos False mapped chain [])"
  using fst_finish_chain [of cacheable chain repos cache]
  by (auto simp: finish_cached_def split: sum.splits prod.splits)

lemma insert_hops_chain:
  "insert_hops ds chain = Inr full \<Longrightarrow> chain_ok lc chain \<Longrightarrow> list_all (canonical lc) ds \<Longrightarrow>
   full = chain @ ds \<and> chain_ok lc full"
  by (induction ds chain rule: insert_hops.induct) (auto split: if_splits)

lemma leads_canonical: "leads s repos x ds \<Longrightarrow> canonical (s_lc s) x \<Longrightarrow> list_all (canonical (s_lc s)) ds"
  by (induction ds arbitrary: x) (auto simp: relocates_def intro: next_coord_canonical)

lemma leads_linked: "leads s repos x ds \<Longrightarrow> linked s repos (x # ds) \<and> stays s repos (last (x # ds))"
  by (induction ds arbitrary: x) auto

lemma linked_append: "linked s repos (xs @ [x]) \<Longrightarrow> linked s repos (x # ys) \<Longrightarrow> linked s repos (xs @ x # ys)"
  by (induction s repos xs rule: linked.induct) auto

lemma cache_ok_finish:
  assumes "cache_ok s cache"
    and "cacheable \<Longrightarrow> chain_ok (s_lc s) chain \<and> chain \<noteq> [] \<and> linked s repos chain \<and> stays s repos (last chain)"
  shows "cache_ok s (snd (finish_chain cacheable chain repos cache))"
  using assms cache_ok_chain [of s cache chain repos] by (auto simp: finish_chain_def)

lemma cache_ok_finish_cached:
  assumes "cache_ok s cache"
    and "cacheable \<Longrightarrow> chain_ok (s_lc s) chain \<and> chain \<noteq> [] \<and> linked s repos chain \<and> stays s repos (last chain)"
  shows "cache_ok s (snd (finish_cached s coord repos cacheable mapped chain cache))"
proof -
  have "cache_ok s (snd (finish_chain cacheable chain repos cache))"
    by (rule cache_ok_finish [OF assms(1)]) (rule assms(2))
  with assms(1) show ?thesis by (auto simp: finish_cached_def split: sum.splits prod.splits)
qed

lemma cached_round:
  assumes cache: "cache_ok s cache" and chain: "chain_ok (s_lc s) (chain @ [current])"
    and linked: "cacheable \<Longrightarrow> linked s repos (chain @ [current])"
    and entry: "entry_ok s repos current entry" and short: "length (chain @ [current]) \<le> MAX_RELOCATIONS + 1"
  shows "agree (fst (from_cached s coord repos cacheable (chain @ [current]) current entry cache))
      (fst (go_on s coord repos (chain @ [current]) current None False [])) \<and>
    cache_ok s (snd (from_cached s coord repos cacheable (chain @ [current]) current entry cache))"
proof -
  obtain ds where ds: "leads s repos current ds"
    "from_cached s coord repos cacheable (chain @ [current]) current entry cache =
       (case insert_hops ds (chain @ [current]) of
          Inl e \<Rightarrow> (Inl e, cache)
        | Inr full \<Rightarrow> finish_cached s coord repos cacheable (last (current # ds)) full cache)"
    by (rule from_cached_hops [OF entry])
  have can: "list_all (canonical (s_lc s)) ds" using leads_canonical [OF ds(1)] chain by simp
  have "cache_ok s (snd (from_cached s coord repos cacheable (chain @ [current]) current entry cache))"
  proof (cases "insert_hops ds (chain @ [current])")
    case (Inr full)
    note full = insert_hops_chain [OF Inr chain can]
    have "cache_ok s (snd (finish_cached s coord repos cacheable (last (current # ds)) full cache))"
    proof (rule cache_ok_finish_cached [OF cache])
      assume cacheable
      with linked leads_linked [OF ds(1)] have "linked s repos (chain @ current # ds)" by (auto intro: linked_append)
      with full leads_linked [OF ds(1)] show "chain_ok (s_lc s) full \<and> full \<noteq> [] \<and> linked s repos full \<and>
          stays s repos (last full)"
        by auto
    qed
    with Inr ds(2) show ?thesis by simp
  qed (use ds(2) cache in simp)
  moreover have "fst (from_cached s coord repos cacheable (chain @ [current]) current entry cache) =
    fst (case insert_hops ds (chain @ [current]) of
       Inl e \<Rightarrow> (Inl e, [])
     | Inr chain \<Rightarrow> finish_cached s coord repos False (last (current # ds)) chain [])"
    unfolding ds(2) by (auto simp: fst_finish_cached [of s coord repos cacheable] split: sum.splits)
  ultimately show ?thesis using along_leads [OF ds(1) short] by simp
qed

lemma uncached_round:
  assumes cache: "cache_ok s cache" and ok: "chain_ok (s_lc s) (chain @ [current])"
    and first: "cacheable \<Longrightarrow> inherited = None \<and> linked s repos (chain @ [current])"
    and rest: "\<And>n inh c. canonical (s_lc s) n \<Longrightarrow> (c \<Longrightarrow> inh = None \<and> linked s repos (chain @ [current] @ [n])) \<Longrightarrow>
      agree (fst (relocation_loop s coord repos (chain @ [current]) n inh c cache))
        (fst (relocation_loop s coord repos (chain @ [current]) n inh False [])) \<and>
      cache_ok s (snd (relocation_loop s coord repos (chain @ [current]) n inh c cache))"
  shows "agree (fst (go_on s coord repos (chain @ [current]) current inherited cacheable cache))
      (fst (go_on s coord repos (chain @ [current]) current inherited False [])) \<and>
    cache_ok s (snd (go_on s coord repos (chain @ [current]) current inherited cacheable cache))"
proof (cases "fetch_build s current inherited repos")
  case (Inr r)
  then obtain p snapshot where fetched: "fetch_build s current inherited repos = Inr (p, snapshot)" by (cases r) auto
  show ?thesis
  proof (cases "next_coord s current p")
    case (Inr n)
    have can: "canonical (s_lc s) n" using next_coord_canonical [OF Inr] ok by simp
    consider (same) "same_text n current"
      | (pins) bld where "\<not> same_text n current" "(if keeps_version p then snapshot else None) = Some bld"
      | (moves) "\<not> same_text n current" "(if keeps_version p then snapshot else None) = None"
      by (cases "if keeps_version p then snapshot else None") auto
    then show ?thesis
    proof cases
      case same
      then have "cacheable \<Longrightarrow> stays s repos current" using fetched Inr first by (auto simp: stays_def)
      then have "cache_ok s (snd (finish_chain cacheable (chain @ [current]) repos cache))"
        using ok first by (intro cache_ok_finish [OF cache]) auto
      then show ?thesis
        using fetched Inr same fst_finish_chain [of cacheable "chain @ [current]" repos cache]
        by (auto simp: go_on_def map_err_def split: prod.splits)
    next
      case pins
      with fetched Inr show ?thesis
        using rest [OF can, of False "Some \<lparr>rv_version = rv_version bld, rv_repo = None\<rparr>"]
        by (simp add: go_on_def map_err_def)
    next
      case moves
      then have "cacheable \<Longrightarrow> linked s repos (chain @ [current] @ [n])"
        using first fetched Inr by (auto simp: linked_snoc relocates_def split: if_splits)
      with fetched Inr moves show ?thesis
        using rest [OF can, of cacheable None] by (simp add: go_on_def map_err_def)
    qed
  qed (use fetched cache in \<open>simp add: go_on_def map_err_def\<close>)
qed (use cache in \<open>simp add: go_on_def map_err_def\<close>)

lemma loop_agrees:
  assumes "cache_ok s cache" and "chain_ok (s_lc s) chain" and "canonical (s_lc s) current"
    and "cacheable \<Longrightarrow> inherited = None \<and> linked s repos (chain @ [current])"
  shows "agree (fst (relocation_loop s coord repos chain current inherited cacheable cache))
      (fst (relocation_loop s coord repos chain current inherited False [])) \<and>
    cache_ok s (snd (relocation_loop s coord repos chain current inherited cacheable cache))"
  using assms(2-)
proof (induction "MAX_RELOCATIONS + 2 - length chain" arbitrary: chain current inherited cacheable rule: less_induct)
  case less
  let ?chain = "chain @ [current]"
  show ?case
  proof (cases "in_chain current chain \<or> length ?chain > MAX_RELOCATIONS + 1")
    case True
    then show ?thesis
      using assms(1) too_long_cases(2) [of ?chain coord] by (auto simp: relocation_loop_go_on)
  next
    case False
    then have ok: "chain_ok (s_lc s) ?chain" and short: "length ?chain \<le> MAX_RELOCATIONS + 1"
      and smaller: "MAX_RELOCATIONS + 2 - length ?chain < MAX_RELOCATIONS + 2 - length chain"
      using less.prems(1,2) by auto
    have go: "agree (fst (go_on s coord repos ?chain current inherited cacheable cache))
        (fst (go_on s coord repos ?chain current inherited False [])) \<and>
      cache_ok s (snd (go_on s coord repos ?chain current inherited cacheable cache))"
    proof (rule uncached_round)
      show "cache_ok s cache" "chain_ok (s_lc s) ?chain" by (rule assms(1), rule ok)
      show "inherited = None \<and> linked s repos ?chain" if cacheable using less.prems(3) that .
    next
      fix n c and inh :: "ResolvedVersion option"
      assume "canonical (s_lc s) n" "c \<Longrightarrow> inh = None \<and> linked s repos (chain @ [current] @ [n])"
      then show "agree (fst (relocation_loop s coord repos ?chain n inh c cache))
          (fst (relocation_loop s coord repos ?chain n inh False [])) \<and>
        cache_ok s (snd (relocation_loop s coord repos ?chain n inh c cache))"
        using less.hyps [OF smaller ok, of n c inh] by simp
    qed
    have unfold: "relocation_loop s coord repos chain current inherited c m =
      (case (if inherited = None then map_of m (coord_text current, repos) else None) of
         Some entry \<Rightarrow> from_cached s coord repos c ?chain current entry m
       | None \<Rightarrow> go_on s coord repos ?chain current inherited c m)" for c m
      using False short by (simp add: relocation_loop_go_on too_long_cases)
    show ?thesis
    proof (cases "if inherited = None then map_of cache (coord_text current, repos) else None")
      case None
      with go show ?thesis unfolding unfold by (cases inherited) simp_all
    next
      case (Some entry)
      then have none: "inherited = None" and found: "map_of cache (coord_text current, repos) = Some entry"
        by (auto split: if_splits)
      have "cacheable \<Longrightarrow> linked s repos ?chain" using less.prems(3) by blast
      with cached_round [where cacheable = cacheable and coord = coord,
          OF assms(1) ok _ cache_ok_lookup [OF assms(1) found less.prems(2)] short]
      show ?thesis unfolding unfold by (simp add: none found)
    qed
  qed
qed

text \<open>
  Property C12. The relocation cache changes no answer: whatever chains were followed before, the project at the end
  of a chain, its hops and its failures are what following the chain without a cache gives, but for the
  wording of a failure about a cycle or an overlong chain. The cache that is handed on is sound again.
\<close>

theorem relocation_cache_transparent:
  assumes "cache_ok s cache" and "canonical (s_lc s) coord"
  shows "agree (fst (fetch_project_with_relocation_cached s coord repos cache))
      (fst (fetch_project_with_relocation_cached s coord repos [])) \<and>
    cache_ok s (snd (fetch_project_with_relocation_cached s coord repos cache))"
proof -
  have start: "chain_ok (s_lc s) []" "linked s repos ([] @ [coord])" by (simp_all add: chain_ok_def)
  note loop = loop_agrees [OF _ start(1) assms(2), where cacheable = True and inherited = None and repos = repos]
  show ?thesis
    using loop [OF assms(1), of coord] loop [of "[]" coord] start(2)
    by (auto simp: fetch_project_with_relocation_cached_def intro: agree_trans)
qed

text \<open>A chain that came to its end, without the cache.\<close>

definition ended :: "Solver \<Rightarrow> Coord list \<Rightarrow> Fetched \<Rightarrow> bool" where
  "ended s full r =
     (case r of (final, p, snapshot, hops, pinned) \<Rightarrow>
        full \<noteq> [] \<and> last full = final \<and> hops = chain_between full \<and> length full \<le> MAX_RELOCATIONS + 1 \<and>
        distinct (map coord_text full) \<and> (\<exists>n. next_coord s final p = Inr n \<and> same_text n final))"

lemma uncached_ended:
  assumes "fst (relocation_loop s coord repos chain current inherited cacheable []) = Inr r"
    and "distinct (map coord_text chain)"
  shows "\<exists>rest. ended s (chain @ current # rest) r"
  using assms
proof (induction "MAX_RELOCATIONS + 2 - length chain" arbitrary: chain current inherited cacheable rule: less_induct)
  case less
  let ?chain = "chain @ [current]"
  have new: "\<not> in_chain current chain" and short: "length ?chain \<le> MAX_RELOCATIONS + 1"
    using less.prems(1) by (auto simp: relocation_loop_go_on too_long_def split: if_splits sum.splits)
  then have go: "fst (go_on s coord repos ?chain current inherited cacheable []) = Inr r"
    and d: "distinct (map coord_text ?chain)"
    using less.prems by (auto simp: relocation_loop_go_on too_long_cases in_chain_iff split: if_splits)
  then obtain p snapshot n where p: "fetch_build s current inherited repos = Inr (p, snapshot)"
    "next_coord s current p = Inr n"
    by (auto simp: go_on_def map_err_def split: sum.splits)
  show ?case
  proof (cases "same_text n current")
    case True
    with go p d short fst_finish_chain [of cacheable ?chain repos "[]"] show ?thesis
      by (intro exI [of _ "[]"]) (auto simp: go_on_def map_err_def ended_def split: prod.splits)
  next
    case False
    then obtain inh c where "fst (relocation_loop s coord repos ?chain n inh c []) = Inr r"
      using go p by (auto simp: go_on_def map_err_def split: option.splits)
    moreover have "MAX_RELOCATIONS + 2 - length ?chain < MAX_RELOCATIONS + 2 - length chain" using short by simp
    ultimately obtain rest where "ended s (?chain @ n # rest) r"
      using less.hyps d by blast
    then show ?thesis by (intro exI [of _ "n # rest"]) simp
  qed
qed

text \<open>
  Property C19. A chain of relocations ends: the answer is a project that relocates no further, after at most 32
  relocations over coordinates that are all different. The hops that are reported are those between the
  coordinate asked for and the last one.
\<close>

theorem relocation_chain_bounded:
  assumes "cache_ok s cache" and "canonical (s_lc s) coord"
    and "fst (fetch_project_with_relocation_cached s coord repos cache) = Inr (final, p, snapshot, hops, pinned)"
  shows "length hops < MAX_RELOCATIONS \<and> (\<exists>n. next_coord s final p = Inr n \<and> same_text n final) \<and>
    (final = coord \<and> hops = [] \<or> distinct (map coord_text (coord # hops @ [final])))"
proof -
  have "agree (fst (fetch_project_with_relocation_cached s coord repos cache))
      (fst (fetch_project_with_relocation_cached s coord repos []))"
    using loop_agrees [OF assms(1) _ assms(2), of "[]" True None repos coord]
      loop_agrees [OF cache_ok_Nil _ assms(2), of "[]" True None repos coord]
    by (auto simp: fetch_project_with_relocation_cached_def chain_ok_def intro: agree_trans)
  then have "fst (fetch_project_with_relocation_cached s coord repos []) = Inr (final, p, snapshot, hops, pinned)"
    unfolding assms(3) by (auto elim: agree.elims)
  from uncached_ended [OF this [unfolded fetch_project_with_relocation_cached_def]]
  obtain rest where e: "ended s (coord # rest) (final, p, snapshot, hops, pinned)" by auto
  show ?thesis
  proof (cases rest rule: rev_cases)
    case Nil
    with e show ?thesis by (simp add: ended_def chain_between_def MAX_RELOCATIONS_def)
  next
    case (snoc ys y)
    with e show ?thesis by (auto simp: ended_def chain_between_def)
  qed
qed

text \<open>A backend of one repository for examples, where \<^verbatim>\<open>g:a\<close> relocates to \<^verbatim>\<open>g:b\<close> and \<^verbatim>\<open>g:b\<close> to \<^verbatim>\<open>g:c\<close>.\<close>

definition plain_coord :: "string \<Rightarrow> string \<Rightarrow> Coord" where
  "plain_coord a v =
     \<lparr>group_id = ''g'', artifact_id = a, version = Version_unresolved to_ascii_lowercase v, packaging = None,
      classifier = None\<rparr>"

definition project_at :: "string \<Rightarrow> string option \<Rightarrow> ResolvedProject" where
  "project_at a to =
     \<lparr>rp_project = (Project_new ''g'' a ''1'')\<lparr>pr_relocation := map_option (\<lambda>t.
        \<lparr>rel_group_id = None, rel_artifact_id = Some t, rel_version = None, rel_message = None\<rparr>) to\<rparr>,
      rp_repo_url = None, rp_workspace_module = None\<rparr>"

definition example_backend :: "(Coord \<Rightarrow> ResolvedProject) \<Rightarrow> Backend" where
  "example_backend project =
     \<lparr>b_workspace_module = \<lambda>_. None, b_is_reactor_module = \<lambda>_ _ _. False,
      b_resolve_version = \<lambda>_ _ _ _. Inl NoRepositories, b_resolve_versions = \<lambda>_ _ _ _. Inl NoRepositories,
      b_resolve_snapshot_version = \<lambda>_ _. Inl NoRepositories, b_fetch_project = \<lambda>x _ _. Inr (project x),
      b_extend_repo_context = \<lambda>repos _ _. repos, b_dropped_repos_on_path = \<lambda>_ _ _. [],
      b_prefetches = False, b_note_winner = \<lambda>_ _. Inr ()\<rparr>"

definition relocating_project :: "Coord \<Rightarrow> ResolvedProject" where
  "relocating_project x =
     (if artifact_id x = ''a'' then project_at ''a'' (Some ''b'')
      else if artifact_id x = ''b'' then project_at ''b'' (Some ''c'') else project_at ''c'' None)"

definition relocating :: Solver where
  "relocating =
     \<lparr>s_backend = example_backend relocating_project, s_management = [], s_lc = to_ascii_lowercase\<rparr>"

lemma canonical_plain_coord [simp]: "canonical (s_lc relocating) (plain_coord a v)"
  by (simp add: canonical_def plain_coord_def relocating_def Version_unresolved_def Let_def)

lemma relocating_chain:
  "fst (fetch_project_with_relocation_cached relocating (plain_coord ''a'' ''1'') [] []) =
     Inr (plain_coord ''c'' ''1'', project_at ''c'' None, None, [plain_coord ''b'' ''1''], False)"
  by code_simp

theorem relocation_chain_bounded_witness:
  "\<exists>n. next_coord relocating (plain_coord ''c'' ''1'') (project_at ''c'' None) = Inr n \<and>
     same_text n (plain_coord ''c'' ''1'')"
  using relocation_chain_bounded [OF cache_ok_Nil canonical_plain_coord relocating_chain] by blast

theorem relocation_cache_transparent_witness:
  "agree (fst (fetch_project_with_relocation_cached relocating (plain_coord ''b'' ''1'') []
       (snd (fetch_project_with_relocation_cached relocating (plain_coord ''a'' ''1'') [] []))))
     (fst (fetch_project_with_relocation_cached relocating (plain_coord ''b'' ''1'') [] []))"
proof -
  have "cache_ok relocating (snd (fetch_project_with_relocation_cached relocating (plain_coord ''a'' ''1'') [] []))"
    using relocation_cache_transparent [OF cache_ok_Nil canonical_plain_coord] by blast
  from relocation_cache_transparent [OF this canonical_plain_coord] show ?thesis by blast
qed

end
