(* ===== verification/Candidate_Load.thy ===== *)
theory Candidate_Load
  imports Relocation_Chain
begin

text \<open>
  Reading a queued declaration, the second half of \<^verbatim>\<open>rv-resolver/src/solver/mod.rs\<close>: the candidate a
  declaration resolves to, the load of its project with the relocations and the management that apply
  again to a relocation's target, and the hints the solver derives for its backend.
\<close>

section \<open>Definitions\<close>

record Candidate =
  c_item :: QueueItem
  c_coord :: Coord
  c_resolved :: ResolvedVersion
  c_resolved_project :: "ResolvedProject option"
  c_hard :: "Hard option"
  c_source :: "nat list"
  c_inherited :: "CoordKey list"

record Resolution =
  r_candidate :: Candidate
  r_alternatives :: "ResolvedVersion list"
  r_aliases :: "CoordKey list"

datatype Load = Ready Candidate | Relocated Resolution | Cyclic Resolution | Excluded

definition MAX_RELOCATION_MANAGEMENT_PASSES :: nat where
  "MAX_RELOCATION_MANAGEMENT_PASSES = 8"

definition stub_project :: "Coord \<Rightarrow> ResolvedProject" where
  "stub_project x =
     \<lparr>rp_project = Project_new (group_id x) (artifact_id x) (original (version x)), rp_repo_url = None,
      rp_workspace_module = None\<rparr>"

definition system_candidate :: "QueueItem \<Rightarrow> Coord \<Rightarrow> ResolveError + Candidate" where
  "system_candidate item coord =
     (if (case d_system_path (q_dependency item) of None \<Rightarrow> True | Some path \<Rightarrow> trim path = [])
      then Inl (Pom (InvalidSystemPath
        (''system-scoped dependency '' @ bounded (d_group_id (q_dependency item)) @ '':'' @
         bounded (d_artifact_id (q_dependency item)) @ '' requires a non-empty <systemPath>'')))
      else Inr \<lparr>c_item = item, c_coord = coord,
                c_resolved = \<lparr>rv_version = version coord, rv_repo = None\<rparr>,
                c_resolved_project = Some (stub_project coord), c_hard = None, c_source = [0],
                c_inherited = []\<rparr>)"

definition attach_dropped_repos :: "Solver \<Rightarrow> QueueItem \<Rightarrow> Coord \<Rightarrow> ResolveError \<Rightarrow> ResolveError" where
  "attach_dropped_repos s item coord err =
     (case err of
        ArtifactNotFound failed searched dropped classifier_like \<Rightarrow>
          ArtifactNotFound failed searched
            (dropped @ b_dropped_repos_on_path (s_backend s) (coordinates (q_path item))
                         (original (version coord)) searched)
            classifier_like
      | _ \<Rightarrow> err)"

text \<open>The closure \<^verbatim>\<open>fetch\<close> of \<^verbatim>\<open>load_declared\<close>, for the coordinate the candidate requested.\<close>

definition fetch_for ::
  "Solver \<Rightarrow> QueueItem \<Rightarrow> Coord \<Rightarrow> Coord \<Rightarrow>
   (Coord \<times> ResolvedProject \<times> ResolvedVersion option \<times> Coord list) cached" where
  "fetch_for s item requested coord cache =
     (case fetch_project_with_relocation_cached s coord (p_repos (q_path item)) cache of
        (Inl err, cache) \<Rightarrow>
          (let err = attach_dropped_repos s item coord err
           in (Inl (if same_text coord requested then err else in_model_of err coord), cache))
      | (Inr (target, project, snapshot, between, inherited_build), cache) \<Rightarrow>
          (Inr (case snapshot of
                  Some bld \<Rightarrow> if inherited_build then target\<lparr>version := rv_version bld\<rparr> else target
                | None \<Rightarrow> target, project, snapshot, between), cache))"

subsection \<open>The passes over a relocation's target\<close>

record LoadState =
  ls_target :: Coord
  ls_project :: ResolvedProject
  ls_snapshot :: "ResolvedVersion option"
  ls_resolved :: ResolvedVersion
  ls_inherited :: "CoordKey list"
  ls_dependency :: Dependency
  ls_managed_scope :: bool
  ls_hard :: "Hard option"
  ls_alternatives :: "ResolvedVersion list"
  ls_listed_for :: "Coord option"
  ls_aliases :: "CoordKey list"
  ls_previous :: Coord

text \<open>A pass leaves the loop, cyclic or not, returns a load, or starts the next pass.\<close>

datatype pass_outcome = Leave bool LoadState | Return Load | Again LoadState

definition too_managed :: "Coord \<Rightarrow> Coord \<Rightarrow> ResolveError" where
  "too_managed coord target =
     RelocationCycle (Coord_display coord @ arrow @ Coord_display target @ '' (more than '' @
       to_string MAX_RELOCATION_MANAGEMENT_PASSES @ '' managed relocations)'')"

definition managed_system ::
  "Solver \<Rightarrow> Candidate \<Rightarrow> LoadState \<Rightarrow> string option \<Rightarrow> ResolveError + pass_outcome" where
  "managed_system s cand st v =
     (let item = (c_item cand)\<lparr>q_dependency := ls_dependency st, q_managed_scope := ls_managed_scope st\<rparr>;
          target = ls_target st
      in and_then (case v of
           Some v \<Rightarrow>
             and_then (requested_versions s (group_id target) (artifact_id target) v (p_repos (q_path item)))
               (\<lambda>(requirement, versions, highest).
                  Inr (versions, rv_version highest, hard_constraint requirement))
         | None \<Rightarrow> Inr ([], version target, None)) (\<lambda>(versions, v, hard).
         and_then (system_candidate item (target\<lparr>version := v\<rparr>)) (\<lambda>candidate.
         Inr (Return (Relocated
           \<lparr>r_candidate = candidate\<lparr>c_hard := hard, c_source := [length versions]\<rparr>,
            r_alternatives = versions, r_aliases = ls_aliases st\<rparr>)))))"

text \<open>
  A target managed to a version: a range whose lowest version relocates, off the path, is that version alone;
  any other range is handed back to be mediated as one; a fixed version is fetched and may relocate again.
\<close>

definition managed_fixed ::
  "Solver \<Rightarrow> Candidate \<Rightarrow> LoadState \<Rightarrow> RequestedRequirement \<Rightarrow> ResolvedVersion list \<Rightarrow> ResolvedVersion \<Rightarrow>
   Coord \<Rightarrow> pass_outcome cached" where
  "managed_fixed s cand st requirement versions resolved mg =
     (let st = st\<lparr>ls_resolved := resolved, ls_hard := hard_constraint requirement,
                  ls_alternatives := versions, ls_listed_for := Some mg\<rparr>
      in if same_text mg (ls_target st) then cret (Inr (Leave False st))
         else cbind (fetch_for s (c_item cand) (c_coord cand) mg) (\<lambda>(target, project, snapshot, between).
           let st = st\<lparr>ls_previous := mg, ls_target := target, ls_project := project, ls_snapshot := snapshot\<rparr>
           in if same_text target mg then cret (Inr (Leave False st))
              else cret (Inr (Again (st\<lparr>ls_inherited := ls_aliases st,
                     ls_aliases := map CoordKey_from (mg # between),
                     ls_hard := None, ls_alternatives := []\<rparr>)))))"

definition managed_range ::
  "Solver \<Rightarrow> Candidate \<Rightarrow> LoadState \<Rightarrow> RequestedRequirement \<Rightarrow> ResolvedVersion list \<Rightarrow> ResolvedVersion \<Rightarrow>
   ResolveError + pass_outcome" where
  "managed_range s cand st requirement versions highest =
     (let mg = (ls_target st)\<lparr>version := rv_version highest\<rparr> in
      if length (c_source cand) \<ge> MAX_RELOCATION_MANAGEMENT_PASSES
      then Inl (too_managed (c_coord cand) mg)
      else Inr (Return (Relocated
        \<lparr>r_candidate =
           \<lparr>c_item = (c_item cand)\<lparr>q_dependency := ls_dependency st, q_managed_scope := ls_managed_scope st\<rparr>,
            c_coord = mg, c_resolved = highest, c_resolved_project = None,
            c_hard = hard_constraint requirement, c_source = c_source cand @ [length versions],
            c_inherited = ls_aliases st\<rparr>,
         r_alternatives = versions, r_aliases = ls_aliases st\<rparr>)))"

definition managed_version :: "Solver \<Rightarrow> Candidate \<Rightarrow> LoadState \<Rightarrow> string \<Rightarrow> pass_outcome cached" where
  "managed_version s cand st v =
     (let target = ls_target st; path = q_path (c_item cand) in
      cbind (cret (requested_versions s (group_id target) (artifact_id target) v (p_repos path)))
        (\<lambda>(requirement, versions, highest).
        case requirement of
          RRanges _ \<Rightarrow>
            (let lowest = (case versions of w # _ \<Rightarrow> w | [] \<Rightarrow> highest);
                 coord = target\<lparr>version := rv_version lowest\<rparr>
             in cbind (fetch_for s (c_item cand) (c_coord cand) coord) (\<lambda>(end', _).
                if \<not> same_text end' coord \<and> \<not> path_contains path (CoordKey_from end')
                then managed_fixed s cand st requirement [] lowest coord
                else cret (managed_range s cand st requirement versions highest)))
        | _ \<Rightarrow> managed_fixed s cand st requirement versions highest
                 (target\<lparr>version := rv_version highest\<rparr>)))"

definition relocation_pass :: "Solver \<Rightarrow> Candidate \<Rightarrow> LoadState \<Rightarrow> pass_outcome cached" where
  "relocation_pass s cand st =
     (let item = c_item cand; target = ls_target st in
      if path_contains (q_path item) (CoordKey_from target) then cret (Inr (Leave True st))
      else if excludes (q_exclusions item) (group_id target) (artifact_id target)
      then cret (Inr (Return Excluded))
      else if q_depth item > 1 \<and> \<not> is_followed_transitively (ls_dependency st)
      then cret (Inr (Return Excluded))
      else if group_id target = group_id (ls_previous st) \<and> artifact_id target = artifact_id (ls_previous st)
      then cret (Inr (Leave False st))
      else case management_entry (s_management s) (group_id target) (artifact_id target)
                  (q_dependency item) of
        None \<Rightarrow> cret (Inr (Leave False (st\<lparr>ls_managed_scope := False\<rparr>)))
      | Some mg \<Rightarrow>
          let (dep, scope_managed) = manage mg (ls_dependency st) (q_depth item);
              st = st\<lparr>ls_dependency := dep, ls_managed_scope := scope_managed\<rparr>;
              v = (if q_depth item > 1 then d_version mg else None)
          in if effective_scope dep = System then cret (managed_system s cand st v)
             else case v of
               None \<Rightarrow> cret (Inr (Leave False st))
             | Some v \<Rightarrow> managed_version s cand st v)"

text \<open>What is left of a load once the loop is left.\<close>

definition finish_load :: "Candidate \<Rightarrow> bool \<Rightarrow> LoadState \<Rightarrow> Load" where
  "finish_load cand cyclic st =
     (let resolved = (if (case ls_listed_for st of None \<Rightarrow> True
                          | Some listed \<Rightarrow> \<not> same_text listed (ls_target st))
                      then \<lparr>rv_version = version (ls_target st), rv_repo = None\<rparr> else ls_resolved st);
          resolved = (case ls_snapshot st of
                        Some snap \<Rightarrow> \<lparr>rv_version = rv_version snap, rv_repo = rv_repo snap\<rparr>
                      | None \<Rightarrow> resolved);
          resolution =
            \<lparr>r_candidate =
               \<lparr>c_item = (c_item cand)\<lparr>q_dependency := ls_dependency st, q_managed_scope := ls_managed_scope st\<rparr>,
                c_coord = ls_target st, c_resolved = resolved, c_resolved_project = Some (ls_project st),
                c_hard = ls_hard st, c_source = c_source cand, c_inherited = ls_inherited st\<rparr>,
             r_alternatives = ls_alternatives st, r_aliases = ls_aliases st\<rparr>
      in if cyclic then Cyclic resolution else Relocated resolution)"

text \<open>The passes, counted down: none left is the error of the code's pass limit.\<close>

fun relocation_passes :: "nat \<Rightarrow> Solver \<Rightarrow> Candidate \<Rightarrow> LoadState \<Rightarrow> Load cached" where
  "relocation_passes 0 s cand st = cret (Inl (too_managed (c_coord cand) (ls_target st)))"
| "relocation_passes (Suc n) s cand st =
     cbind (relocation_pass s cand st) (\<lambda>outcome.
       case outcome of
         Leave cyclic st \<Rightarrow> cret (Inr (finish_load cand cyclic st))
       | Return load \<Rightarrow> cret (Inr load)
       | Again st \<Rightarrow> relocation_passes n s cand st)"

definition load_declared :: "Solver \<Rightarrow> Candidate \<Rightarrow> Load cached" where
  "load_declared s cand =
     cbind (fetch_for s (c_item cand) (c_coord cand) (c_coord cand)) (\<lambda>(target, project, snapshot, between).
     if same_text target (c_coord cand) then
       cret (Inr (Ready (cand\<lparr>c_resolved := (case snapshot of
                                  Some snap \<Rightarrow> \<lparr>rv_version = rv_version snap, rv_repo = rv_repo snap\<rparr>
                                | None \<Rightarrow> c_resolved cand),
                         c_resolved_project := Some project\<rparr>)))
     else relocation_passes MAX_RELOCATION_MANAGEMENT_PASSES s cand
       \<lparr>ls_target = target, ls_project = project, ls_snapshot = snapshot, ls_resolved = c_resolved cand,
        ls_inherited = c_inherited cand, ls_dependency = q_dependency (c_item cand),
        ls_managed_scope = q_managed_scope (c_item cand), ls_hard = None, ls_alternatives = [],
        ls_listed_for = None, ls_aliases = map CoordKey_from (c_coord cand # between),
        ls_previous = c_coord cand\<rparr>)"

text \<open>The failure of a load, named by the path to the candidate and, for a fault of its own model, by it.\<close>

definition load_error :: "Candidate \<Rightarrow> ResolveError \<Rightarrow> ResolveError" where
  "load_error cand err =
     (let (target, err) = (case err of
            Declared module via error \<Rightarrow> if module = [] then (via, error) else ([], err)
          | _ \<Rightarrow> ([], err));
          own = (case cause err of Pom _ \<Rightarrow> True | _ \<Rightarrow> False)
      in declared_via err (tl (coordinates (q_path (c_item cand))) @
           (if own then [gav_text (c_coord cand)] else []) @ target))"

definition load_candidate :: "Solver \<Rightarrow> Candidate \<Rightarrow> Load cached" where
  "load_candidate s cand cache =
     (if names_property (c_coord cand)
      then (Inr (Ready (cand\<lparr>c_resolved_project := Some (stub_project (c_coord cand))\<rparr>)), cache)
      else case load_declared s cand cache of (r, cache) \<Rightarrow> (map_err (load_error cand) r, cache))"

definition declared_below :: "ResolveError \<Rightarrow> PathNode \<Rightarrow> ResolveError" where
  "declared_below err path = declared_via err (tl (coordinates path))"

subsection \<open>Reading a declaration\<close>

definition lone :: "Candidate \<Rightarrow> Resolution" where
  "lone candidate = \<lparr>r_candidate = candidate, r_alternatives = [], r_aliases = []\<rparr>"

definition fresh_candidate :: "QueueItem \<Rightarrow> ResolvedVersion \<Rightarrow> Hard option \<Rightarrow> nat \<Rightarrow> Candidate" where
  "fresh_candidate item resolved hard pos =
     \<lparr>c_item = item, c_coord = coord_of (q_dependency item) (rv_version resolved), c_resolved = resolved,
      c_resolved_project = None, c_hard = hard, c_source = [pos], c_inherited = []\<rparr>"

definition skipped :: "QueueItem \<Rightarrow> QueueItem \<Rightarrow> bool" where
  "skipped declared item \<longleftrightarrow>
     is_excluded (q_dependency item) (q_exclusions item) \<or>
     q_depth item > 1 \<and> \<not> is_followed_transitively (q_dependency declared)"

definition resolve_read ::
  "Solver \<Rightarrow> QueueItem \<Rightarrow> string \<Rightarrow> Resolution option cached" where
  "resolve_read s item version_str =
     (let dep = q_dependency item in
      cbind (cret (requested_versions s (d_group_id dep) (d_artifact_id dep) version_str
                     (p_repos (q_path item)))) (\<lambda>(requirement, versions, resolved).
      if effective_scope dep = System then
        cret (and_then (system_candidate item (coord_of dep (rv_version resolved))) (\<lambda>candidate.
          Inr (Some \<lparr>r_candidate = candidate\<lparr>c_hard := hard_constraint requirement,
                                            c_source := [length versions]\<rparr>,
                     r_alternatives = versions, r_aliases = []\<rparr>)))
      else
        let candidate = fresh_candidate item resolved (hard_constraint requirement) (length versions) in
        case requirement of
          RRanges _ \<Rightarrow>
            cret (Inr (Some \<lparr>r_candidate = candidate, r_alternatives = versions, r_aliases = []\<rparr>))
        | _ \<Rightarrow>
            cbind (load_candidate s candidate) (\<lambda>load.
              cret (Inr (case load of
                Ready candidate \<Rightarrow> Some (lone candidate)
              | Relocated resolution \<Rightarrow> Some resolution
              | Cyclic resolution \<Rightarrow> Some resolution
              | Excluded \<Rightarrow> None)))))"

definition resolve_item :: "Solver \<Rightarrow> QueueItem \<Rightarrow> Resolution option cached" where
  "resolve_item s declared =
     (let item = apply_managed_metadata (s_management s) declared; dep = q_dependency item in
      if skipped declared item \<or> effective_scope dep = Import then cret (Inr None)
      else cbind (cret (resolve_version_str (s_management s) dep (q_depth item))) (\<lambda>version_str.
        case refuse_undefined_property s item version_str of
          Inl error \<Rightarrow>
            if q_depth item = 1 \<or> effective_scope dep = System \<or> starts_range version_str
            then cret (Inl error)
            else cret (Inr (Some (lone (fresh_candidate item
                   \<lparr>rv_version = Version_unresolved (s_lc s) version_str, rv_repo = None\<rparr> None 0))))
        | Inr _ \<Rightarrow> resolve_read s item version_str))"

subsection \<open>Hints for the backend\<close>

definition prefetch_requirement ::
  "Solver \<Rightarrow> QueueItem \<Rightarrow> (Dependency \<times> RequestedRequirement) option" where
  "prefetch_requirement s declared =
     (let item = apply_managed_metadata (s_management s) declared; dep = q_dependency item in
      if skipped declared item \<or> effective_scope dep \<in> set [Import, System] then None
      else case resolve_version_str (s_management s) dep (q_depth item) of
        Inl _ \<Rightarrow> None
      | Inr version_str \<Rightarrow>
          (case parse_requested_requirement (s_lc s) (d_group_id dep) (d_artifact_id dep) version_str of
             Inl _ \<Rightarrow> None
           | Inr requirement \<Rightarrow> Some (dep, requirement)))"

definition fixed_coord :: "Dependency \<Rightarrow> RequestedRequirement \<Rightarrow> Coord option" where
  "fixed_coord dep requirement =
     (case (case requirement of RExact v \<Rightarrow> Some v | RSoft v \<Rightarrow> Some v | _ \<Rightarrow> None) of
        None \<Rightarrow> None
      | Some v \<Rightarrow> if resolves_through_snapshot_metadata (original v) then None else Some (coord_of dep v))"

definition prefetch_coord :: "Solver \<Rightarrow> QueueItem \<Rightarrow> Coord option" where
  "prefetch_coord s item =
     Option.bind (prefetch_requirement s item) (\<lambda>(dep, requirement). fixed_coord dep requirement)"

end
