(* ===== verification/Mediation.thy ===== *)
theory Mediation
  imports Candidate_Load
begin

text \<open>
  Conflict mediation within one group, the type \<^verbatim>\<open>Selected\<close> of \<^verbatim>\<open>rv-resolver/src/solver/mod.rs\<close>: the
  candidates of a group, their rank, the winner every hard constraint accepts, and the ranges that have to
  be read before the winner is final. An \<^verbatim>\<open>Arc<Candidate>\<close> is a candidate with the number of its
  allocation, which \<^verbatim>\<open>Arc::ptr_eq\<close> compares.
\<close>

section \<open>Definitions\<close>

type_synonym ArcCandidate = "nat \<times> Candidate"

abbreviation ptr_eq :: "ArcCandidate \<Rightarrow> ArcCandidate \<Rightarrow> bool" where
  "ptr_eq a b \<equiv> fst a = fst b"

abbreviation declared_at :: "Candidate \<Rightarrow> nat" where
  "declared_at c \<equiv> q_declared_at (c_item c)"

abbreviation is_shadow :: "Candidate \<Rightarrow> bool" where
  "is_shadow c \<equiv> q_shadow (c_item c) \<noteq> None"

subsection \<open>Candidates\<close>

text \<open>Nearest first; then the parents' order; then the highest version; then the order.\<close>

definition rank_cmp :: "Candidate \<Rightarrow> Candidate \<Rightarrow> ordering" where
  "rank_cmp a b =
     then_ord (cmp_of (q_depth (c_item a)) (q_depth (c_item b)))
     (then_ord (order_cmp (order_parent (q_order (c_item a))) (order_parent (q_order (c_item b))))
     (then_ord (Version_cmp (version (c_coord b)) (version (c_coord a)))
     (then_ord (order_cmp (q_order (c_item a)) (q_order (c_item b)))
       (cmp_of (declared_at a) (declared_at b)))))"

definition same :: "Candidate \<Rightarrow> Candidate \<Rightarrow> bool" where
  "same a b \<longleftrightarrow> order_eq (q_order (c_item a)) (q_order (c_item b)) \<and> same_text (c_coord a) (c_coord b)"

definition candidate_scope :: "Candidate \<Rightarrow> Scope" where
  "candidate_scope c = effective_scope (q_dependency (c_item c))"

definition candidate_follows :: "Candidate \<Rightarrow> bool" where
  "candidate_follows c = follows (q_dependency (c_item c))"

definition accepts :: "Hard \<Rightarrow> Candidate \<Rightarrow> bool" where
  "accepts h c = VersionReq_matches (h_req h) (version (c_coord c))"

subsection \<open>Groups\<close>

record Conflict =
  cf_coord :: string
  cf_requested :: string
  cf_selected :: string
  cf_at :: SortKey

record Settled =
  st_nearer :: "ArcCandidate list"
  st_rejects :: "(string \<times> bool) list"

record Selected =
  sel_node :: NodeIndex
  sel_candidates :: "ArcCandidate list"
  sel_winner :: "ArcCandidate option"
  sel_winner_path :: "PathNode option"
  sel_scanned :: "nat set"
  sel_walked :: "nat set"
  sel_dirty_checked :: "nat set"
  sel_conflict :: "Conflict option"
  sel_winners :: "(TreeOrder \<times> string) list"
  sel_changes :: nat
  sel_settled :: "Settled option"

definition Selected_new :: "NodeIndex \<Rightarrow> ArcCandidate list \<Rightarrow> Selected" where
  "Selected_new n candidates =
     \<lparr>sel_node = n, sel_candidates = candidates, sel_winner = None, sel_winner_path = None,
      sel_scanned = {}, sel_walked = {}, sel_dirty_checked = {}, sel_conflict = None,
      sel_winners = [], sel_changes = 0, sel_settled = None\<rparr>"

text \<open>The memoized test whether a constraint rejects a candidate nearer than the settled winner.\<close>

definition settled_rejects :: "Settled \<Rightarrow> Hard \<Rightarrow> bool \<times> Settled" where
  "settled_rejects st hard =
     (case map_of (st_rejects st) (h_text hard) of
        Some known \<Rightarrow> (known, st)
      | None \<Rightarrow>
          let rejects = list_ex (\<lambda>c. \<not> accepts hard (snd c)) (st_nearer st)
          in (rejects, st\<lparr>st_rejects := AList.update (h_text hard) rejects (st_rejects st)\<rparr>))"

definition settle :: "Selected \<Rightarrow> Selected" where
  "settle sel =
     sel\<lparr>sel_settled := map_option (\<lambda>winner.
       \<lparr>st_nearer = filter (\<lambda>c. rank_cmp (snd c) (snd winner) = Less) (sel_candidates sel),
        st_rejects = []\<rparr>) (sel_winner sel)\<rparr>"

text \<open>The constraints of the candidates, each text once.\<close>

fun distinct_texts :: "string set \<Rightarrow> Hard list \<Rightarrow> Hard list" where
  "distinct_texts seen [] = []"
| "distinct_texts seen (h # hs) =
     (if h_text h \<in> seen then distinct_texts seen hs
      else h # distinct_texts (insert (h_text h) seen) hs)"

definition constraints :: "Selected \<Rightarrow> Hard list" where
  "constraints sel = distinct_texts {} (List.map_filter (\<lambda>c. c_hard (snd c)) (sel_candidates sel))"

definition rank_arc :: "ArcCandidate \<Rightarrow> ArcCandidate \<Rightarrow> ordering" where
  "rank_arc a b = rank_cmp (snd a) (snd b)"

definition best :: "Selected \<Rightarrow> ArcCandidate option" where
  "best sel =
     (let hard = constraints sel in
      min_by rank_arc (filter (\<lambda>c. list_all (\<lambda>h. accepts h (snd c)) hard) (sel_candidates sel)))"

definition is_ranges :: "VersionReq \<Rightarrow> bool" where
  "is_ranges req = (case req of Ranges _ \<Rightarrow> True | _ \<Rightarrow> False)"

definition dirty_candidate :: "Selected \<Rightarrow> Candidate \<Rightarrow> Candidate \<Rightarrow> bool" where
  "dirty_candidate sel winner c =
     (\<not> (is_shadow c \<or> same c winner \<or> declared_at c = declared_at winner) \<and>
      (case c_hard c of
         None \<Rightarrow> False
       | Some hard \<Rightarrow>
           is_ranges (h_req hard) \<and> declared_at c \<notin> sel_dirty_checked sel \<and>
           accepts hard winner \<and> c_resolved_project c = None))"

definition dirty_ranges :: "Selected \<Rightarrow> Candidate \<Rightarrow> ArcCandidate list" where
  "dirty_ranges sel winner =
     map snd (fold (\<lambda>c highest.
       if dirty_candidate sel winner (snd c) then
         (case map_of highest (declared_at (snd c)) of
            None \<Rightarrow> AList.update (declared_at (snd c)) c highest
          | Some entry \<Rightarrow>
              if c_source (snd c) > c_source (snd entry)
              then AList.update (declared_at (snd c)) c highest else highest)
       else highest) (sel_candidates sel) [])"

definition nearer_than :: "Selected \<Rightarrow> ArcCandidate option \<Rightarrow> ArcCandidate list" where
  "nearer_than sel b =
     filter (\<lambda>c. case b of None \<Rightarrow> True | Some b \<Rightarrow> rank_arc c b = Less) (sel_candidates sel)"

definition rejecting_texts :: "Selected \<Rightarrow> ArcCandidate list \<Rightarrow> string list" where
  "rejecting_texts sel nearer =
     map h_text (filter (\<lambda>h. list_ex (\<lambda>c. \<not> accepts h (snd c)) nearer) (constraints sel))"

definition lowest_by_range :: "string list \<Rightarrow> ArcCandidate list \<Rightarrow> ((nat \<times> string) \<times> ArcCandidate) list" where
  "lowest_by_range rejecting candidates =
     fold (\<lambda>c lowest.
       case c_hard (snd c) of
         None \<Rightarrow> lowest
       | Some hard \<Rightarrow>
           if h_text hard \<notin> set rejecting then lowest
           else let key = (declared_at (snd c), h_text hard) in
             (case map_of lowest key of
                None \<Rightarrow> AList.update key c lowest
              | Some entry \<Rightarrow>
                  if c_source (snd c) < c_source (snd entry) then AList.update key c lowest else lowest))
     candidates []"

definition unconfirmed :: "Selected \<Rightarrow> ArcCandidate option \<Rightarrow> ArcCandidate list" where
  "unconfirmed sel b =
     (let nearer = nearer_than sel b in
      if nearer = [] then []
      else filter (\<lambda>c. c_resolved_project (snd c) = None)
             (map snd (lowest_by_range (rejecting_texts sel nearer) (sel_candidates sel))))"

definition conflict_rejects :: "Selected \<Rightarrow> Candidate \<Rightarrow> bool" where
  "conflict_rejects sel c =
     (case c_hard c of
        None \<Rightarrow> False
      | Some hard \<Rightarrow>
          (case sel_winner sel of None \<Rightarrow> True | Some w \<Rightarrow> \<not> accepts hard (snd w)))"

definition culprit :: "Selected \<Rightarrow> ArcCandidate option" where
  "culprit sel =
     (case max_by (\<lambda>a b. cmp_of (declared_at (snd a)) (declared_at (snd b)))
             (filter (\<lambda>c. conflict_rejects sel (snd c)) (sel_candidates sel)) of
        Some c \<Rightarrow> Some c
      | None \<Rightarrow> (case sel_candidates sel of [] \<Rightarrow> None | c # _ \<Rightarrow> Some c))"

definition note_conflict :: "Selected \<Rightarrow> Selected" where
  "note_conflict sel =
     (case culprit sel of
        None \<Rightarrow> sel
      | Some (_, c) \<Rightarrow>
          sel\<lparr>sel_conflict := Some
            \<lparr>cf_coord = group_id (c_coord c) @ '':'' @ artifact_id (c_coord c),
             cf_requested = (case map_option h_req (c_hard c) of
                               Some (Exact v) \<Rightarrow> original v
                             | Some req \<Rightarrow> VersionReq_display req
                             | None \<Rightarrow> original (version (c_coord c))),
             cf_selected = original (version (case sel_winner sel of
                                                Some w \<Rightarrow> c_coord (snd w) | None \<Rightarrow> c_coord c)),
             cf_at = item_sort_key (c_item c)\<rparr>\<rparr>)"

definition sel_instance :: "Selected \<Rightarrow> ShadowOrigin \<Rightarrow> ArcCandidate option" where
  "sel_instance sel origin =
     find (\<lambda>c. \<not> is_shadow (snd c) \<and> declared_at (snd c) = so_instance origin \<and>
               same_text (c_coord (snd c)) (so_coord origin)) (sel_candidates sel)"

definition instance_of :: "Selected \<Rightarrow> Candidate \<Rightarrow> ArcCandidate option" where
  "instance_of sel candidate =
     find (\<lambda>c. \<not> is_shadow (snd c) \<and> \<not> is_shadow candidate \<and>
               declared_at (snd c) = declared_at candidate \<and>
               same_text (c_coord (snd c)) (c_coord candidate)) (sel_candidates sel)"

definition on_winner_path :: "Selected \<Rightarrow> CoordKey \<Rightarrow> bool" where
  "on_winner_path sel key =
     (case sel_winner_path sel of None \<Rightarrow> False | Some path \<Rightarrow> path_contains path key)"

end
