(* ===== verification/Solver_Walk.thy ===== *)
theory Solver_Walk
  imports Scope_Selection Mediation "HOL-Library.Option_ord"
begin

text \<open>
  The state of a resolution, the type \<^verbatim>\<open>Walk\<close> of \<^verbatim>\<open>rv-resolver/src/solver/mod.rs\<close>, with every operation
  on it: groups and their merging, generations, shadows, candidates joining and leaving groups, winners and
  what they queue. Maps are association lists. A failure is an error of the resolver or a panic, so that
  every \<^verbatim>\<open>expect\<close> and every index of the code is a branch of the model.
\<close>

section \<open>Definitions\<close>

definition MAX_WINNER_CHANGES :: nat where
  "MAX_WINNER_CHANGES = 256"

definition ROOT_GENERATION :: nat where
  "ROOT_GENERATION = 1"

record Walk =
  w_graph :: Graph
  w_generations :: "nat list"
  w_next_generation :: nat
  w_selected :: "(CoordKey \<times> Selected) list"
  w_groups :: "(CoordKey \<times> CoordKey) list"
  w_declared :: "(NodeIndex \<times> CoordKey list) list"
  w_shadows :: "(CoordKey \<times> CoordKey list) list"
  w_dirty :: "CoordKey list"
  w_dirty_set :: "CoordKey set"
  w_queue :: "QueueItem list"
  w_next_declared_at :: nat
  w_walk_loads :: "ArcCandidate list list"
  w_confirm :: "(CoordKey \<times> ArcCandidate \<times> nat) list"
  w_unscanned :: "(CoordKey \<times> ArcCandidate) list"
  w_hinted :: nat
  w_relocations :: RelocationCache
  w_arcs :: nat

datatype failure = Error ResolveError | Panic string

type_synonym 'a result = "failure + 'a"

definition raise :: "ResolveError + 'a \<Rightarrow> 'a result" where
  "raise r = map_err Error r"

definition expect :: "'a option \<Rightarrow> string \<Rightarrow> 'a result" where
  "expect opt what = ok_or opt (Panic what)"

definition index_at :: "'a list \<Rightarrow> nat \<Rightarrow> 'a result" where
  "index_at xs i = (if i < length xs then Inr (xs ! i) else Inl (Panic ''index out of bounds''))"

definition Walk_new :: "Graph \<Rightarrow> Walk" where
  "Walk_new g =
     \<lparr>w_graph = g, w_generations = [ROOT_GENERATION], w_next_generation = ROOT_GENERATION + 1,
      w_selected = [], w_groups = [], w_declared = [], w_shadows = [], w_dirty = [],
      w_dirty_set = {}, w_queue = [], w_next_declared_at = 0, w_walk_loads = [], w_confirm = [],
      w_unscanned = [], w_hinted = 0, w_relocations = [], w_arcs = 0\<rparr>"

subsection \<open>Counters, dirty groups and nodes\<close>

definition declare_next :: "Walk \<Rightarrow> nat \<times> Walk" where
  "declare_next w = (w_next_declared_at w, w\<lparr>w_next_declared_at := w_next_declared_at w + 1\<rparr>)"

definition mark_dirty :: "CoordKey \<Rightarrow> Walk \<Rightarrow> Walk" where
  "mark_dirty key w =
     (if key \<in> w_dirty_set w then w
      else w\<lparr>w_dirty_set := insert key (w_dirty_set w), w_dirty := w_dirty w @ [key]\<rparr>)"

definition take_dirty :: "Walk \<Rightarrow> (CoordKey \<times> Walk) option" where
  "take_dirty w =
     (case w_dirty w of
        [] \<Rightarrow> None
      | key # rest \<Rightarrow> Some (key, w\<lparr>w_dirty := rest, w_dirty_set := w_dirty_set w - {key}\<rparr>))"

definition is_dirty :: "Walk \<Rightarrow> CoordKey \<Rightarrow> bool" where
  "is_dirty w key \<longleftrightarrow> key \<in> w_dirty_set w"

definition generation :: "Walk \<Rightarrow> nat \<times> Walk" where
  "generation w = (w_next_generation w, w\<lparr>w_next_generation := w_next_generation w + 1\<rparr>)"

definition add_node :: "Node \<Rightarrow> Walk \<Rightarrow> NodeIndex \<times> Walk" where
  "add_node n w =
     (case insert_node (w_graph w) n of (index, g) \<Rightarrow>
      case generation w of (gen, w) \<Rightarrow>
        (index, w\<lparr>w_graph := g, w_generations := w_generations w @ [gen]\<rparr>))"

text \<open>petgraph panics when an end of a new edge is no node.\<close>

definition connect :: "NodeIndex \<Rightarrow> NodeIndex \<Rightarrow> Edge \<Rightarrow> Walk \<Rightarrow> Walk result" where
  "connect from' to e w =
     (if from' < node_count (w_graph w) \<and> to < node_count (w_graph w)
      then Inr (w\<lparr>w_graph := add_edge (w_graph w) from' to e\<rparr>)
      else Inl (Panic ''no such node''))"

subsection \<open>Groups\<close>

text \<open>
  \<^verbatim>\<open>group_of\<close> follows the map until a key has no entry. The model takes as many steps as the map has
  entries, which is enough on the acyclic maps the walk builds.
\<close>

fun group_steps :: "nat \<Rightarrow> (CoordKey \<times> CoordKey) list \<Rightarrow> CoordKey \<Rightarrow> CoordKey" where
  "group_steps 0 groups key = key"
| "group_steps (Suc n) groups key =
     (case map_of groups key of None \<Rightarrow> key | Some next \<Rightarrow> group_steps n groups next)"

definition group_in :: "(CoordKey \<times> CoordKey) list \<Rightarrow> CoordKey \<Rightarrow> CoordKey" where
  "group_in groups key = group_steps (length groups) groups key"

definition group_of :: "Walk \<Rightarrow> CoordKey \<Rightarrow> CoordKey" where
  "group_of w key = group_in (w_groups w) key"

definition selection :: "Walk \<Rightarrow> CoordKey \<Rightarrow> Selected option" where
  "selection w key = map_of (w_selected w) key"

definition put_selection :: "CoordKey \<Rightarrow> Selected \<Rightarrow> Walk \<Rightarrow> Walk" where
  "put_selection key sel w = w\<lparr>w_selected := AList.update key sel (w_selected w)\<rparr>"

definition is_live :: "Walk \<Rightarrow> QueueItem \<Rightarrow> bool result" where
  "is_live w item =
     (case q_shadow item of
        None \<Rightarrow> and_then (index_at (w_generations w) (q_parent item)) (\<lambda>gen.
                  Inr (gen = q_parent_generation item))
      | Some origin \<Rightarrow>
          Inr (case selection w (group_of w (so_group origin)) of
                 None \<Rightarrow> False
               | Some sel \<Rightarrow> sel_instance sel origin \<noteq> None))"

definition holds :: "Walk \<Rightarrow> CoordKey \<Rightarrow> ArcCandidate \<Rightarrow> bool" where
  "holds w key candidate =
     (case selection w key of
        None \<Rightarrow> False
      | Some sel \<Rightarrow> list_ex (\<lambda>c. ptr_eq c candidate) (sel_candidates sel))"

definition beneath_own_group :: "Walk \<Rightarrow> PathNode \<Rightarrow> CoordKey \<Rightarrow> bool" where
  "beneath_own_group w path key =
     (if w_groups w = [] then path_contains path key
      else let grp = group_of w key in list_ex (\<lambda>k. group_of w k = grp) (path_keys path))"

text \<open>The place of a group's first candidate, and which of two groups is mediated first.\<close>

definition place_cmp :: "nat \<times> TreeOrder \<Rightarrow> nat \<times> TreeOrder \<Rightarrow> ordering" where
  "place_cmp a b = then_ord (cmp_of (fst a) (fst b)) (order_cmp (snd a) (snd b))"

definition first_place :: "Walk \<Rightarrow> CoordKey \<Rightarrow> (nat \<times> TreeOrder) option" where
  "first_place w key =
     Option.bind (selection w (group_of w key)) (\<lambda>sel.
       min_by place_cmp
         (map (\<lambda>c. (q_depth (c_item (snd c)), q_order (c_item (snd c)))) (sel_candidates sel)))"

definition mediated_before :: "Walk \<Rightarrow> CoordKey \<Rightarrow> CoordKey \<Rightarrow> bool" where
  "mediated_before w key other =
     (case (first_place w key, first_place w other) of
        (Some a, Some b) \<Rightarrow> place_cmp a b = Less
      | _ \<Rightarrow> False)"

subsection \<open>Shadows\<close>

datatype ShadowRole = RoleCandidate | RoleWalk | RoleDrop

definition winner_is :: "Selected \<Rightarrow> Candidate \<Rightarrow> bool" where
  "winner_is sel c = (case sel_winner sel of None \<Rightarrow> False | Some w \<Rightarrow> same (snd w) c)"

definition shadow_role :: "Walk \<Rightarrow> ShadowOrigin \<Rightarrow> CoordKey \<Rightarrow> CoordKey \<Rightarrow> ShadowRole" where
  "shadow_role w origin key target =
     (case selection w (group_of w (so_group origin)) of
        None \<Rightarrow> RoleDrop
      | Some sel \<Rightarrow>
          (case sel_instance sel origin of
             None \<Rightarrow> RoleDrop
           | Some inst \<Rightarrow>
               let selected = selection w key \<noteq> None in
               if winner_is sel (snd inst) then (if selected then RoleCandidate else RoleDrop)
               else if on_winner_path sel target \<and> selected \<and> mediated_before w key (so_group origin)
               then RoleCandidate
               else if \<not> on_winner_path sel target \<and> \<not> selected then RoleWalk
               else RoleDrop))"

definition shadow_holds :: "Walk \<Rightarrow> ShadowOrigin \<Rightarrow> CoordKey \<Rightarrow> bool" where
  "shadow_holds w origin target =
     (case selection w (group_of w (so_group origin)) of
        None \<Rightarrow> False
      | Some sel \<Rightarrow>
          (case sel_instance sel origin of
             None \<Rightarrow> False
           | Some inst \<Rightarrow>
               winner_is sel (snd inst) \<or>
               on_winner_path sel target \<and> mediated_before w target (so_group origin)))"

definition add_shadow :: "CoordKey \<Rightarrow> CoordKey \<Rightarrow> Walk \<Rightarrow> Walk" where
  "add_shadow origin key w =
     w\<lparr>w_shadows := AList.update origin
         ((case map_of (w_shadows w) origin of Some ks \<Rightarrow> ks | None \<Rightarrow> []) @ [key]) (w_shadows w)\<rparr>"

definition shadows_of :: "Walk \<Rightarrow> CoordKey \<Rightarrow> Candidate \<Rightarrow> ShadowOrigin option" where
  "shadows_of w grp c =
     (case q_shadow (c_item c) of
        None \<Rightarrow> None
      | Some origin \<Rightarrow> if group_of w (so_group origin) = grp then Some origin else None)"

definition stale_shadow :: "Walk \<Rightarrow> CoordKey \<Rightarrow> Candidate \<Rightarrow> bool" where
  "stale_shadow w grp c =
     (case shadows_of w grp c of
        None \<Rightarrow> False | Some origin \<Rightarrow> \<not> shadow_holds w origin (CoordKey_from (c_coord c)))"

definition live_shadow :: "Walk \<Rightarrow> CoordKey \<Rightarrow> Candidate \<Rightarrow> bool" where
  "live_shadow w grp c =
     (case shadows_of w grp c of
        None \<Rightarrow> False | Some origin \<Rightarrow> shadow_holds w origin (CoordKey_from (c_coord c)))"

fun revalidate_targets :: "CoordKey \<Rightarrow> CoordKey list \<Rightarrow> CoordKey list \<Rightarrow> Walk \<Rightarrow> CoordKey list \<times> Walk" where
  "revalidate_targets grp [] retained w = (retained, w)"
| "revalidate_targets grp (key # targets) retained w =
     (let key = group_of w key in
      if key \<in> set retained then revalidate_targets grp targets retained w
      else case selection w key of
        None \<Rightarrow> revalidate_targets grp targets retained w
      | Some sel \<Rightarrow>
          let stale = filter (\<lambda>c. stale_shadow w grp (snd c)) (sel_candidates sel);
              live = list_ex (\<lambda>c. live_shadow w grp (snd c)) (sel_candidates sel);
              w = (if stale \<noteq> []
                   then mark_dirty key (put_selection key
                     (sel\<lparr>sel_candidates :=
                        filter (\<lambda>c. \<not> list_ex (\<lambda>s. ptr_eq s c) stale) (sel_candidates sel)\<rparr>) w)
                   else w)
          in revalidate_targets grp targets (if live then retained @ [key] else retained) w)"

definition revalidate_shadows :: "CoordKey \<Rightarrow> Walk \<Rightarrow> Walk" where
  "revalidate_shadows grp w =
     (case map_of (w_shadows w) grp of
        None \<Rightarrow> w
      | Some targets \<Rightarrow>
          (case revalidate_targets grp targets [] (w\<lparr>w_shadows := AList.delete grp (w_shadows w)\<rparr>) of
             (retained, w) \<Rightarrow>
               if retained = [] then w else w\<lparr>w_shadows := AList.update grp retained (w_shadows w)\<rparr>))"

subsection \<open>Retiring a winner\<close>

text \<open>
  \<^verbatim>\<open>retain_mut\<close> of one group: the candidates of the retired generation leave, or become shadows when their key is
  on the new winner's path. The results are the candidates left, whether one changed, whether one was
  converted, and the next allocation number.
\<close>

fun retain_retired ::
  "NodeIndex \<Rightarrow> nat \<Rightarrow> (ShadowOrigin \<times> PathNode) option \<Rightarrow> nat \<Rightarrow> ArcCandidate list \<Rightarrow>
   ArcCandidate list \<times> bool \<times> bool \<times> nat" where
  "retain_retired n old convert arcs [] = ([], False, False, arcs)"
| "retain_retired n old convert arcs ((a, c) # cs) =
     (if is_shadow c \<or> q_parent (c_item c) \<noteq> n \<or> q_parent_generation (c_item c) \<noteq> old
      then (case retain_retired n old convert arcs cs of
              (retained, changed, converted, arcs) \<Rightarrow> ((a, c) # retained, changed, converted, arcs))
      else case convert of
        Some (origin, path) \<Rightarrow>
          if path_contains path (CoordKey_from (c_coord c))
          then (case retain_retired n old convert (Suc arcs) cs of
                  (retained, changed, converted, arcs') \<Rightarrow>
                    ((arcs, c\<lparr>c_item := (c_item c)\<lparr>q_shadow := Some origin\<rparr>\<rparr>) # retained, True, True, arcs'))
          else (case retain_retired n old convert arcs cs of
                  (retained, changed, converted, arcs) \<Rightarrow> (retained, True, converted, arcs))
      | None \<Rightarrow>
          (case retain_retired n old convert arcs cs of
             (retained, changed, converted, arcs) \<Rightarrow> (retained, True, converted, arcs)))"

fun retire_keys ::
  "NodeIndex \<Rightarrow> nat \<Rightarrow> (ShadowOrigin \<times> PathNode) option \<Rightarrow> CoordKey list \<Rightarrow> CoordKey list \<Rightarrow> Walk \<Rightarrow>
   CoordKey list \<times> Walk" where
  "retire_keys n old convert [] touched w = (touched, w)"
| "retire_keys n old convert (key # keys) touched w =
     (let key = group_of w key in
      if key \<in> set touched then retire_keys n old convert keys touched w
      else
        let conv = (case convert of
                      Some (origin, path) \<Rightarrow>
                        if mediated_before w key (so_group origin) then Some (origin, path) else None
                    | None \<Rightarrow> None)
        in case selection w key of
          None \<Rightarrow> retire_keys n old convert keys touched w
        | Some sel \<Rightarrow>
            (case retain_retired n old conv (w_arcs w) (sel_candidates sel) of
               (retained, changed, converted, arcs) \<Rightarrow>
                 let w = put_selection key (sel\<lparr>sel_candidates := retained\<rparr>) (w\<lparr>w_arcs := arcs\<rparr>);
                     w = (case conv of
                            Some (origin, _) \<Rightarrow>
                              if converted then add_shadow (group_of w (so_group origin)) key w else w
                          | None \<Rightarrow> w)
                 in retire_keys n old convert keys (if changed then touched @ [key] else touched) w))"

definition retire :: "NodeIndex \<Rightarrow> (ShadowOrigin \<times> PathNode) option \<Rightarrow> Walk \<Rightarrow> Walk result" where
  "retire n convert w =
     and_then (index_at (w_generations w) n) (\<lambda>old.
       case generation w of (gen, w) \<Rightarrow>
         let w = w\<lparr>w_generations := (w_generations w)[n := gen],
                   w_graph := clear_outgoing (w_graph w) n\<rparr>;
             keys = (case map_of (w_declared w) n of Some ks \<Rightarrow> ks | None \<Rightarrow> []);
             w = w\<lparr>w_declared := AList.delete n (w_declared w)\<rparr>
         in case retire_keys n old convert keys [] w of
              (touched, w) \<Rightarrow>
                Inr (fold (\<lambda>key w. mark_dirty key (revalidate_shadows key w)) touched w))"

definition drop_group :: "CoordKey \<Rightarrow> Walk \<Rightarrow> Walk result" where
  "drop_group key w =
     (case selection w key of
        None \<Rightarrow> Inr w
      | Some sel \<Rightarrow>
          let w = w\<lparr>w_selected := AList.delete key (w_selected w),
                    w_graph := clear_incoming (w_graph w) (sel_node sel)\<rparr>
          in and_then (retire (sel_node sel) None w) (\<lambda>w. Inr (revalidate_shadows key w)))"

subsection \<open>Merging groups\<close>

definition move_shadows :: "CoordKey \<Rightarrow> CoordKey \<Rightarrow> Walk \<Rightarrow> Walk" where
  "move_shadows from' into w =
     (case map_of (w_shadows w) from' of
        None \<Rightarrow> w
      | Some ks \<Rightarrow>
          let rest = AList.delete from' (w_shadows w)
          in w\<lparr>w_shadows := AList.update into
                 ((case map_of rest into of Some old \<Rightarrow> old | None \<Rightarrow> []) @ ks) rest\<rparr>)"

definition drop_beneath :: "CoordKey \<Rightarrow> Walk \<Rightarrow> Walk" where
  "drop_beneath into w =
     (case selection w into of
        None \<Rightarrow> w
      | Some sel \<Rightarrow>
          put_selection into (sel\<lparr>sel_candidates :=
            filter (\<lambda>c. \<not> beneath_own_group w (q_path (c_item (snd c))) into) (sel_candidates sel)\<rparr>) w)"

definition union :: "CoordKey \<Rightarrow> CoordKey \<Rightarrow> Walk \<Rightarrow> Walk result" where
  "union src target w =
     (let into = group_of w src; from' = group_of w target in
      if into = from' then Inr w
      else
        let w = move_shadows from' into (w\<lparr>w_groups := AList.update from' into (w_groups w)\<rparr>) in
        case selection w from' of
          None \<Rightarrow> Inr w
        | Some moved \<Rightarrow>
            let w = w\<lparr>w_selected := AList.delete from' (w_selected w)\<rparr> in
            and_then (case selection w into of
                        None \<Rightarrow> Inr (put_selection into moved w)
                      | Some sel \<Rightarrow>
                          let w = put_selection into (sel\<lparr>sel_settled := None,
                                    sel_candidates := sel_candidates sel @ sel_candidates moved\<rparr>) w;
                              w = w\<lparr>w_graph := retarget_incoming (w_graph w) (sel_node moved) (sel_node sel)\<rparr>
                          in retire (sel_node moved) None w)
            (\<lambda>w. Inr (mark_dirty into (drop_beneath into w))))"

subsection \<open>Cycles of reactor modules\<close>

definition path_node :: "Walk \<Rightarrow> PathNode \<Rightarrow> NodeIndex option" where
  "path_node w path =
     (case p_parent path of
        None \<Rightarrow> Some (g_root (w_graph w))
      | Some _ \<Rightarrow> map_option sel_node (selection w (group_of w (p_key path))))"

fun workspace_cycle_from :: "Walk \<Rightarrow> string \<Rightarrow> PathNode \<Rightarrow> string list \<Rightarrow> string option" where
  "workspace_cycle_from w module (PathNode k v par r d) coords =
     Option.bind (path_node w (PathNode k v par r d)) (\<lambda>ix.
     Option.bind (graph_node (w_graph w) ix) (\<lambda>nd.
     Option.bind (n_workspace_module nd) (\<lambda>named.
       let coords = coords @ [group_id (n_coord nd) @ '':'' @ artifact_id (n_coord nd)] in
       if named = module
       then Some (join_with arrow (rev coords @ [last coords]))
       else case par of None \<Rightarrow> None | Some p \<Rightarrow> workspace_cycle_from w module p coords)))"

definition workspace_dependency_cycle :: "Walk \<Rightarrow> QueueItem \<Rightarrow> string \<Rightarrow> string option" where
  "workspace_dependency_cycle w item module = workspace_cycle_from w module (q_path item) []"

definition check_workspace_cycle :: "Walk \<Rightarrow> Candidate \<Rightarrow> unit result" where
  "check_workspace_cycle w c =
     (case (q_shadow (c_item c), Option.bind (c_resolved_project c) rp_workspace_module) of
        (None, Some module) \<Rightarrow>
          (case workspace_dependency_cycle w (c_item c) module of
             Some cyc \<Rightarrow> Inl (Error (WorkspaceDependencyCycle cyc))
           | None \<Rightarrow> Inr ())
      | _ \<Rightarrow> Inr ())"

subsection \<open>Queueing declarations\<close>

definition child_dependency :: "Project \<Rightarrow> Dependency \<Rightarrow> Dependency" where
  "child_dependency project dep =
     (if d_version dep = None
      then dep\<lparr>d_version := managed_child_version (pr_dependency_management project) dep\<rparr> else dep)"

text \<open>A declaration takes the next place in the walk's count, then it is pushed within the queue's bounds.\<close>

definition push_declared :: "(nat \<Rightarrow> QueueItem) \<Rightarrow> Walk \<Rightarrow> Walk result" where
  "push_declared item w =
     (case declare_next w of (at', w) \<Rightarrow>
        and_then (raise (push_queue (w_queue w) (item at'))) (\<lambda>queue. Inr (w\<lparr>w_queue := queue\<rparr>)))"

definition child_item ::
  "Candidate \<Rightarrow> Project \<Rightarrow> PathNode \<Rightarrow> NodeIndex \<Rightarrow> nat \<Rightarrow> ShadowOrigin option \<Rightarrow> nat \<Rightarrow> Dependency \<Rightarrow> nat \<Rightarrow>
   QueueItem" where
  "child_item of' project path parent gen shadow index dep at' =
     \<lparr>q_parent = parent, q_parent_generation = gen, q_dependency = child_dependency project dep,
      q_managed_scope = False, q_depth = q_depth (c_item of') + 1,
      q_order = order_child (q_order (c_item of')) index, q_declared_at = at',
      q_exclusions = extend_exclusions (q_exclusions (c_item of'))
                       (d_exclusions (q_dependency (c_item of'))),
      q_path = path, q_shadow = shadow\<rparr>"

definition candidate_path :: "Backend \<Rightarrow> Candidate \<Rightarrow> Project \<Rightarrow> PathNode" where
  "candidate_path backend c project =
     PathNode_extend (q_path (c_item c)) (c_coord c) (rv_version (c_resolved c))
       (b_extend_repo_context backend (p_repos (q_path (c_item c))) (c_coord c) project)"

fun queue_each :: "(nat \<Rightarrow> Dependency \<Rightarrow> nat \<Rightarrow> QueueItem) \<Rightarrow> nat \<Rightarrow> Dependency list \<Rightarrow> Walk \<Rightarrow> Walk result" where
  "queue_each item index [] w = Inr w"
| "queue_each item index (dep # deps) w =
     and_then (push_declared (item index dep) w) (queue_each item (Suc index) deps)"

definition queue_children ::
  "Backend \<Rightarrow> Candidate \<Rightarrow> NodeIndex \<Rightarrow> nat \<Rightarrow> ShadowOrigin option \<Rightarrow> Walk \<Rightarrow> Walk result" where
  "queue_children backend winner parent gen shadow w =
     (if \<not> candidate_follows winner then Inr w
      else and_then (expect (c_resolved_project winner) ''loaded'') (\<lambda>resolved.
        let project = rp_project resolved
        in queue_each (child_item winner project (candidate_path backend winner project) parent gen shadow)
             0 (pr_dependencies project) w))"

definition queue_shadow ::
  "Backend \<Rightarrow> Candidate \<Rightarrow> Project \<Rightarrow> nat \<Rightarrow> ShadowOrigin \<Rightarrow> Walk \<Rightarrow> Walk result" where
  "queue_shadow backend of' project index origin w =
     (if \<not> candidate_follows of' then Inr w
      else and_then (index_at (pr_dependencies project) index) (\<lambda>dep.
        push_declared (child_item of' project (candidate_path backend of' project) (g_root (w_graph w)) 0
          (Some origin) index dep) w))"

text \<open>
  The losers of a group that are scanned for the first time: \<^verbatim>\<open>HashSet::insert\<close> tells whether the declaration
  was new.
\<close>

fun first_seen :: "nat set \<Rightarrow> ArcCandidate list \<Rightarrow> ArcCandidate list \<times> nat set" where
  "first_seen seen [] = ([], seen)"
| "first_seen seen (c # cs) =
     (if declared_at (snd c) \<in> seen then first_seen seen cs
      else case first_seen (insert (declared_at (snd c)) seen) cs of (fresh, seen) \<Rightarrow> (c # fresh, seen))"

definition own_path :: "Candidate \<Rightarrow> PathNode" where
  "own_path c =
     PathNode_extend (q_path (c_item c)) (c_coord c) (rv_version (c_resolved c)) (p_repos (q_path (c_item c)))"

definition all_exclusions :: "Candidate \<Rightarrow> ExclusionKey list" where
  "all_exclusions c = extend_exclusions (q_exclusions (c_item c)) (d_exclusions (q_dependency (c_item c)))"

definition origin_of :: "CoordKey \<Rightarrow> Candidate \<Rightarrow> ShadowOrigin" where
  "origin_of key c = \<lparr>so_group = key, so_instance = declared_at c, so_coord = c_coord c\<rparr>"

definition scans :: "Walk \<Rightarrow> CoordKey \<Rightarrow> PathNode \<Rightarrow> Candidate \<Rightarrow> Dependency \<Rightarrow> bool" where
  "scans w key path loser dep =
     ((d_group_id dep, d_artifact_id dep) \<in> set (map (\<lambda>k. (k_group_id k, k_artifact_id k)) (path_keys path)) \<and>
      (let target = key_of dep in
       \<not> (\<not> path_contains path target \<or> \<not> mediated_before w target key \<or>
          path_contains (own_path loser) target \<or> \<not> is_followed_transitively dep \<or>
          is_excluded dep (all_exclusions loser))))"

fun queue_shadows ::
  "Backend \<Rightarrow> CoordKey \<Rightarrow> Candidate \<Rightarrow> Project \<Rightarrow> (Walk \<Rightarrow> Dependency \<Rightarrow> bool) \<Rightarrow> nat \<Rightarrow> Dependency list \<Rightarrow> bool \<Rightarrow>
   Walk \<Rightarrow> (bool \<times> Walk) result" where
  "queue_shadows backend key loser project takes index [] queued w = Inr (queued, w)"
| "queue_shadows backend key loser project takes index (dep # deps) queued w =
     (if takes w dep
      then and_then (queue_shadow backend loser project index (origin_of key loser) w)
             (queue_shadows backend key loser project takes (Suc index) deps True)
      else queue_shadows backend key loser project takes (Suc index) deps queued w)"

fun scan_each :: "Backend \<Rightarrow> CoordKey \<Rightarrow> PathNode \<Rightarrow> ArcCandidate list \<Rightarrow> Walk \<Rightarrow> Walk result" where
  "scan_each backend key path [] w = Inr w"
| "scan_each backend key path (loser # losers) w =
     and_then (expect (c_resolved_project (snd loser)) ''loaded'') (\<lambda>resolved.
     and_then (queue_shadows backend key (snd loser) (rp_project resolved)
                 (\<lambda>w. scans w key path (snd loser)) 0 (pr_dependencies (rp_project resolved)) False w)
       (\<lambda>(_, w). scan_each backend key path losers w))"

definition is_loser :: "Candidate \<Rightarrow> Candidate \<Rightarrow> bool" where
  "is_loser winner c \<longleftrightarrow>
     \<not> is_shadow c \<and> c_resolved_project c \<noteq> None \<and> candidate_follows c \<and> \<not> same c winner"

definition scan_losers :: "Backend \<Rightarrow> CoordKey \<Rightarrow> nat \<Rightarrow> Walk \<Rightarrow> Walk result" where
  "scan_losers backend key from' w =
     (case selection w key of
        None \<Rightarrow> Inr w
      | Some sel \<Rightarrow>
          (case (sel_winner sel, sel_winner_path sel) of
             (Some winner, Some path) \<Rightarrow>
               if from' > length (sel_candidates sel) then Inl (Panic ''slice index out of range'')
               else (case first_seen (sel_scanned sel)
                            (filter (\<lambda>c. is_loser (snd winner) (snd c)) (drop from' (sel_candidates sel))) of
                       (losers, scanned) \<Rightarrow>
                         scan_each backend key path losers
                           (put_selection key (sel\<lparr>sel_scanned := scanned\<rparr>) w))
           | _ \<Rightarrow> Inr w))"

subsection \<open>Candidates join a group\<close>

definition edge_of :: "QueueItem \<Rightarrow> Edge" where
  "edge_of item =
     \<lparr>e_scope = effective_scope (q_dependency item), e_managed_scope = q_managed_scope item,
      e_declared = (if q_depth item = 1 then Some (q_declared_at item) else None),
      e_optional = effective_optional (q_dependency item),
      e_exclusions = d_exclusions (q_dependency item), e_requested = d_version (q_dependency item)\<rparr>"

definition alternative :: "Candidate \<Rightarrow> nat \<Rightarrow> ResolvedVersion \<Rightarrow> Candidate" where
  "alternative c position resolved =
     c\<lparr>c_coord := (c_coord c)\<lparr>version := rv_version resolved\<rparr>,
       c_source := butlast (c_source c) @ [position], c_resolved := resolved,
       c_resolved_project := (if candidate_scope c = System then c_resolved_project c else None)\<rparr>"

definition resolution_candidates :: "Resolution \<Rightarrow> Walk \<Rightarrow> (ArcCandidate list \<times> Walk) result" where
  "resolution_candidates res w =
     (let c = r_candidate res; alternatives = r_alternatives res in
      if alternatives \<noteq> [] \<and> c_source c = [] then Inl (Panic ''a version'')
      else
        let cs = map (\<lambda>(position, resolved). alternative c position resolved)
                   (zip [0..<length alternatives] alternatives) @ [c]
        in Inr (zip [w_arcs w..<w_arcs w + length cs] cs, w\<lparr>w_arcs := w_arcs w + length cs\<rparr>))"

fun rejecting_candidates :: "Settled \<Rightarrow> ArcCandidate list \<Rightarrow> ArcCandidate list \<times> Settled" where
  "rejecting_candidates st [] = ([], st)"
| "rejecting_candidates st (c # cs) =
     (case c_hard (snd c) of
        None \<Rightarrow> rejecting_candidates st cs
      | Some hard \<Rightarrow>
          (case settled_rejects st hard of (rejects, st) \<Rightarrow>
           case rejecting_candidates st cs of (found, st) \<Rightarrow>
             (if rejects then c # found else found, st)))"

definition ranked_behind :: "ArcCandidate \<Rightarrow> ArcCandidate \<Rightarrow> bool" where
  "ranked_behind winner c \<longleftrightarrow>
     rank_arc c winner = Greater \<and>
     (case c_hard (snd c) of None \<Rightarrow> True | Some hard \<Rightarrow> accepts hard (snd winner))"

text \<open>
  A declaration joins its group. The first result is there when the group's settled winner stays: where the new
  candidates start, and the range's lowest version to confirm first, if any.
\<close>

definition join_declared ::
  "Selected \<Rightarrow> QueueItem \<Rightarrow> ArcCandidate list \<Rightarrow> (nat \<times> ArcCandidate option) option \<times> Selected" where
  "join_declared sel item candidates =
     (let before = length (sel_candidates sel);
          retained = filter (\<lambda>c. \<not> is_shadow (snd c) \<or> \<not> order_eq (q_order (c_item (snd c))) (q_order item))
                       (sel_candidates sel);
          (settled, sel) =
            (case (sel_winner sel, sel_settled sel) of
               (Some winner, Some state) \<Rightarrow>
                 if length retained = before \<and> list_all (ranked_behind winner) candidates
                 then (case rejecting_candidates state candidates of (rejecting, state) \<Rightarrow>
                   (Some (before,
                      case min_by (\<lambda>a b. cmp_of (c_source (snd a)) (c_source (snd b))) rejecting of
                        None \<Rightarrow> None
                      | Some c \<Rightarrow> if c_resolved_project (snd c) = None then Some c else None),
                    sel\<lparr>sel_settled := Some state\<rparr>))
                 else (None, sel)
             | _ \<Rightarrow> (None, sel))
      in (settled, sel\<lparr>sel_candidates := retained @ candidates\<rparr>))"

definition new_node :: "Coord \<Rightarrow> Scope \<Rightarrow> Node" where
  "new_node coord scope =
     \<lparr>n_coord = coord, n_scope = scope, n_repo_url = None, n_build_repo = None, n_repos = [],
      n_checksum = None, n_workspace_module = None, n_local = False, n_system_path = None,
      n_winner_parent = None\<rparr>"

text \<open>No result when a shadow adds nothing: it repeats a candidate, or nothing selected its key.\<close>

definition join_group ::
  "CoordKey \<Rightarrow> QueueItem \<Rightarrow> Scope \<Rightarrow> ArcCandidate list \<Rightarrow> Walk \<Rightarrow>
   ((nat \<times> ArcCandidate option) option \<times> NodeIndex \<times> Walk) option result" where
  "join_group key item scope candidates w =
     (case selection w key of
        Some sel \<Rightarrow>
          if q_shadow item \<noteq> None then
            (if list_ex (\<lambda>c. order_eq (q_order (c_item (snd c))) (q_order item)) (sel_candidates sel)
             then Inr None
             else Inr (Some (None, sel_node sel,
               put_selection key (sel\<lparr>sel_candidates := sel_candidates sel @ candidates\<rparr>) w)))
          else (case join_declared sel item candidates of (settled, sel) \<Rightarrow>
            Inr (Some (settled, sel_node sel, put_selection key sel w)))
      | None \<Rightarrow>
          if q_shadow item \<noteq> None then Inr None
          else if candidates = [] then Inl (Panic ''declared'')
          else (case add_node (new_node (c_coord (snd (last candidates))) scope) w of (n, w) \<Rightarrow>
            Inr (Some (None, n, put_selection key (Selected_new n candidates) w))))"

definition note_declared :: "NodeIndex \<Rightarrow> CoordKey \<Rightarrow> Walk \<Rightarrow> Walk" where
  "note_declared n key w =
     w\<lparr>w_declared := AList.update n
         ((case map_of (w_declared w) n of Some ks \<Rightarrow> ks | None \<Rightarrow> []) @ [key]) (w_declared w)\<rparr>"

definition link_item :: "QueueItem \<Rightarrow> CoordKey \<Rightarrow> NodeIndex \<Rightarrow> Walk \<Rightarrow> Walk result" where
  "link_item item key n w =
     (case q_shadow item of
        None \<Rightarrow> and_then (connect (q_parent item) n (edge_of item) w) (\<lambda>w.
                  Inr (note_declared (q_parent item) key w))
      | Some origin \<Rightarrow> Inr (add_shadow (group_of w (so_group origin)) key w))"

definition after_join ::
  "Backend \<Rightarrow> CoordKey \<Rightarrow> (nat \<times> ArcCandidate option) option \<Rightarrow> Walk \<Rightarrow> Walk result" where
  "after_join backend key settled w =
     (case settled of
        Some (from', None) \<Rightarrow>
          if is_dirty w key then Inr (mark_dirty key w)
          else if (case selection w key of
                     None \<Rightarrow> False
                   | Some sel \<Rightarrow>
                       (case sel_winner sel of
                          None \<Rightarrow> False | Some winner \<Rightarrow> dirty_ranges sel (snd winner) \<noteq> []))
          then Inr (mark_dirty key w)
          else scan_losers backend key from' w
      | Some (from', Some lowest) \<Rightarrow>
          if is_dirty w key then Inr (mark_dirty key w)
          else Inr (w\<lparr>w_confirm := w_confirm w @ [(key, lowest, from')]\<rparr>)
      | None \<Rightarrow> Inr (mark_dirty key w))"

fun union_all :: "CoordKey list \<Rightarrow> CoordKey \<Rightarrow> Walk \<Rightarrow> Walk result" where
  "union_all [] target w = Inr w"
| "union_all (alias # aliases) target w = and_then (union alias target w) (union_all aliases target)"

text \<open>A step of a shadow walk: a loaded candidate's children are queued, an unloaded range is loaded later.\<close>

definition walk_below :: "Backend \<Rightarrow> ShadowOrigin \<Rightarrow> ArcCandidate list \<Rightarrow> Walk \<Rightarrow> Walk result" where
  "walk_below backend origin candidates w =
     (if candidates = [] then Inl (Panic ''a candidate'')
      else let highest = snd (last candidates) in
        if c_resolved_project highest \<noteq> None
        then queue_children backend highest (g_root (w_graph w)) 0 (Some origin) w
        else Inr (w\<lparr>w_walk_loads := w_walk_loads w @ [candidates]\<rparr>))"

definition note_unscanned :: "CoordKey \<Rightarrow> ArcCandidate list \<Rightarrow> Walk \<Rightarrow> Walk" where
  "note_unscanned key candidates w =
     (if length candidates > 1 \<and> c_resolved_project (snd (last candidates)) = None
      then w\<lparr>w_unscanned := w_unscanned w @ [(key, last candidates)]\<rparr> else w)"

definition join_candidates ::
  "Backend \<Rightarrow> CoordKey \<Rightarrow> QueueItem \<Rightarrow> Scope \<Rightarrow> ArcCandidate list \<Rightarrow> Walk \<Rightarrow> Walk result" where
  "join_candidates backend key item scope candidates w =
     and_then (join_group key item scope candidates (note_unscanned key candidates w)) (\<lambda>joined.
       case joined of
         None \<Rightarrow> Inr (note_unscanned key candidates w)
       | Some (settled, n, w) \<Rightarrow>
           and_then (link_item item key n w) (after_join backend key settled))"

definition cut_cycle :: "QueueItem \<Rightarrow> CoordKey \<Rightarrow> Walk \<Rightarrow> Walk result" where
  "cut_cycle item target w =
     (case (q_shadow item, selection w (group_of w target)) of
        (None, Some existing) \<Rightarrow> connect (q_parent item) (sel_node existing) (edge_of item) w
      | _ \<Rightarrow> Inr w)"

definition add_resolution :: "Backend \<Rightarrow> Resolution \<Rightarrow> Walk \<Rightarrow> Walk result" where
  "add_resolution backend res w =
     (let c = r_candidate res; item = c_item c; target = CoordKey_from (c_coord c);
          cyclic = path_contains (q_path item) target in
      and_then (check_workspace_cycle w c) (\<lambda>_.
      and_then (if cyclic then union_all (c_inherited c) target w else union_all (r_aliases res) target w) (\<lambda>w.
      if cyclic \<or> beneath_own_group w (q_path item) target then cut_cycle item target w
      else
        let key = group_of w target in
        and_then (resolution_candidates res w) (\<lambda>(candidates, w).
        case q_shadow item of
          None \<Rightarrow> join_candidates backend key item (candidate_scope c) candidates w
        | Some origin \<Rightarrow>
            (case shadow_role w origin key target of
               RoleCandidate \<Rightarrow> join_candidates backend key item (candidate_scope c) candidates w
             | RoleWalk \<Rightarrow> walk_below backend origin candidates w
             | RoleDrop \<Rightarrow> Inr w)))))"

subsection \<open>Loaded projects and winners\<close>

definition pending :: "Walk \<Rightarrow> CoordKey \<Rightarrow> ArcCandidate \<Rightarrow> nat \<Rightarrow> nat option" where
  "pending w key candidate from' =
     (if is_dirty w key then None
      else case selection w key of
        None \<Rightarrow> None
      | Some sel \<Rightarrow>
          if sel_settled sel = None \<or> from' > length (sel_candidates sel) then None
          else map_option (\<lambda>i. from' + i)
                 (find_pos (\<lambda>c. ptr_eq c candidate) (drop from' (sel_candidates sel))))"

definition replace_candidate :: "CoordKey \<Rightarrow> Selected \<Rightarrow> ArcCandidate \<Rightarrow> Candidate \<Rightarrow> Walk \<Rightarrow> Walk" where
  "replace_candidate key sel probe loaded w =
     put_selection key (sel\<lparr>sel_candidates :=
         map (\<lambda>c. if ptr_eq c probe then (w_arcs w, loaded) else c) (sel_candidates sel)\<rparr>)
       (w\<lparr>w_arcs := w_arcs w + 1\<rparr>)"

text \<open>
  A load that does not leave the candidate in place takes it out, and with it, when the load stops the range's walk,
  the candidates of its declaration from this version up.
\<close>

definition take_out ::
  "CoordKey \<Rightarrow> Selected \<Rightarrow> ArcCandidate \<Rightarrow> bool \<Rightarrow> Walk \<Rightarrow> Walk" where
  "take_out key sel probe stops w =
     (let item = c_item (snd probe);
          retained = filter (\<lambda>c. \<not> ptr_eq c probe \<and>
             (\<not> stops \<or> declared_at (snd c) \<noteq> q_declared_at item \<or> c_source (snd c) < c_source (snd probe)))
             (sel_candidates sel);
          w = put_selection key (sel\<lparr>sel_candidates := retained\<rparr>) w;
          w = (if q_shadow item = None \<and> \<not> list_ex (\<lambda>c. declared_at (snd c) = q_declared_at item) retained
               then w\<lparr>w_graph := remove_edge (w_graph w) (q_parent item) (sel_node sel) (edge_of item)\<rparr>
               else w)
      in mark_dirty key (revalidate_shadows key w))"

definition apply_load :: "Backend \<Rightarrow> CoordKey \<Rightarrow> ArcCandidate \<Rightarrow> Load \<Rightarrow> Walk \<Rightarrow> Walk result" where
  "apply_load backend key probe loaded w =
     and_then (expect (selection w key) ''mediated group'') (\<lambda>sel.
       case loaded of
         Ready candidate \<Rightarrow> Inr (replace_candidate key sel probe candidate w)
       | Relocated resolution \<Rightarrow> add_resolution backend resolution (take_out key sel probe True w)
       | Cyclic resolution \<Rightarrow> add_resolution backend resolution (take_out key sel probe False w)
       | Excluded \<Rightarrow> Inr (take_out key sel probe True w))"

definition winner_node :: "Candidate \<Rightarrow> ResolvedProject \<Rightarrow> Node \<Rightarrow> Node" where
  "winner_node c project nd =
     (let is_local = (candidate_scope c = System);
          bld = (if is_local then None else rv_repo (c_resolved c)) in
      nd\<lparr>n_coord := (c_coord c)\<lparr>version := rv_version (c_resolved c)\<rparr>,
         n_scope := candidate_scope c,
         n_winner_parent := (if q_shadow (c_item c) = None then Some (q_parent (c_item c)) else None),
         n_local := is_local,
         n_system_path := d_system_path (q_dependency (c_item c)),
         n_build_repo := bld,
         n_repo_url := (if is_local then None
                        else or_else (map_option rr_url bld) (rp_repo_url project)),
         n_repos := p_repos (q_path (c_item c)),
         n_workspace_module := rp_workspace_module project\<rparr>)"

definition set_node :: "NodeIndex \<Rightarrow> (Node \<Rightarrow> Node) \<Rightarrow> Graph \<Rightarrow> Graph" where
  "set_node n f g =
     (case graph_node g n of None \<Rightarrow> g | Some nd \<Rightarrow> g\<lparr>g_nodes := (g_nodes g)[n := f nd]\<rparr>)"

text \<open>The group of a new winner: a winner that comes back counts as a change.\<close>

definition crown :: "ArcCandidate \<Rightarrow> PathNode \<Rightarrow> Selected \<Rightarrow> Selected" where
  "crown winner path sel =
     (let entry = (q_order (c_item (snd winner)), Coord_display (c_coord (snd winner)));
          known = list_ex (\<lambda>(ord, txt). order_eq ord (fst entry) \<and> txt = snd entry) (sel_winners sel)
      in sel\<lparr>sel_winners := (if known then sel_winners sel else entry # sel_winners sel),
             sel_changes := (if known then sel_changes sel + 1 else sel_changes sel),
             sel_winner := Some winner, sel_winner_path := Some path, sel_scanned := {},
             sel_walked := {}, sel_dirty_checked := {}\<rparr>)"

definition commit :: "Backend \<Rightarrow> CoordKey \<Rightarrow> ArcCandidate \<Rightarrow> Walk \<Rightarrow> Walk result" where
  "commit backend key winner w =
     (let c = snd winner in
      and_then (expect (c_resolved_project c) ''winner loaded'') (\<lambda>project.
      and_then (check_workspace_cycle w c) (\<lambda>_.
      and_then (expect (selection w key) ''mediated group'') (\<lambda>sel.
        let path = candidate_path backend c (rp_project project); sel' = crown winner path sel in
        if sel_changes sel' > MAX_WINNER_CHANGES
        then Inl (Error (MediationDiverged
          (group_id (c_coord c) @ '':'' @ artifact_id (c_coord c)) MAX_WINNER_CHANGES))
        else
          let convert = map_option (\<lambda>prev. (origin_of key (snd prev), path))
                (Option.bind (sel_winner sel) (\<lambda>prev. instance_of sel' (snd prev)));
              n = sel_node sel'
          in and_then (retire n convert (put_selection key sel' w)) (\<lambda>w.
             and_then (index_at (w_generations w) n) (\<lambda>gen.
               let w = w\<lparr>w_graph := set_node n (winner_node c project) (w_graph w)\<rparr>
               in queue_children backend c n gen None (revalidate_shadows key w)))))))"

subsection \<open>Walks below what a winner's path excludes\<close>

definition walks :: "ExclusionKey list \<Rightarrow> Candidate \<Rightarrow> Walk \<Rightarrow> Dependency \<Rightarrow> bool" where
  "walks excluded loser w dep =
     (is_followed_transitively dep \<and> is_excluded dep excluded \<and> \<not> is_excluded dep (all_exclusions loser) \<and>
      (let target = key_of dep in
       \<not> (path_contains (own_path loser) target \<or> selection w (group_of w target) \<noteq> None)))"

fun walk_each ::
  "Backend \<Rightarrow> CoordKey \<Rightarrow> ExclusionKey list \<Rightarrow> Project \<Rightarrow> ArcCandidate list \<Rightarrow> bool \<Rightarrow> Walk \<Rightarrow>
   (bool \<times> Walk) result" where
  "walk_each backend key excluded project [] queued w = Inr (queued, w)"
| "walk_each backend key excluded project (loser # losers) queued w =
     and_then (queue_shadows backend key (snd loser) project (walks excluded (snd loser)) 0
                 (pr_dependencies project) queued w)
       (\<lambda>(queued, w). walk_each backend key excluded project losers queued w)"

definition walk_group :: "Backend \<Rightarrow> CoordKey \<Rightarrow> bool \<Rightarrow> Walk \<Rightarrow> (bool \<times> Walk) result" where
  "walk_group backend key queued w =
     (case selection w key of
        None \<Rightarrow> Inr (queued, w)
      | Some sel \<Rightarrow>
          (case sel_winner sel of
             None \<Rightarrow> Inr (queued, w)
           | Some winner \<Rightarrow>
               let excluded = all_exclusions (snd winner) in
               (case (if excluded = [] then None else c_resolved_project (snd winner)) of
                  None \<Rightarrow> Inr (queued, w)
                | Some resolved \<Rightarrow>
                    (case first_seen (sel_walked sel) (filter (\<lambda>c.
                        \<not> is_shadow (snd c) \<and> same_text (c_coord (snd c)) (c_coord (snd winner)) \<and>
                        candidate_follows (snd c) \<and> \<not> same (snd c) (snd winner)) (sel_candidates sel)) of
                       (losers, walked) \<Rightarrow>
                         walk_each backend key excluded (rp_project resolved) losers queued
                           (put_selection key (sel\<lparr>sel_walked := walked\<rparr>) w)))))"

fun walk_groups :: "Backend \<Rightarrow> CoordKey list \<Rightarrow> bool \<Rightarrow> Walk \<Rightarrow> (bool \<times> Walk) result" where
  "walk_groups backend [] queued w = Inr (queued, w)"
| "walk_groups backend (key # keys) queued w =
     and_then (walk_group backend key queued w) (\<lambda>(queued, w). walk_groups backend keys queued w)"

definition walk_excluded_dependencies :: "Backend \<Rightarrow> Walk \<Rightarrow> (bool \<times> Walk) result" where
  "walk_excluded_dependencies backend w =
     walk_groups backend
       (sort_key (\<lambda>k. (k_group_id k, k_artifact_id k, k_packaging k, k_classifier k))
          (map fst (w_selected w))) False w"

subsection \<open>The end of a walk\<close>

fun note_winners :: "Backend \<Rightarrow> Graph \<Rightarrow> (CoordKey \<times> Selected) list \<Rightarrow> ResolveError + unit" where
  "note_winners backend g [] = Inr ()"
| "note_winners backend g ((key, sel) # rest) =
     and_then (case (sel_winner sel, graph_node g (sel_node sel)) of
                 (Some winner, Some nd) \<Rightarrow> b_note_winner backend (n_coord nd) (q_path (c_item (snd winner)))
               | _ \<Rightarrow> Inr ())
       (\<lambda>_. note_winners backend g rest)"

definition first_conflict :: "Walk \<Rightarrow> Conflict option" where
  "first_conflict w =
     min_by (\<lambda>a b. SortKey_cmp (cf_at a) (cf_at b))
       (List.map_filter (\<lambda>(key, sel). sel_conflict sel) (w_selected w))"

definition finish :: "visit_order \<Rightarrow> Backend \<Rightarrow> Walk \<Rightarrow> Graph result" where
  "finish visit backend w =
     raise (and_then (select_scopes visit (w_graph w)) (\<lambda>g.
       and_then (note_winners backend g (w_selected w)) (\<lambda>_.
       case first_conflict w of
         Some c \<Rightarrow> Inl (VersionConflict (cf_coord c) (cf_requested c) (cf_selected c))
       | None \<Rightarrow> Inr g)))"

end
