(* ===== verification/Group_Winner.thy ===== *)
theory Group_Winner
  imports Solver_Walk
begin

text \<open>
  What mediation promises of one group: the nearest candidate that all hard constraints accept wins, and the
  shortcut that a declaration takes when it joins a settled group gives what mediating the group again would
  give. The proofs rest on the contract of comparisons, interpreted here for the rank of candidates.
\<close>

section \<open>The winner of a group\<close>

text \<open>Candidates whose ranks are totally ordered: orders as the solver builds them, versions that start with a number.\<close>

definition ranked :: "Candidate \<Rightarrow> bool" where
  "ranked c \<longleftrightarrow> order_ok (q_order (c_item c)) \<and> number_first (version (c_coord c))"

lemma version_cmp_on: "cmp_on Version_cmp number_first"
proof
  show "Version_cmp y x = reverse (Version_cmp x y)" for x y by (rule version.cmp_swap)
qed (rule Version_cmp_trans_ge)

lemma rank_cmp_on: "cmp_on rank_cmp ranked"
  unfolding rank_cmp_def
  by (intro cmp_on_then cmp_on_of cmp_on_key [OF tree_order.cmp_on_axioms]
      cmp_on_key [OF cmp_on.flipped [OF version_cmp_on]]) (simp_all add: ranked_def)

interpretation rank: cmp_on rank_arc "\<lambda>a. ranked (snd a)"
  unfolding rank_arc_def by (rule cmp_on_key [OF rank_cmp_on])

lemma distinct_texts_subset: "set (distinct_texts seen hs) \<subseteq> set hs"
  by (induction seen hs rule: distinct_texts.induct) auto

lemma distinct_texts_covers:
  "h \<in> set hs \<Longrightarrow> h_text h \<in> seen \<or> (\<exists>k \<in> set (distinct_texts seen hs). h_text k = h_text h)"
  by (induction seen hs rule: distinct_texts.induct) auto

text \<open>The constraints that the candidates of a group state.\<close>

definition stated :: "Selected \<Rightarrow> Hard set" where
  "stated sel = {h. \<exists>c \<in> set (sel_candidates sel). c_hard (snd c) = Some h}"

lemma stated_map_filter: "stated sel = set (List.map_filter (\<lambda>c. c_hard (snd c)) (sel_candidates sel))"
  by (force simp: stated_def List.map_filter_def)

lemma set_constraints:
  assumes "\<And>h. h \<in> stated sel \<Longrightarrow> hard_ok lc h"
  shows "set (constraints sel) = stated sel"
proof
  show sub: "set (constraints sel) \<subseteq> stated sel"
    unfolding constraints_def stated_map_filter by (rule distinct_texts_subset)
  show "stated sel \<subseteq> set (constraints sel)"
  proof
    fix h assume h: "h \<in> stated sel"
    then obtain k where k: "k \<in> set (constraints sel)" "h_text k = h_text h"
      using distinct_texts_covers [of h _ "{}"] unfolding constraints_def stated_map_filter by auto
    moreover have "hard_ok lc k" "hard_ok lc h" using assms k(1) sub h by blast+
    ultimately show "h \<in> set (constraints sel)" using hard_text_inject by metis
  qed
qed

text \<open>
  Nearest first: the candidate of the lesser depth, then the one whose parent comes first in the tree, then the higher
  version, then the one that is declared first.
\<close>

definition nearest_first :: "Candidate \<Rightarrow> Candidate \<Rightarrow> bool" where
  "nearest_first a b \<longleftrightarrow>
     (let da = q_depth (c_item a); db = q_depth (c_item b);
          pa = order_path (q_order (c_item a)); pb = order_path (q_order (c_item b)) in
      da < db \<or> da = db \<and>
      (butlast pa < butlast pb \<or> butlast pa = butlast pb \<and>
       (Version_cmp (version (c_coord a)) (version (c_coord b)) = Greater \<or>
        Version_cmp (version (c_coord a)) (version (c_coord b)) = Equal \<and>
        (pa < pb \<or> pa = pb \<and> declared_at a \<le> declared_at b))))"

lemma rank_cmp_nearest:
  assumes "ranked a" and "ranked b"
  shows "rank_cmp a b \<noteq> Greater \<longleftrightarrow> nearest_first a b"
proof -
  have ok: "order_ok (q_order (c_item a))" "order_ok (q_order (c_item b))"
    "order_ok (order_parent (q_order (c_item a)))" "order_ok (order_parent (q_order (c_item b)))"
    using assms by (auto simp: ranked_def intro: order_ok_parent)
  have swap: "Version_cmp (version (c_coord b)) (version (c_coord a)) =
      reverse (Version_cmp (version (c_coord a)) (version (c_coord b)))" by (rule version.cmp_swap)
  show ?thesis
    unfolding rank_cmp_def nearest_first_def Let_def order_cmp_path [OF ok(1,2)] order_cmp_path [OF ok(3,4)] swap
    by (cases "Version_cmp (version (c_coord a)) (version (c_coord b))") (auto simp: cmp_of_def)
qed

definition acceptable :: "Selected \<Rightarrow> ArcCandidate \<Rightarrow> bool" where
  "acceptable sel c \<longleftrightarrow> (\<forall>h \<in> stated sel. accepts h (snd c))"

lemma best_acceptable:
  assumes "\<And>h. h \<in> stated sel \<Longrightarrow> hard_ok lc h"
  shows "best sel = min_by rank_arc (filter (acceptable sel) (sel_candidates sel))"
  using set_constraints [of sel lc] assms
  by (simp add: best_def acceptable_def [abs_def] list_all_iff)


lemma min_by_Nil [simp]: "min_by cmp [] = None"
  by (simp add: min_by_def)

lemma min_by_firstI:
  assumes on: "cmp_on cmp carrier" and "list_all carrier (ys @ m # zs)"
    and "\<forall>y \<in> set ys. cmp m y = Less" and "\<forall>z \<in> set zs. cmp m z \<noteq> Greater"
  shows "min_by cmp (ys @ m # zs) = Some m"
proof -
  let ?f = "\<lambda>y b. if cmp b y = Greater then y else b"
  have keep: "fold ?f zs m = m" using assms(4) by (induction zs) simp_all
  show ?thesis
  proof (cases ys)
    case Nil
    with keep show ?thesis by (simp add: min_by_def)
  next
    case (Cons y ys')
    have "fold ?f ys' y \<in> set ys" using fold_choose [of ?f ys' y] Cons by auto
    then have "cmp (fold ?f ys' y) m = Greater"
      using assms(2,3) cmp_on.swap [OF on, of m "fold ?f ys' y"] by (auto simp: list_all_iff)
    with Cons keep show ?thesis by (simp add: min_by_def)
  qed
qed

section \<open>The shortcut for settled groups\<close>

definition rejects_any :: "ArcCandidate list \<Rightarrow> Hard \<Rightarrow> bool" where
  "rejects_any nearer h \<longleftrightarrow> list_ex (\<lambda>c. \<not> accepts h (snd c)) nearer"

definition memo_ok :: "(string \<Rightarrow> string) \<Rightarrow> Settled \<Rightarrow> bool" where
  "memo_ok lc st \<longleftrightarrow> (\<forall>h b. hard_ok lc h \<longrightarrow> map_of (st_rejects st) (h_text h) = Some b \<longrightarrow>
     b = rejects_any (st_nearer st) h)"

lemma settled_rejects_ok:
  assumes "memo_ok lc st" and "hard_ok lc h" and "settled_rejects st h = (b, st')"
  shows "b = rejects_any (st_nearer st) h \<and> st_nearer st' = st_nearer st \<and> memo_ok lc st'"
proof (cases "map_of (st_rejects st) (h_text h)")
  case (Some known)
  with assms show ?thesis by (auto simp: settled_rejects_def memo_ok_def)
next
  case None
  with assms show ?thesis
    by (auto simp: settled_rejects_def memo_ok_def Let_def rejects_any_def update_conv'
        dest: hard_text_inject split: if_splits)
qed

definition rejecting :: "ArcCandidate list \<Rightarrow> ArcCandidate \<Rightarrow> bool" where
  "rejecting nearer c = (case c_hard (snd c) of None \<Rightarrow> False | Some h \<Rightarrow> rejects_any nearer h)"

lemma rejecting_candidates_ok:
  assumes "memo_ok lc st" and "\<forall>c \<in> set cs. \<forall>h. c_hard (snd c) = Some h \<longrightarrow> hard_ok lc h"
    and "rejecting_candidates st cs = (found, st')"
  shows "found = filter (rejecting (st_nearer st)) cs \<and>
    st_nearer st' = st_nearer st \<and> memo_ok lc st'"
  using assms
proof (induction cs arbitrary: st found)
  case (Cons c cs)
  show ?case
  proof (cases "c_hard (snd c)")
    case None
    with Cons show ?thesis by (simp add: rejecting_def)
  next
    case (Some h)
    obtain b st1 where b: "settled_rejects st h = (b, st1)" by fastforce
    obtain found1 where f: "rejecting_candidates st1 cs = (found1, st')" "found = (if b then c # found1 else found1)"
      using Cons.prems(3) Some b by (auto split: prod.splits)
    from settled_rejects_ok [OF Cons.prems(1) _ b] Cons.prems(2) Some
    have ok: "b = rejects_any (st_nearer st) h" "st_nearer st1 = st_nearer st" "memo_ok lc st1" by auto
    from Cons.IH [OF ok(3) _ f(1)] Cons.prems(2) ok f(2) Some show ?thesis by (auto simp: rejecting_def)
  qed
qed simp

lemma rejecting_texts_iff:
  assumes "\<And>h. h \<in> stated sel \<Longrightarrow> hard_ok lc h" and "h \<in> stated sel"
  shows "h_text h \<in> set (rejecting_texts sel nearer) \<longleftrightarrow> rejects_any nearer h"
  using assms(2) hard_text_inject [OF assms(1) assms(1)]
  unfolding rejecting_texts_def rejects_any_def
  by (auto simp: set_constraints [of sel lc, OF assms(1)])

definition settled_ok :: "(string \<Rightarrow> string) \<Rightarrow> Selected \<Rightarrow> bool" where
  "settled_ok lc sel =
     (case (sel_winner sel, sel_settled sel) of
        (Some w, Some st) \<Rightarrow>
          best sel = Some w \<and> st_nearer st = nearer_than sel (Some w) \<and> memo_ok lc st
      | _ \<Rightarrow> True)"

lemma settled_ok_settle: "sel_winner sel = best sel \<Longrightarrow> settled_ok lc (settle sel)"
  by (auto simp: settled_ok_def settle_def nearer_than_def memo_ok_def rank_arc_def best_def constraints_def
      split: option.splits)

lemma filter_full: "length (filter P xs) = length xs \<Longrightarrow> filter P xs = xs"
  using length_filter_less [of _ xs P] by (fastforce simp: filter_id_conv)

text \<open>What a join of one declaration keeps when it takes the shortcut.\<close>

lemma join_declared_shortcut:
  assumes "join_declared sel item cands = (Some (from', lowest), sel')" and "sel_winner sel = Some w"
  shows "from' = length (sel_candidates sel) \<and> sel_candidates sel' = sel_candidates sel @ cands \<and>
    sel_winner sel' = Some w \<and> list_all (ranked_behind w) cands \<and>
    (\<exists>st st' rej. sel_settled sel = Some st \<and> rejecting_candidates st cands = (rej, st') \<and>
      sel_settled sel' = Some st' \<and>
      lowest = (case min_by (\<lambda>a b. cmp_of (c_source (snd a)) (c_source (snd b))) rej of
                  None \<Rightarrow> None | Some c \<Rightarrow> if c_resolved_project (snd c) = None then Some c else None))"
proof -
  let ?P = "\<lambda>c. \<not> is_shadow (snd c) \<or> \<not> order_eq (q_order (c_item (snd c))) (q_order item)"
  obtain st where st: "sel_settled sel = Some st"
    and c: "length (filter ?P (sel_candidates sel)) = length (sel_candidates sel)" "list_all (ranked_behind w) cands"
    using assms by (cases "sel_settled sel") (simp_all add: join_declared_def Let_def split: if_splits)
  obtain rej st' where rej: "rejecting_candidates st cands = (rej, st')" by fastforce
  have "join_declared sel item cands =
      (Some (length (sel_candidates sel),
         case min_by (\<lambda>a b. cmp_of (c_source (snd a)) (c_source (snd b))) rej of
           None \<Rightarrow> None | Some c \<Rightarrow> if c_resolved_project (snd c) = None then Some c else None),
       sel\<lparr>sel_settled := Some st', sel_candidates := sel_candidates sel @ cands\<rparr>)"
    using c filter_full [OF c(1)] by (simp add: join_declared_def Let_def assms(2) st rej)
  with assms(1) have eqs: "from' = length (sel_candidates sel)"
    "lowest = (case min_by (\<lambda>a b. cmp_of (c_source (snd a)) (c_source (snd b))) rej of
           None \<Rightarrow> None | Some c \<Rightarrow> if c_resolved_project (snd c) = None then Some c else None)"
    "sel' = sel\<lparr>sel_settled := Some st', sel_candidates := sel_candidates sel @ cands\<rparr>"
    by simp_all
  show ?thesis
    by (intro conjI exI [of _ st] exI [of _ st'] exI [of _ rej]) (simp_all add: eqs(1,3) c st rej assms(2), rule eqs)
qed

lemma nearer_than_append:
  assumes "list_all (ranked_behind w) cands"
  shows "filter (\<lambda>c. rank_arc c w = Less) (cs @ cands) = filter (\<lambda>c. rank_arc c w = Less) cs"
  using assms by (auto simp: list_all_iff ranked_behind_def filter_empty_conv)

lemma best_append:
  assumes hard: "\<And>h. h \<in> stated sel' \<Longrightarrow> hard_ok lc h"
    and ranked: "\<And>c. c \<in> set (sel_candidates sel') \<Longrightarrow> ranked (snd c)"
    and cands: "sel_candidates sel' = sel_candidates sel @ cands" "list_all (ranked_behind w) cands"
    and best: "best sel = Some w"
  shows "best sel' = Some w"
proof -
  have sub: "stated sel \<subseteq> stated sel'" using cands by (auto simp: stated_def)
  have b: "min_by rank_arc (filter (acceptable sel) (sel_candidates sel)) = Some w"
    using best by (subst best_acceptable [of sel lc, symmetric]) (use hard sub in blast)+
  have "list_all (\<lambda>a. ranked (snd a)) (filter (acceptable sel) (sel_candidates sel))"
    using ranked cands(1) by (auto simp: list_all_iff)
  from rank.min_by_split [OF b this] obtain ys zs where
    yz: "filter (acceptable sel) (sel_candidates sel) = ys @ w # zs"
      "\<forall>y \<in> set ys. rank_arc w y = Less" "\<forall>z \<in> set zs. rank_arc w z \<noteq> Greater" by blast
  let ?A = "acceptable sel'"
  have w: "w \<in> set (sel_candidates sel)" "acceptable sel w"
    using arg_cong [OF yz(1), of set] by auto
  have "?A w"
    using w cands by (auto simp: acceptable_def stated_def list_all_iff ranked_behind_def split: option.splits)
  moreover have "filter ?A (filter (acceptable sel) xs) = filter ?A xs" for xs
    unfolding filter_filter using sub by (intro filter_cong) (auto simp: acceptable_def)
  then have "filter ?A (sel_candidates sel) = filter ?A (ys @ w # zs)" unfolding yz(1) [symmetric] by simp
  ultimately have eq: "filter ?A (sel_candidates sel') = filter ?A ys @ w # (filter ?A zs @ filter ?A cands)"
    using cands(1) by simp
  have "rank_arc w c = Less" if "c \<in> set cands" for c
    using that cands ranked [of c] ranked [of w] w rank.swap [of c w]
    by (auto simp: list_all_iff ranked_behind_def)
  then have "\<forall>z \<in> set (filter ?A zs @ filter ?A cands). rank_arc w z \<noteq> Greater" using yz(3) by auto
  moreover have "\<forall>y \<in> set (filter ?A ys). rank_arc w y = Less" using yz(2) by auto
  moreover have "list_all (\<lambda>a. ranked (snd a)) (filter ?A (sel_candidates sel'))"
    using ranked by (auto simp: list_all_iff)
  ultimately have "min_by rank_arc (filter ?A (sel_candidates sel')) = Some w"
    unfolding eq by (intro min_by_firstI [OF rank.cmp_on_axioms])
  then show ?thesis using best_acceptable [of sel' lc] hard by simp
qed

text \<open>The map of lowest versions, one candidate at a time.\<close>

definition low_step ::
  "string list \<Rightarrow> ArcCandidate \<Rightarrow> ((nat \<times> string) \<times> ArcCandidate) list \<Rightarrow> ((nat \<times> string) \<times> ArcCandidate) list" where
  "low_step texts c lowest =
     (case c_hard (snd c) of
        None \<Rightarrow> lowest
      | Some hard \<Rightarrow>
          if h_text hard \<notin> set texts then lowest
          else let key = (declared_at (snd c), h_text hard) in
            (case map_of lowest key of
               None \<Rightarrow> AList.update key c lowest
             | Some entry \<Rightarrow>
                 if c_source (snd c) < c_source (snd entry) then AList.update key c lowest else lowest))"

lemma lowest_by_range_step: "lowest_by_range texts cs = fold (low_step texts) cs []"
  unfolding lowest_by_range_def low_step_def ..

lemma low_step_keys: "fst ` set (low_step R c L) \<subseteq> insert (declared_at (snd c), h_text (the (c_hard (snd c)))) (fst ` set L)"
  by (auto simp: low_step_def Let_def dom_update split: option.splits if_splits)

lemma lowest_keys: "k \<in> fst ` set (fold (low_step R) cs L) \<Longrightarrow>
    k \<in> fst ` set L \<or> (\<exists>c \<in> set cs. fst k = declared_at (snd c))"
proof (induction cs arbitrary: L)
  case (Cons c cs)
  from Cons.IH [of "low_step R c L"] Cons.prems
  consider "k \<in> fst ` set (low_step R c L)" | "\<exists>c \<in> set cs. fst k = declared_at (snd c)" by auto
  then show ?case using subsetD [OF low_step_keys [of R c L], of k] by cases auto
qed simp

lemma update_last: "k \<notin> fst ` set L \<Longrightarrow> AList.update k x (L @ [(k, y)]) = L @ [(k, x)]"
  by (induction L) auto

lemma update_new: "k \<notin> fst ` set L \<Longrightarrow> AList.update k x L = L @ [(k, x)]"
  by (induction L) auto

lemma map_of_last: "k \<notin> fst ` set L \<Longrightarrow> map_of (L @ [(k, y)]) k = Some y"
  by (induction L) auto

lemma map_of_absent: "k \<notin> fst ` set L \<Longrightarrow> map_of L k = None"
  by (simp add: map_of_eq_None_iff)

lemma low_step_known:
  assumes "c_hard (snd c) = Some h" and "h_text h \<in> set R" and "declared_at (snd c) = d"
    and "(d, h_text h) \<notin> fst ` set L"
  shows "low_step R c (L @ [((d, h_text h), e)]) =
    L @ [((d, h_text h), if cmp_of (c_source (snd e)) (c_source (snd c)) = Greater then c else e)]"
proof -
  have "map_of (L @ [((d, h_text h), e)]) (d, h_text h) = Some e" using assms(4) by (rule map_of_last)
  moreover have "cmp_of (c_source (snd e)) (c_source (snd c)) = Greater \<longleftrightarrow> c_source (snd c) < c_source (snd e)"
    by (auto simp: cmp_of_def)
  ultimately show ?thesis
    using assms(2) update_last [OF assms(4), of c e]
    by (simp only: low_step_def assms(1,3) option.case Let_def not_not if_True if_False if_cancel simp_thms) simp
qed

lemma lowest_one_range:
  assumes "\<forall>c \<in> set cs. declared_at (snd c) = d \<and> c_hard (snd c) = Some h" and "h_text h \<in> set R"
    and "(d, h_text h) \<notin> fst ` set L"
  shows "fold (low_step R) cs (L @ [((d, h_text h), e)]) =
    L @ [((d, h_text h), fold (\<lambda>y b. if cmp_of (c_source (snd b)) (c_source (snd y)) = Greater then y else b) cs e)]"
  using assms(1)
proof (induction cs arbitrary: e)
  case (Cons c cs)
  then show ?case using low_step_known [of c h R d L e] assms(2,3) by simp
qed simp

lemma lowest_of_range:
  assumes "\<forall>c \<in> set (c # cs). declared_at (snd c) = d \<and> c_hard (snd c) = Some h" and "h_text h \<in> set R"
    and "(d, h_text h) \<notin> fst ` set L"
  shows "fold (low_step R) (c # cs) L =
    L @ [((d, h_text h), the (min_by (\<lambda>a b. cmp_of (c_source (snd a)) (c_source (snd b))) (c # cs)))]"
  using lowest_one_range [of cs d h R L c] assms
  by (simp add: low_step_def map_of_absent update_new min_by_def)

lemma low_step_other:
  assumes "case c_hard (snd c) of None \<Rightarrow> True | Some h \<Rightarrow> h_text h \<notin> set R"
  shows "low_step R c L = L"
  using assms by (auto simp: low_step_def split: option.splits)

lemma low_step_cong:
  assumes "\<And>h. c_hard (snd c) = Some h \<Longrightarrow> h_text h \<in> set R \<longleftrightarrow> h_text h \<in> set R'"
  shows "low_step R c = low_step R' c"
  using assms by (auto simp: low_step_def fun_eq_iff split: option.splits)

lemma fold_id: "(\<And>c. c \<in> set cs \<Longrightarrow> f c L = L) \<Longrightarrow> fold f cs L = L"
  by (induction cs) auto

lemma unconfirmed_append:
  assumes hard: "\<And>h. h \<in> stated sel' \<Longrightarrow> hard_ok lc h"
    and cands: "sel_candidates sel' = sel_candidates sel @ cands" "list_all (ranked_behind w) cands"
    and one: "\<forall>c \<in> set cands. declared_at (snd c) = d \<and> c_hard (snd c) = hd_hard"
    and fresh: "\<forall>c \<in> set (sel_candidates sel). declared_at (snd c) \<noteq> d"
    and none: "unconfirmed sel (Some w) = []"
    and rej: "rej = filter (rejecting (nearer_than sel (Some w))) cands"
  shows "unconfirmed sel' (Some w) =
    (case min_by (\<lambda>a b. cmp_of (c_source (snd a)) (c_source (snd b))) rej of
       None \<Rightarrow> [] | Some c \<Rightarrow> if c_resolved_project (snd c) = None then [c] else [])"
proof -
  let ?N = "nearer_than sel (Some w)" and ?U = "\<lambda>c. c_resolved_project (snd c) = None"
  have N': "nearer_than sel' (Some w) = ?N"
    using nearer_than_append [OF cands(2), of "sel_candidates sel"] by (simp add: nearer_than_def cands(1))
  show ?thesis
  proof (cases "?N = []")
    case True
    then have "rej = []"
      using rej by (auto simp: rejecting_def rejects_any_def filter_empty_conv split: option.splits)
    with True N' show ?thesis by (simp add: unconfirmed_def)
  next
    case False
    define R where "R = rejecting_texts sel ?N"
    define R' where "R' = rejecting_texts sel' ?N"
    define L where "L = fold (low_step R) (sel_candidates sel) []"
    have iff': "h_text h \<in> set R' \<longleftrightarrow> rejects_any ?N h" if "h \<in> stated sel'" for h
      unfolding R'_def using rejecting_texts_iff [of sel' lc h] hard that by blast
    have sub: "stated sel \<subseteq> stated sel'" using cands(1) by (auto simp: stated_def)
    have iff: "h_text h \<in> set R \<longleftrightarrow> rejects_any ?N h" if "h \<in> stated sel" for h
      unfolding R_def using rejecting_texts_iff [of sel lc h] hard that sub by blast
    have same: "fold (low_step R') (sel_candidates sel) [] = L"
      unfolding L_def
    proof (rule fold_cong [OF refl refl])
      fix c assume "c \<in> set (sel_candidates sel)"
      then have "h \<in> stated sel" if "c_hard (snd c) = Some h" for h using that by (auto simp: stated_def)
      then show "low_step R' c = low_step R c" using iff iff' sub by (intro low_step_cong) blast
    qed
    have L: "filter ?U (map snd L) = []"
      using none False by (simp add: unconfirmed_def lowest_by_range_step R_def L_def)
    have unc: "unconfirmed sel' (Some w) = filter ?U (map snd (fold (low_step R') cands L))"
      using False N' same by (simp add: unconfirmed_def lowest_by_range_step R'_def [symmetric] cands(1))
    show ?thesis
    proof (cases "rej = []")
      case True
      have "low_step R' c L = L" if "c \<in> set cands" for c
      proof (rule low_step_other)
        from that True rej have "\<not> rejecting ?N c" by (auto simp: filter_empty_conv)
        moreover have "h \<in> stated sel'" if "c_hard (snd c) = Some h" for h
          using that \<open>c \<in> set cands\<close> by (auto simp: stated_def cands(1))
        ultimately show "case c_hard (snd c) of None \<Rightarrow> True | Some h \<Rightarrow> h_text h \<notin> set R'"
          using iff' by (auto simp: rejecting_def split: option.splits)
      qed
      then have "fold (low_step R') cands L = L" by (rule fold_id)
      with True L unc show ?thesis by (simp add: min_by_def)
    next
      case rejects: False
      then obtain c cs where c: "cands = c # cs" using rej by (cases cands) auto
      obtain h where h: "hd_hard = Some h" "rejects_any ?N h"
        using rejects rej one by (auto simp: rejecting_def filter_empty_conv split: option.splits)
      then have all: "rej = cands"
        using one by (auto simp: rej rejecting_def filter_id_conv)
      have "h \<in> stated sel'" using one h(1) by (auto simp: stated_def cands(1) c)
      then have "h_text h \<in> set R'" using iff' h(2) by blast
      moreover have "(d, h_text h) \<notin> fst ` set L"
        using lowest_keys [of "(d, h_text h)" R "sel_candidates sel" "[]"] fresh by (auto simp: L_def)
      ultimately have "fold (low_step R') cands L =
          L @ [((d, h_text h), the (min_by (\<lambda>a b. cmp_of (c_source (snd a)) (c_source (snd b))) cands))]"
        unfolding c using one h(1) c by (intro lowest_of_range) simp_all
      then show ?thesis using unc L all c by (cases "min_by (\<lambda>a b. cmp_of (c_source (snd a)) (c_source (snd b))) cands") simp_all
    qed
  qed
qed


text \<open>Candidates for examples: a place in the tree, a version, the requirement as declared, and whether the project is read.\<close>

definition declared_hard :: "string \<Rightarrow> Hard option" where
  "declared_hard s =
     (case parse_requested_requirement to_ascii_lowercase ''g'' ''a'' s of
        Inr r \<Rightarrow> hard_constraint r | Inl _ \<Rightarrow> None)"

definition candidate_at :: "nat \<Rightarrow> nat \<Rightarrow> string \<Rightarrow> string \<Rightarrow> nat \<Rightarrow> bool \<Rightarrow> Candidate" where
  "candidate_at depth at' v req position read =
     (let ver = Version_unresolved to_ascii_lowercase v;
          coord = \<lparr>group_id = ''g'', artifact_id = ''a'', version = ver, packaging = None, classifier = None\<rparr>
      in \<lparr>c_item = item_at depth (OrderNode at' 1 RootOrder) at', c_coord = coord,
          c_resolved = \<lparr>rv_version = ver, rv_repo = None\<rparr>,
          c_resolved_project = (if read then Some (stub_project coord) else None),
          c_hard = declared_hard req, c_source = [position], c_inherited = []\<rparr>)"

lemma declared_hard_ok: "declared_hard s = Some h \<Longrightarrow> hard_ok to_ascii_lowercase h"
  by (auto simp: declared_hard_def intro: hard_constraint_ok [OF lowercases_ascii] split: sum.splits)

lemma candidate_at_simps [simp]:
  "c_hard (candidate_at d n v r p l) = declared_hard r"
  "declared_at (candidate_at d n v r p l) = n"
  "ranked (candidate_at d n v r p l) = number_first (Version_unresolved to_ascii_lowercase v)"
  by (simp_all add: candidate_at_def Let_def ranked_def)

definition group_of_two :: Selected where
  "group_of_two = Selected_new 1
     [(0, candidate_at 1 0 ''1'' ''1'' 0 True), (1, candidate_at 2 1 ''2'' ''[2,3)'' 0 True)]"

lemma group_of_two_ok:
  "h \<in> stated group_of_two \<Longrightarrow> hard_ok to_ascii_lowercase h"
  "c \<in> set (sel_candidates group_of_two) \<Longrightarrow> ranked (snd c)"
  "best group_of_two = Some (1, candidate_at 2 1 ''2'' ''[2,3)'' 0 True)"
proof -
  show "h \<in> stated group_of_two \<Longrightarrow> hard_ok to_ascii_lowercase h"
    by (auto simp: stated_def group_of_two_def Selected_new_def intro: declared_hard_ok)
  have "number_first (Version_unresolved to_ascii_lowercase ''1'')"
    "number_first (Version_unresolved to_ascii_lowercase ''2'')" by code_simp+
  then show "c \<in> set (sel_candidates group_of_two) \<Longrightarrow> ranked (snd c)"
    unfolding group_of_two_def Selected_new_def by (simp del: One_nat_def) (metis candidate_at_simps(3) snd_conv)
  show "best group_of_two = Some (1, candidate_at 2 1 ''2'' ''[2,3)'' 0 True)" by code_simp
qed


text \<open>A third declaration, two versions of a range behind the winner, that the first candidate is not in.\<close>

definition joining :: "ArcCandidate list" where
  "joining = [(2, candidate_at 3 2 ''1.5'' ''[1.5,2.5]'' 0 False), (3, candidate_at 3 2 ''2'' ''[1.5,2.5]'' 1 False)]"

definition settled_two :: Selected where
  "settled_two = settle (group_of_two\<lparr>sel_winner := best group_of_two\<rparr>)"

lemma settled_two_ok:
  "settled_ok to_ascii_lowercase settled_two"
  "sel_winner settled_two = Some (1, candidate_at 2 1 ''2'' ''[2,3)'' 0 True)"
  "unconfirmed settled_two (Some (1, candidate_at 2 1 ''2'' ''[2,3)'' 0 True)) = []"
proof -
  show "settled_ok to_ascii_lowercase settled_two"
    unfolding settled_two_def by (rule settled_ok_settle) (simp add: best_def constraints_def)
  show "sel_winner settled_two = Some (1, candidate_at 2 1 ''2'' ''[2,3)'' 0 True)"
    by (simp add: settled_two_def settle_def group_of_two_ok(3))
  show "unconfirmed settled_two (Some (1, candidate_at 2 1 ''2'' ''[2,3)'' 0 True)) = []" by code_simp
qed

lemma joining_shortcut:
  "\<exists>sel'. join_declared settled_two (item_at 3 (OrderNode 2 1 RootOrder) 2) joining =
     (Some (2, Some (2, candidate_at 3 2 ''1.5'' ''[1.5,2.5]'' 0 False)), sel')"
proof -
  have "fst (join_declared settled_two (item_at 3 (OrderNode 2 1 RootOrder) 2) joining) =
     Some (2, Some (2, candidate_at 3 2 ''1.5'' ''[1.5,2.5]'' 0 False))"
    by code_simp
  then show ?thesis by (metis prod.collapse)
qed


end
