(* ===== verification/Solver_Loop.thy ===== *)
theory Solver_Loop
  imports Solver_Walk
begin

text \<open>
  The loops of the solver, \<^verbatim>\<open>rv-resolver/src/solver/mod.rs\<close>: \<^verbatim>\<open>solve\<close> takes the items of the queue one at a
  time, \<^verbatim>\<open>mediate\<close> works off what an item left to load, to confirm and to mediate, and \<^verbatim>\<open>reconsider\<close> mediates
  one group. The three loops have no bound in the code; they are partial functions whose value is
  \<open>None\<close> where the loop does not end.
\<close>

section \<open>Definitions\<close>

subsection \<open>Loads\<close>

definition run_load :: "'a cached \<Rightarrow> Walk \<Rightarrow> 'a result \<times> Walk" where
  "run_load m w = (case m (w_relocations w) of (r, cache) \<Rightarrow> (raise r, w\<lparr>w_relocations := cache\<rparr>))"

fun load_in_order :: "Solver \<Rightarrow> ArcCandidate list \<Rightarrow> RelocationCache \<Rightarrow> (ResolveError + Load) list \<times> RelocationCache" where
  "load_in_order s [] cache = ([], cache)"
| "load_in_order s (probe # probes) cache =
     (case load_candidate s (snd probe) cache of (loaded, cache) \<Rightarrow>
        if (case loaded of Inr (Ready _) \<Rightarrow> True | Inr (Cyclic _) \<Rightarrow> True | _ \<Rightarrow> False)
        then (case load_in_order s probes cache of (loads, cache) \<Rightarrow> (loaded # loads, cache))
        else ([loaded], cache))"

definition lower_candidates :: "Selected \<Rightarrow> Candidate \<Rightarrow> ArcCandidate list" where
  "lower_candidates sel c =
     sort_key (\<lambda>l. c_source (snd l)) (filter (\<lambda>l.
       declared_at (snd l) = declared_at c \<and> c_resolved_project (snd l) = None \<and>
       length (c_source (snd l)) = length (c_source c) \<and>
       butlast (c_source (snd l)) = butlast (c_source c) \<and> c_source (snd l) < c_source c)
     (sel_candidates sel))"

fun is_relocated :: "Load \<Rightarrow> bool" where
  "is_relocated (Ready _) = False"
| "is_relocated (Cyclic _) = False"
| "is_relocated _ = True"

text \<open>The loads of a range in order; the last probe may be gone, which leaves its group to mediate again.\<close>

fun apply_loads ::
  "Backend \<Rightarrow> CoordKey \<Rightarrow> (ArcCandidate \<times> bool \<times> (ResolveError + Load)) list \<Rightarrow> Walk \<Rightarrow>
   (ArcCandidate option \<times> Walk) result" where
  "apply_loads backend key [] w = Inr (None, w)"
| "apply_loads backend key ((probe, is_last, loaded) # rest) w =
     (let grp = group_of w key in
      if \<not> holds w grp probe
      then apply_loads backend key rest (if is_last then mark_dirty grp w else w)
      else and_then (raise loaded) (\<lambda>load.
           and_then (apply_load backend grp probe load w) (\<lambda>w.
             if is_relocated load then Inr (Some probe, w) else apply_loads backend key rest w)))"

definition load_one :: "Solver \<Rightarrow> CoordKey \<Rightarrow> ArcCandidate \<Rightarrow> Walk \<Rightarrow> (ArcCandidate option \<times> Walk) result" where
  "load_one s key candidate w =
     (if c_source (snd candidate) = [] then Inl (Panic ''attempt to subtract with overflow'')
      else and_then (expect (selection w key) ''no entry found for key'') (\<lambda>sel.
        let lower = lower_candidates sel (snd candidate) @ [candidate];
            (loads, cache) = load_in_order s lower (w_relocations w);
            w = w\<lparr>w_relocations := cache\<rparr>;
            complete = length loads = length lower;
            lasts = map (\<lambda>i. i = length lower - 1) [0..<length lower]
        in and_then (apply_loads (s_backend s) key (zip lower (zip lasts loads)) w) (\<lambda>(relocated, w).
             case relocated of
               Some probe \<Rightarrow> Inr (Some probe, w)
             | None \<Rightarrow> Inr (None, if complete then w else mark_dirty (group_of w key) w))))"

fun load_others :: "Solver \<Rightarrow> CoordKey \<Rightarrow> ArcCandidate list \<Rightarrow> Walk \<Rightarrow> Walk result" where
  "load_others s key [] w = Inr w"
| "load_others s key (other # others) w =
     (let grp = group_of w key in
      if holds w grp other
      then and_then (load_one s grp other w) (\<lambda>(_, w). load_others s key others w)
      else load_others s key others w)"

definition load :: "Solver \<Rightarrow> CoordKey \<Rightarrow> ArcCandidate \<Rightarrow> Walk \<Rightarrow> Walk result" where
  "load s key candidate w =
     and_then (load_one s key candidate w) (\<lambda>(relocated, w).
       case relocated of
         None \<Rightarrow> Inr w
       | Some gone \<Rightarrow>
           load_others s key
             (filter (\<lambda>c. c_resolved_project (snd c) = None \<and> same_text (c_coord (snd c)) (c_coord (snd gone)))
                (case selection w (group_of w key) of Some sel \<Rightarrow> sel_candidates sel | None \<Rightarrow> [])) w)"

definition confirm :: "Solver \<Rightarrow> CoordKey \<Rightarrow> ArcCandidate \<Rightarrow> nat \<Rightarrow> Walk \<Rightarrow> Walk result" where
  "confirm s key candidate from' w =
     (let grp = group_of w key in
      case pending w grp candidate from' of
        None \<Rightarrow> Inr (mark_dirty grp w)
      | Some index \<Rightarrow>
          (case run_load (load_candidate s (snd candidate)) w of (r, w) \<Rightarrow>
             and_then r (\<lambda>load.
               case load of
                 Ready loaded \<Rightarrow>
                   and_then (expect (selection w grp) ''pending'') (\<lambda>sel.
                     if index < length (sel_candidates sel)
                     then scan_losers (s_backend s) grp from'
                            (put_selection grp (sel\<lparr>sel_candidates :=
                               (sel_candidates sel)[index := (w_arcs w, loaded)]\<rparr>) (w\<lparr>w_arcs := w_arcs w + 1\<rparr>))
                     else Inl (Panic ''index out of bounds''))
               | _ \<Rightarrow> Inr (mark_dirty grp w))))"

subsection \<open>Mediating a group\<close>

fun load_each :: "Solver \<Rightarrow> CoordKey \<Rightarrow> ArcCandidate list \<Rightarrow> Walk \<Rightarrow> Walk result" where
  "load_each s key [] w = Inr w"
| "load_each s key (c # cs) w =
     (let grp = group_of w key in
      if holds w grp c then and_then (load s grp c w) (load_each s key cs)
      else load_each s key cs w)"

definition already_loaded :: "Walk \<Rightarrow> CoordKey \<Rightarrow> Candidate \<Rightarrow> bool" where
  "already_loaded w key candidate =
     (case selection w key of
        None \<Rightarrow> False
      | Some sel \<Rightarrow> list_ex (\<lambda>c. same_text (c_coord (snd c)) (c_coord candidate) \<and>
          p_repos (q_path (c_item (snd c))) = p_repos (q_path (c_item candidate)) \<and>
          c_resolved_project (snd c) \<noteq> None) (sel_candidates sel))"

definition note_checked :: "CoordKey \<Rightarrow> nat \<Rightarrow> Walk \<Rightarrow> Walk" where
  "note_checked key at' w =
     (case selection w key of
        None \<Rightarrow> w
      | Some sel \<Rightarrow> put_selection key (sel\<lparr>sel_dirty_checked := insert at' (sel_dirty_checked sel)\<rparr>) w)"

fun probe_dirty :: "Solver \<Rightarrow> CoordKey \<Rightarrow> ArcCandidate list \<Rightarrow> bool \<Rightarrow> Walk \<Rightarrow> (bool \<times> Walk) result" where
  "probe_dirty s key [] relocated w = Inr (relocated, w)"
| "probe_dirty s key (c # cs) relocated w =
     (let grp = group_of w key in
      if \<not> holds w grp c then probe_dirty s key cs relocated w
      else if already_loaded w grp (snd c)
      then probe_dirty s key cs relocated (note_checked grp (declared_at (snd c)) w)
      else case run_load (load_candidate s (snd c)) w of (r, w) \<Rightarrow>
        and_then r (\<lambda>loaded.
          case loaded of
            Ready _ \<Rightarrow> probe_dirty s key cs relocated (note_checked grp (declared_at (snd c)) w)
          | Excluded \<Rightarrow> probe_dirty s key cs relocated (note_checked grp (declared_at (snd c)) w)
          | _ \<Rightarrow> and_then (load s grp c w) (probe_dirty s key cs True)))"

datatype progress = Finished Walk | Continue Walk

definition settle_group :: "CoordKey \<Rightarrow> Walk \<Rightarrow> Walk" where
  "settle_group key w =
     (case selection w key of None \<Rightarrow> w | Some sel \<Rightarrow> put_selection key (settle sel) w)"

text \<open>The end of a round, once no range is left to read: the best candidate wins.\<close>

definition elect :: "Solver \<Rightarrow> CoordKey \<Rightarrow> ArcCandidate \<Rightarrow> Walk \<Rightarrow> progress result" where
  "elect s key b w =
     and_then (expect (selection w key) ''mediated group'') (\<lambda>sel.
       let sel = sel\<lparr>sel_conflict := None\<rparr>; w = put_selection key sel w in
       if winner_is sel (snd b) then
         and_then (scan_losers (s_backend s) key 0
                     (put_selection key (settle (sel\<lparr>sel_winner := Some b\<rparr>)) w)) (\<lambda>w. Inr (Finished w))
       else if c_resolved_project (snd b) = None then
         and_then (load s key b w) (\<lambda>w. Inr (Continue w))
       else
         and_then (commit (s_backend s) key b w) (\<lambda>w.
         and_then (scan_losers (s_backend s) key 0 (settle_group key w)) (\<lambda>w. Inr (Finished w))))"

definition reconsider_step :: "Solver \<Rightarrow> CoordKey \<Rightarrow> Walk \<Rightarrow> progress result" where
  "reconsider_step s key0 w =
     (let key = group_of w key0 in
      case selection w key of
        None \<Rightarrow> Inr (Finished w)
      | Some sel \<Rightarrow>
          let sel = sel\<lparr>sel_settled := None\<rparr>; w = put_selection key sel w in
          if list_all (\<lambda>c. is_shadow (snd c)) (sel_candidates sel)
          then and_then (drop_group key w) (\<lambda>w. Inr (Finished w))
          else
            let b = best sel; waiting_ranges = unconfirmed sel b;
                dirty = (case b of None \<Rightarrow> [] | Some b \<Rightarrow> dirty_ranges sel (snd b)) in
            if waiting_ranges \<noteq> []
            then and_then (load_each s key waiting_ranges w) (\<lambda>w. Inr (Continue w))
            else (case b of
              None \<Rightarrow> Inr (Finished (put_selection key (note_conflict sel) w))
            | Some b \<Rightarrow>
                and_then (probe_dirty s key dirty False w) (\<lambda>(relocated, w).
                  if relocated then Inr (Continue w) else elect s key b w)))"

partial_function (option) reconsider :: "Solver \<Rightarrow> CoordKey \<Rightarrow> Walk \<Rightarrow> Walk result option" where
  [code]: "reconsider s key w =
     (case reconsider_step s key w of
        Inl e \<Rightarrow> Some (Inl e)
      | Inr p \<Rightarrow> (case p of Finished w \<Rightarrow> Some (Inr w) | Continue w \<Rightarrow> reconsider s key w))"

subsection \<open>Mediating an item\<close>

fun add_loads :: "Backend \<Rightarrow> (ResolveError + Load) list \<Rightarrow> Walk \<Rightarrow> Walk result" where
  "add_loads backend [] w = Inr w"
| "add_loads backend (loaded # rest) w =
     and_then (raise loaded) (\<lambda>load.
     and_then (case load of
                 Ready c \<Rightarrow> add_resolution backend (lone c) w
               | Relocated res \<Rightarrow> add_resolution backend res w
               | Cyclic res \<Rightarrow> add_resolution backend res w
               | Excluded \<Rightarrow> Inr w)
       (add_loads backend rest))"

fun confirm_each :: "Solver \<Rightarrow> (CoordKey \<times> ArcCandidate \<times> nat) list \<Rightarrow> Walk \<Rightarrow> Walk result" where
  "confirm_each s [] w = Inr w"
| "confirm_each s ((key, c, from') # rest) w = and_then (confirm s key c from' w) (confirm_each s rest)"

text \<open>The work other than mediation that is left: \<open>None\<close> when there is none.\<close>

definition settle_work :: "Solver \<Rightarrow> Walk \<Rightarrow> Walk result option" where
  "settle_work s w =
     (case w_unscanned w of
        (key, c) # rest \<Rightarrow>
          let w = w\<lparr>w_unscanned := rest\<rparr>; grp = group_of w key
          in Some (if holds w grp c then load s grp c w else Inr w)
      | [] \<Rightarrow>
          if w_walk_loads w \<noteq> [] then
            Some (case load_in_order s (last (w_walk_loads w)) (w_relocations w) of (loads, cache) \<Rightarrow>
              add_loads (s_backend s) loads
                (w\<lparr>w_walk_loads := butlast (w_walk_loads w), w_relocations := cache\<rparr>))
          else if w_confirm w \<noteq> [] then Some (confirm_each s (w_confirm w) (w\<lparr>w_confirm := []\<rparr>))
          else None)"

partial_function (option) mediate_loop :: "Solver \<Rightarrow> Walk \<Rightarrow> Walk result option" where
  [code]: "mediate_loop s w =
     (case settle_work s w of
        Some r \<Rightarrow> (case r of Inl e \<Rightarrow> Some (Inl e) | Inr w \<Rightarrow> mediate_loop s w)
      | None \<Rightarrow>
          (case take_dirty w of
             None \<Rightarrow> Some (Inr w)
           | Some p \<Rightarrow>
               Option.bind (reconsider s (fst p) (snd p)) (\<lambda>r.
                 case r of Inl e \<Rightarrow> Some (Inl e) | Inr w \<Rightarrow> mediate_loop s w)))"

definition mediate :: "Solver \<Rightarrow> QueueItem \<Rightarrow> Resolution option result \<Rightarrow> Walk \<Rightarrow> Walk result option" where
  "mediate s item outcome w =
     (case is_live w item of
        Inl e \<Rightarrow> Some (Inl e)
      | Inr live \<Rightarrow>
          if \<not> live then Some (Inr w)
          else (case and_then outcome (\<lambda>res.
                 (case res of None \<Rightarrow> Inr w | Some res \<Rightarrow> add_resolution (s_backend s) res w)) of
            Inl e \<Rightarrow> Some (Inl e)
          | Inr w \<Rightarrow> mediate_loop s w))"

subsection \<open>Solving\<close>

record SolverRoot =
  sr_coord :: Coord
  sr_dependencies :: "Dependency list"
  sr_scope :: Scope

definition root_item :: "Walk \<Rightarrow> PathNode \<Rightarrow> nat \<Rightarrow> Dependency \<Rightarrow> nat \<Rightarrow> QueueItem" where
  "root_item w path index dep at' =
     \<lparr>q_parent = g_root (w_graph w), q_parent_generation = ROOT_GENERATION, q_dependency = dep,
      q_managed_scope = False, q_depth = 1, q_order = order_child RootOrder index,
      q_declared_at = at', q_exclusions = [], q_path = path, q_shadow = None\<rparr>"

definition check_declared :: "Solver \<Rightarrow> QueueItem \<Rightarrow> ResolveError + unit" where
  "check_declared s item =
     (let item = apply_managed_metadata (s_management s) item; dep = q_dependency item in
      if effective_scope dep = Import then Inr ()
      else and_then (resolve_version_str (s_management s) dep 1) (\<lambda>v.
           and_then (refuse_undefined_property s item v) (\<lambda>_.
           and_then (parse_requested_requirement (s_lc s) (d_group_id dep) (d_artifact_id dep) v) (\<lambda>_.
           Inr ()))))"

fun start_each :: "Solver \<Rightarrow> PathNode \<Rightarrow> nat \<Rightarrow> Dependency list \<Rightarrow> Walk \<Rightarrow> Walk result" where
  "start_each s path index [] w = Inr w"
| "start_each s path index (dep # deps) w =
     (case declare_next w of (at', w) \<Rightarrow>
        let item = root_item w path index dep at' in
        and_then (raise (check_declared s item)) (\<lambda>_.
        and_then (raise (push_queue (w_queue w) item)) (\<lambda>queue.
          start_each s path (Suc index) deps (w\<lparr>w_queue := queue\<rparr>))))"

definition start :: "Solver \<Rightarrow> SolverRoot \<Rightarrow> Walk result" where
  "start s root =
     start_each s (PathNode_root (sr_coord root)) 0 (sr_dependencies root)
       (Walk_new (Graph_new ((new_node (sr_coord root) (sr_scope root))\<lparr>n_workspace_module :=
          b_workspace_module (s_backend s) (sr_coord root)\<rparr>)))"

definition check_root :: "Solver \<Rightarrow> SolverRoot \<Rightarrow> unit result" where
  "check_root s root = and_then (start s root) (\<lambda>_. Inr ())"

text \<open>
  \<^verbatim>\<open>hint_queued\<close>: what the backend is told of the items queued since the last hint, in the order the queue
  hands them out, and that it was told. \<^verbatim>\<open>hint_children\<close>: what it is told of the dependencies of a project that was
  read, before they are queued.
\<close>

datatype Hint = PrefetchRange string string VersionReq RepoContext | PrefetchProject Coord RepoContext

definition item_hints :: "Solver \<Rightarrow> QueueItem \<Rightarrow> Hint list" where
  "item_hints s item =
     (case prefetch_requirement s item of
        None \<Rightarrow> []
      | Some (dep, RRanges req) \<Rightarrow>
          [PrefetchRange (d_group_id dep) (d_artifact_id dep) req (p_repos (q_path item))]
      | Some (dep, requirement) \<Rightarrow>
          (case fixed_coord dep requirement of
             None \<Rightarrow> []
           | Some coord \<Rightarrow> [PrefetchProject coord (p_repos (q_path item))]))"

definition hint_queued :: "Solver \<Rightarrow> Walk \<Rightarrow> Hint list \<times> Walk" where
  "hint_queued s w =
     (if w_hinted w \<ge> w_next_declared_at w \<or> \<not> b_prefetches (s_backend s) then ([], w)
      else (concat (map (item_hints s)
              (sort_by (\<lambda>a b. QueueItem_cmp b a) (filter (\<lambda>item. q_declared_at item \<ge> w_hinted w) (w_queue w)))),
            w\<lparr>w_hinted := w_next_declared_at w\<rparr>))"

definition hint_children :: "Solver \<Rightarrow> QueueItem \<Rightarrow> Coord \<Rightarrow> Project \<Rightarrow> Hint list" where
  "hint_children s item coord project =
     (if \<not> b_prefetches (s_backend s) then []
      else
        let repos = b_extend_repo_context (s_backend s) (p_repos (q_path item)) coord project in
        List.map_filter (\<lambda>dep.
          map_option (\<lambda>c. PrefetchProject c repos)
            (prefetch_coord s (item\<lparr>q_dependency := child_dependency project dep, q_depth := q_depth item + 1,
               q_exclusions := extend_exclusions (q_exclusions item) (d_exclusions (q_dependency item))\<rparr>)))
        (pr_dependencies project))"

definition unresolved_winners :: "Walk \<Rightarrow> Candidate list" where
  "unresolved_winners w =
     List.map_filter (\<lambda>(key, sel).
       case sel_winner sel of
         None \<Rightarrow> None
       | Some winner \<Rightarrow>
           if names_property (c_coord (snd winner)) \<and> sel_node sel \<in> set (reachable (w_graph w))
           then Some (snd winner) else None)
     (w_selected w)"

definition refuse_unresolved_winners :: "Solver \<Rightarrow> Walk \<Rightarrow> ResolveError + unit" where
  "refuse_unresolved_winners s w =
     (case min_by (\<lambda>a b. cmp_of (declared_at a) (declared_at b)) (unresolved_winners w) of
        None \<Rightarrow> Inr ()
      | Some winner \<Rightarrow>
          let item = c_item winner in
          and_then (resolve_version_str (s_management s) (q_dependency item) (q_depth item)) (\<lambda>v.
            map_err (\<lambda>err. declared_below err (q_path item)) (refuse_undefined_property s item v)))"

definition read_item :: "Solver \<Rightarrow> QueueItem \<Rightarrow> Walk \<Rightarrow> Resolution option result \<times> Walk" where
  "read_item s item w =
     (case resolve_item s item (w_relocations w) of (r, cache) \<Rightarrow>
        (raise (map_err (\<lambda>err. declared_below err (q_path item)) r), w\<lparr>w_relocations := cache\<rparr>))"

text \<open>The drained queue: either excluded dependencies were queued, or the walk ends.\<close>

definition drained :: "visit_order \<Rightarrow> Solver \<Rightarrow> Walk \<Rightarrow> (Walk + Graph) result" where
  "drained visit s w =
     and_then (walk_excluded_dependencies (s_backend s) w) (\<lambda>(queued, w).
       if queued then Inr (Inl w)
       else and_then (raise (refuse_unresolved_winners s w)) (\<lambda>_.
            and_then (finish visit (s_backend s) w) (\<lambda>g. Inr (Inr g))))"

partial_function (option) solve_loop :: "visit_order \<Rightarrow> Solver \<Rightarrow> Walk \<Rightarrow> Graph result option" where
  [code]: "solve_loop visit s w =
     (case heap_pop (w_queue (snd (hint_queued s w))) of
        None \<Rightarrow>
          (case drained visit s (snd (hint_queued s w)) of
             Inl e \<Rightarrow> Some (Inl e)
           | Inr r \<Rightarrow> (case r of Inl w \<Rightarrow> solve_loop visit s w | Inr g \<Rightarrow> Some (Inr g)))
      | Some p \<Rightarrow>
          (let q = read_item s (fst p) ((snd (hint_queued s w))\<lparr>w_queue := snd p\<rparr>) in
           Option.bind (mediate s (fst p) (fst q) (snd q)) (\<lambda>r.
             case r of Inl e \<Rightarrow> Some (Inl e) | Inr w \<Rightarrow> solve_loop visit s w)))"

definition solve :: "visit_order \<Rightarrow> Solver \<Rightarrow> SolverRoot \<Rightarrow> Graph result option" where
  "solve visit s root =
     (case start s root of
        Inl e \<Rightarrow> Some (Inl e)
      | Inr w \<Rightarrow> solve_loop visit s w)"

end
