(* ===== verification/Walk_Invariant.thy ===== *)
theory Walk_Invariant
  imports Group_Winner Solver_Loop
begin

text \<open>
  The invariant of a walk and that the operations of \<^verbatim>\<open>rv-resolver/src/solver/mod.rs\<close> on it keep it. A result is
  safe when it is no panic and its value has the property asked for. Every operation of the walk, from
  marking a group dirty to adding a resolution, is safe: it gives a walk that satisfies the invariant again, and
  that has declared as many items as it queued. The property at the end describes the merging of groups.
\<close>

section \<open>Results that are no panic\<close>

text \<open>A result is safe when it is a value with a property or an error of the resolver: no panic.\<close>

definition safe :: "('a \<Rightarrow> bool) \<Rightarrow> 'a result \<Rightarrow> bool" where
  "safe P r = (case r of Inr x \<Rightarrow> P x | Inl (Error e) \<Rightarrow> True | Inl (Panic m) \<Rightarrow> False)"

named_theorems safe_rules

lemma safe_simps [simp]:
  "safe P (Inr x) = P x"
  "safe P (Inl (Error e))"
  "\<not> safe P (Inl (Panic m))"
  by (simp_all add: safe_def)

lemma safe_and_then [safe_rules]:
  "safe P m \<Longrightarrow> (\<And>x. P x \<Longrightarrow> safe Q (f x)) \<Longrightarrow> safe Q (and_then m f)"
  by (cases m) (auto simp: safe_def)

lemma safe_mono: "safe P r \<Longrightarrow> (\<And>x. P x \<Longrightarrow> Q x) \<Longrightarrow> safe Q r"
  by (cases r) (auto simp: safe_def split: failure.splits)

lemma safe_raise: "(\<And>x. r = Inr x \<Longrightarrow> P x) \<Longrightarrow> safe P (raise r)"
  by (cases r) (auto simp: raise_def map_err_def)

lemma safe_expect [simp]: "safe P (expect opt m) \<longleftrightarrow> (\<exists>x. opt = Some x \<and> P x)"
  by (cases opt) (simp_all add: expect_def)

lemma safe_index_at [simp]: "safe P (index_at xs i) \<longleftrightarrow> i < length xs \<and> P (xs ! i)"
  by (simp add: index_at_def)

section \<open>The parts of the invariant\<close>

text \<open>An item's parent is a node and its order is one that the walk builds.\<close>

definition placed :: "nat \<Rightarrow> QueueItem \<Rightarrow> bool" where
  "placed n item \<longleftrightarrow> q_parent item < n \<and> order_ok (q_order item)"

definition cand_ok :: "Solver \<Rightarrow> nat \<Rightarrow> Candidate \<Rightarrow> bool" where
  "cand_ok s n c \<longleftrightarrow> placed n (c_item c) \<and> c_source c \<noteq> [] \<and>
     (lowercases (s_lc s) \<longrightarrow> (\<forall>h. c_hard c = Some h \<longrightarrow> hard_ok (s_lc s) h))"

definition arcs_ok :: "Solver \<Rightarrow> nat \<Rightarrow> ArcCandidate list \<Rightarrow> bool" where
  "arcs_ok s n cs \<longleftrightarrow> (\<forall>c \<in> set cs. cand_ok s n (snd c))"

definition graph_ok :: "Graph \<Rightarrow> bool" where
  "graph_ok g \<longleftrightarrow> g_root g < node_count g \<and>
     (\<forall>r \<in> set (g_edges g). 
        edge_source r < node_count g \<and> edge_target r < node_count g \<and> edge_target r \<noteq> g_root g)"

text \<open>Following the map of merged groups ends within as many steps as it has entries.\<close>

definition groups_ok :: "(CoordKey \<times> CoordKey) list \<Rightarrow> bool" where
  "groups_ok groups \<longleftrightarrow> (\<forall>key. map_of groups (group_in groups key) = None)"

text \<open>Every group has its own node, which is not the root, and is kept under the key that stands for it.\<close>

definition selected_ok ::
  "Solver \<Rightarrow> Graph \<Rightarrow> (CoordKey \<times> CoordKey) list \<Rightarrow> (CoordKey \<Rightarrow> Selected option) \<Rightarrow> bool" where
  "selected_ok s g groups sels \<longleftrightarrow>
     (\<forall>key sel. sels key = Some sel \<longrightarrow>
        sel_node sel < node_count g \<and> sel_node sel \<noteq> g_root g \<and> arcs_ok s (node_count g) (sel_candidates sel) \<and>
        map_of groups key = None) \<and>
     (\<forall>k l a b. sels k = Some a \<longrightarrow> sels l = Some b \<longrightarrow> sel_node a = sel_node b \<longrightarrow> k = l)"

definition queue_ok :: "nat \<Rightarrow> nat \<Rightarrow> QueueItem list \<Rightarrow> bool" where
  "queue_ok n declared queue \<longleftrightarrow>
     declared \<le> MAX_DECLARATIONS \<and> length queue \<le> MAX_QUEUE_SIZE \<and> distinct (map q_declared_at queue) \<and>
     (\<forall>item \<in> set queue. placed n item \<and> q_depth item \<le> MAX_DEPTH \<and>
        q_declared_at item < declared \<and> q_declared_at item < MAX_DECLARATIONS)"

definition work_ok ::
  "Solver \<Rightarrow> nat \<Rightarrow> ArcCandidate list list \<Rightarrow> (CoordKey \<times> ArcCandidate \<times> nat) list \<Rightarrow>
   (CoordKey \<times> ArcCandidate) list \<Rightarrow> bool" where
  "work_ok s n loads confirms unscanned \<longleftrightarrow>
     (\<forall>cs \<in> set loads. arcs_ok s n cs) \<and>
     (\<forall>e \<in> set confirms. cand_ok s n (snd (fst (snd e)))) \<and>
     (\<forall>e \<in> set unscanned. cand_ok s n (snd (snd e)))"

definition walk_ok :: "Solver \<Rightarrow> Walk \<Rightarrow> bool" where
  "walk_ok s w \<longleftrightarrow>
     graph_ok (w_graph w) \<and> length (w_generations w) = node_count (w_graph w) \<and>
     groups_ok (w_groups w) \<and> selected_ok s (w_graph w) (w_groups w) (selection w) \<and>
     w_dirty_set w = set (w_dirty w) \<and> distinct (w_dirty w) \<and>
     queue_ok (node_count (w_graph w)) (w_next_declared_at w) (w_queue w) \<and>
     work_ok s (node_count (w_graph w)) (w_walk_loads w) (w_confirm w) (w_unscanned w)"

text \<open>What a step keeps: the invariant and every node; some steps also keep the groups and their nodes.\<close>

definition grows :: "Walk \<Rightarrow> Walk \<Rightarrow> bool" where
  "grows w w' \<longleftrightarrow> node_count (w_graph w) \<le> node_count (w_graph w') \<and>
     w_next_declared_at w \<le> w_next_declared_at w' \<and>
     w_next_declared_at w + length (w_queue w') \<le> w_next_declared_at w' + length (w_queue w)"

definition step_ok :: "Solver \<Rightarrow> Walk \<Rightarrow> Walk \<Rightarrow> bool" where
  "step_ok s w w' \<longleftrightarrow> walk_ok s w' \<and> grows w w'"

definition keep :: "Walk \<Rightarrow> Walk \<Rightarrow> bool" where
  "keep w w' \<longleftrightarrow> grows w w' \<and> node_count (w_graph w') = node_count (w_graph w) \<and> g_root (w_graph w') = g_root (w_graph w) \<and>
     w_groups w' = w_groups w \<and>
     (\<forall>k. map_option sel_node (selection w' k) = map_option sel_node (selection w k))"

definition keep_ok :: "Solver \<Rightarrow> Walk \<Rightarrow> Walk \<Rightarrow> bool" where
  "keep_ok s w w' \<longleftrightarrow> walk_ok s w' \<and> keep w w'"

lemma grows_refl [simp]: "grows w w"
  by (simp add: grows_def)

lemma grows_trans: "grows u v \<Longrightarrow> grows v w \<Longrightarrow> grows u w"
  by (simp add: grows_def)

lemma grows_count: "grows w w' \<Longrightarrow> node_count (w_graph w) \<le> node_count (w_graph w')"
  by (simp add: grows_def)

lemma step_ok_refl [simp]: "step_ok s w w \<longleftrightarrow> walk_ok s w"
  by (simp add: step_ok_def)

lemma keep_refl [simp]: "keep w w"
  by (simp add: keep_def)

lemma keep_trans: "keep u v \<Longrightarrow> keep v w \<Longrightarrow> keep u w"
  by (auto simp: keep_def intro: grows_trans)

lemma keep_ok_refl [simp]: "keep_ok s w w \<longleftrightarrow> walk_ok s w"
  by (simp add: keep_ok_def)

lemma keep_ok_trans: "keep_ok s u v \<Longrightarrow> keep_ok s v w \<Longrightarrow> keep_ok s u w"
  by (auto simp: keep_ok_def intro: keep_trans)

lemma step_ok_trans: "step_ok s u v \<Longrightarrow> step_ok s v w \<Longrightarrow> step_ok s u w"
  by (auto simp: step_ok_def intro: grows_trans)

lemma keep_ok_step: "keep_ok s w w' \<Longrightarrow> step_ok s w w'"
  by (simp add: keep_ok_def step_ok_def keep_def)

lemma keep_ok_walk: "keep_ok s w w' \<Longrightarrow> walk_ok s w'"
  by (simp add: keep_ok_def)

lemma step_ok_walk: "step_ok s w w' \<Longrightarrow> walk_ok s w'"
  by (simp add: step_ok_def)

lemma safe_keep_step: "safe (keep_ok s w) r \<Longrightarrow> safe (step_ok s w) r"
  by (erule safe_mono) (rule keep_ok_step)

lemma safe_keep_seq:
  "safe (keep_ok s w) r \<Longrightarrow> (\<And>v. keep_ok s w v \<Longrightarrow> safe (keep_ok s v) (f v)) \<Longrightarrow> safe (keep_ok s w) (and_then r f)"
  by (erule safe_and_then) (blast intro: safe_mono keep_ok_trans)

lemma safe_step_seq:
  "safe (step_ok s w) r \<Longrightarrow> (\<And>v. step_ok s w v \<Longrightarrow> safe (step_ok s v) (f v)) \<Longrightarrow> safe (step_ok s w) (and_then r f)"
  by (erule safe_and_then) (blast intro: safe_mono step_ok_trans)

lemma safe_step_count:
  "safe (step_ok s u) r \<Longrightarrow> grows w u \<Longrightarrow> safe (step_ok s w) r"
  by (erule safe_mono) (auto simp: step_ok_def intro: grows_trans)

lemma safe_step_after: "step_ok s w v \<Longrightarrow> safe (step_ok s v) r \<Longrightarrow> safe (step_ok s w) r"
  by (erule safe_step_count) (simp add: step_ok_def)

lemma safe_keep_after: "step_ok s w v \<Longrightarrow> safe (keep_ok s v) r \<Longrightarrow> safe (step_ok s w) r"
  by (rule safe_step_after, assumption, rule safe_keep_step)

lemma placed_mono: "placed n item \<Longrightarrow> n \<le> m \<Longrightarrow> placed m item"
  by (simp add: placed_def)

lemma cand_ok_mono: "cand_ok s n c \<Longrightarrow> n \<le> m \<Longrightarrow> cand_ok s m c"
  by (auto simp: cand_ok_def intro: placed_mono)

lemma arcs_ok_mono: "arcs_ok s n cs \<Longrightarrow> n \<le> m \<Longrightarrow> arcs_ok s m cs"
  by (auto simp: arcs_ok_def intro: cand_ok_mono)

lemma arcs_ok_simps [simp]:
  "arcs_ok s n []"
  "arcs_ok s n (c # cs) \<longleftrightarrow> cand_ok s n (snd c) \<and> arcs_ok s n cs"
  "arcs_ok s n (cs @ ds) \<longleftrightarrow> arcs_ok s n cs \<and> arcs_ok s n ds"
  by (auto simp: arcs_ok_def)

lemma arcs_ok_filter: "arcs_ok s n cs \<Longrightarrow> arcs_ok s n (filter P cs)"
  by (auto simp: arcs_ok_def)

lemma arcs_ok_subset: "arcs_ok s n cs \<Longrightarrow> set ds \<subseteq> set cs \<Longrightarrow> arcs_ok s n ds"
  by (auto simp: arcs_ok_def)

section \<open>Merged groups\<close>

lemma group_steps_None: "map_of groups key = None \<Longrightarrow> group_steps n groups key = key"
  by (cases n) simp_all

lemma group_in_None: "map_of groups key = None \<Longrightarrow> group_in groups key = key"
  by (simp add: group_in_def group_steps_None)

lemma group_steps_merge:
  assumes "map_of groups from' = None" and "map_of groups into = None" and "into \<noteq> from'"
    and "map_of groups (group_steps n groups key) = None"
  shows "group_steps (Suc n) (AList.update from' into groups) key =
    (if group_steps n groups key = from' then into else group_steps n groups key)"
  using assms(4)
proof (induction n arbitrary: key)
  case (Suc n)
  show ?case
  proof (cases "map_of groups key")
    case None
    with assms(1-3) show ?thesis by (simp add: update_conv' group_steps_None)
  next
    case (Some l)
    with assms(1) have "key \<noteq> from'" by auto
    with Some Suc.IH [of l] Suc.prems show ?thesis by (simp add: update_conv')
  qed
qed (use assms(1-3) in \<open>simp add: update_conv'\<close>)

lemma group_in_merge:
  assumes "groups_ok groups" and "map_of groups from' = None" and "map_of groups into = None" and "into \<noteq> from'"
  shows "group_in (AList.update from' into groups) key =
    (if group_in groups key = from' then into else group_in groups key)"
proof -
  have "length (AList.update from' into groups) = Suc (length groups)"
    using assms(2) by (simp add: update_new map_of_eq_None_iff)
  then show ?thesis
    using group_steps_merge [OF assms(2-4), of "length groups" key] assms(1)
    by (simp only: group_in_def groups_ok_def)
qed

lemma groups_ok_merge:
  assumes "groups_ok groups" and "map_of groups from' = None" and "map_of groups into = None" and "into \<noteq> from'"
  shows "groups_ok (AList.update from' into groups)"
  unfolding groups_ok_def group_in_merge [OF assms]
  using assms by (auto simp: update_conv' groups_ok_def)

lemma groups_ok_Nil [simp]: "groups_ok []"
  by (simp add: groups_ok_def)

lemma group_of_rep: "walk_ok s w \<Longrightarrow> map_of (w_groups w) (group_of w key) = None"
  by (simp add: walk_ok_def groups_ok_def group_of_def)

lemma group_of_idem: "walk_ok s w \<Longrightarrow> group_of w (group_of w key) = group_of w key"
  using group_of_rep by (simp add: group_of_def group_in_None)

section \<open>Steps that keep the groups\<close>

lemmas walk_parts = walk_ok_def selection_def [abs_def]

lemma mark_dirty_ok: "walk_ok s w \<Longrightarrow> keep_ok s w (mark_dirty key w)"
  by (auto simp: walk_parts keep_ok_def keep_def grows_def mark_dirty_def)

lemma take_dirty_ok: "take_dirty w = Some (key, w') \<Longrightarrow> walk_ok s w \<Longrightarrow> keep_ok s w w'"
  by (auto simp: walk_parts keep_ok_def keep_def grows_def take_dirty_def split: list.splits)

lemma add_shadow_ok: "walk_ok s w \<Longrightarrow> keep_ok s w (add_shadow origin key w)"
  by (simp add: walk_parts keep_ok_def keep_def grows_def add_shadow_def)

lemma selection_put [simp]: "selection (put_selection key sel w) k = (if k = key then Some sel else selection w k)"
  by (simp add: selection_def put_selection_def update_conv')

lemma put_selection_fields [simp]:
  "w_graph (put_selection key sel w) = w_graph w" "w_groups (put_selection key sel w) = w_groups w"
  "w_arcs (put_selection key sel w) = w_arcs w" "w_generations (put_selection key sel w) = w_generations w"
  "w_queue (put_selection key sel w) = w_queue w"
  "w_next_declared_at (put_selection key sel w) = w_next_declared_at w"
  by (simp_all add: put_selection_def)

lemma put_selection_walk:
  "walk_ok s w \<Longrightarrow> selected_ok s (w_graph w) (w_groups w) ((selection w)(key \<mapsto> sel)) \<Longrightarrow>
   walk_ok s (put_selection key sel w)"
  by (simp add: walk_parts put_selection_def update_conv')

lemma put_same_ok:
  assumes "walk_ok s w" and "selection w key = Some old" and "sel_node sel = sel_node old"
    and "arcs_ok s (node_count (w_graph w)) (sel_candidates sel)"
  shows "keep_ok s w (put_selection key sel w)"
proof -
  have "selected_ok s (w_graph w) (w_groups w) (selection w)" using assms(1) by (simp add: walk_ok_def)
  with assms(2-) have "selected_ok s (w_graph w) (w_groups w) ((selection w)(key \<mapsto> sel))"
    unfolding selected_ok_def by (auto split: if_splits)
  with put_selection_walk [OF assms(1)] assms(2,3) show ?thesis by (simp add: keep_ok_def keep_def grows_def)
qed

lemma selection_ok:
  assumes "walk_ok s w" and "selection w key = Some sel"
  shows "sel_node sel < node_count (w_graph w)" "sel_node sel \<noteq> g_root (w_graph w)"
    "arcs_ok s (node_count (w_graph w)) (sel_candidates sel)" "map_of (w_groups w) key = None"
  using assms by (auto simp: walk_ok_def selected_ok_def)

lemma arcs_field_ok [simp]: "walk_ok s (w\<lparr>w_arcs := a\<rparr>) \<longleftrightarrow> walk_ok s w"
  by (simp add: walk_parts)

lemma cache_field_ok [simp]: "walk_ok s (w\<lparr>w_relocations := a\<rparr>) \<longleftrightarrow> walk_ok s w"
  by (simp add: walk_parts)

lemma shadows_field_ok [simp]: "walk_ok s (w\<lparr>w_shadows := a\<rparr>) \<longleftrightarrow> walk_ok s w"
  by (simp add: walk_parts)

lemma declared_field_ok [simp]: "walk_ok s (w\<lparr>w_declared := a\<rparr>) \<longleftrightarrow> walk_ok s w"
  by (simp add: walk_parts)

lemma hinted_field_ok [simp]: "walk_ok s (w\<lparr>w_hinted := a\<rparr>) \<longleftrightarrow> walk_ok s w"
  by (simp add: walk_parts)

lemma selection_fields [simp]:
  "selection (w\<lparr>w_arcs := a\<rparr>) = selection w" "selection (w\<lparr>w_relocations := b\<rparr>) = selection w"
  "selection (w\<lparr>w_shadows := c\<rparr>) = selection w" "selection (w\<lparr>w_declared := d\<rparr>) = selection w"
  "selection (w\<lparr>w_graph := g\<rparr>) = selection w" "selection (w\<lparr>w_hinted := h\<rparr>) = selection w"
  "selection (w\<lparr>w_confirm := i\<rparr>) = selection w" "selection (w\<lparr>w_queue := j\<rparr>) = selection w"
  by (simp_all add: selection_def fun_eq_iff)

lemma keep_fields [simp]:
  "keep w (w'\<lparr>w_arcs := a\<rparr>) \<longleftrightarrow> keep w w'" "keep w (w'\<lparr>w_relocations := b\<rparr>) \<longleftrightarrow> keep w w'"
  "keep w (w'\<lparr>w_shadows := c\<rparr>) \<longleftrightarrow> keep w w'" "keep w (w'\<lparr>w_declared := d\<rparr>) \<longleftrightarrow> keep w w'"
  "keep w (w'\<lparr>w_hinted := h\<rparr>) \<longleftrightarrow> keep w w'"
  by (simp_all add: keep_def grows_def)

subsection \<open>Shadows\<close>

lemma revalidate_targets_ok:
  "walk_ok s w \<Longrightarrow> keep_ok s w (snd (revalidate_targets grp targets retained w))"
proof (induction grp targets retained w rule: revalidate_targets.induct)
  case (2 grp key targets retained w)
  let ?key = "group_of w key"
  show ?case
  proof (cases "?key \<in> set retained \<or> selection w ?key = None")
    case True
    then show ?thesis using 2 by (auto simp: Let_def split: option.splits)
  next
    case False
    then obtain sel where sel: "selection w ?key = Some sel" by auto
    let ?stale = "filter (\<lambda>c. stale_shadow w grp (snd c)) (sel_candidates sel)"
    let ?w = "if ?stale \<noteq> [] then mark_dirty ?key (put_selection ?key (sel\<lparr>sel_candidates :=
          filter (\<lambda>c. \<not> list_ex (\<lambda>s. ptr_eq s c) ?stale) (sel_candidates sel)\<rparr>) w) else w"
    have "keep_ok s w (put_selection ?key (sel\<lparr>sel_candidates :=
          filter (\<lambda>c. \<not> list_ex (\<lambda>s. ptr_eq s c) ?stale) (sel_candidates sel)\<rparr>) w)"
      using selection_ok [OF "2.prems" sel] by (intro put_same_ok [OF "2.prems" sel]) (simp_all add: arcs_ok_filter)
    then have w: "keep_ok s w ?w"
      using "2.prems" by (auto intro: keep_ok_trans mark_dirty_ok keep_ok_walk)
    show ?thesis
      using "2.IH"(3) [OF refl _ sel refl refl refl keep_ok_walk [OF w]] False sel
      by (auto simp: Let_def intro: keep_ok_trans [OF w])
  qed
qed simp

lemma revalidate_shadows_ok:
  assumes "walk_ok s w"
  shows "keep_ok s w (revalidate_shadows grp w)"
proof (cases "map_of (w_shadows w) grp")
  case (Some targets)
  let ?w = "w\<lparr>w_shadows := AList.delete grp (w_shadows w)\<rparr>"
  have "keep_ok s w ?w" using assms by (simp add: keep_ok_def)
  moreover have "keep_ok s ?w (snd (revalidate_targets grp targets [] ?w))"
    using assms by (intro revalidate_targets_ok) simp
  ultimately have "keep_ok s w (snd (revalidate_targets grp targets [] ?w))" by (rule keep_ok_trans)
  with Some show ?thesis
    by (auto simp: revalidate_shadows_def keep_ok_def split: prod.splits)
qed (use assms in \<open>simp add: revalidate_shadows_def\<close>)

subsection \<open>Retiring\<close>

lemma cand_ok_shadow [simp]:
  "cand_ok s n (c\<lparr>c_item := (c_item c)\<lparr>q_shadow := x\<rparr>\<rparr>) \<longleftrightarrow> cand_ok s n c"
  by (simp add: cand_ok_def placed_def)

lemma retain_retired_ok:
  "arcs_ok s n cs \<Longrightarrow> arcs_ok s n (fst (retain_retired node old convert arcs cs))"
proof (induction cs arbitrary: arcs)
  case (Cons c cs)
  obtain a b where "c = (a, b)" by fastforce
  with Cons.IH [of arcs] Cons.IH [of "Suc arcs"] Cons.prems show ?case
    by (auto split: option.splits prod.splits)
qed simp

lemma retire_keys_ok:
  "walk_ok s w \<Longrightarrow> keep_ok s w (snd (retire_keys n old convert keys touched w))"
proof (induction keys arbitrary: touched w)
  case (Cons key keys)
  let ?key = "group_of w key"
  let ?conv = "case convert of
      Some (origin, path) \<Rightarrow> if mediated_before w ?key (so_group origin) then Some (origin, path) else None
    | None \<Rightarrow> None"
  show ?case
  proof (cases "?key \<in> set touched \<or> selection w ?key = None")
    case True
    then show ?thesis using Cons by (auto simp: Let_def split: option.splits)
  next
    case False
    then obtain sel where sel: "selection w ?key = Some sel" by auto
    obtain retained changed converted arcs where
      r: "retain_retired n old ?conv (w_arcs w) (sel_candidates sel) = (retained, changed, converted, arcs)"
      by (cases "retain_retired n old ?conv (w_arcs w) (sel_candidates sel)") auto
    let ?w = "put_selection ?key (sel\<lparr>sel_candidates := retained\<rparr>) (w\<lparr>w_arcs := arcs\<rparr>)"
    have "arcs_ok s (node_count (w_graph w)) retained"
      using retain_retired_ok [OF selection_ok(3) [OF Cons.prems sel], of n old ?conv "w_arcs w"] r by simp
    then have put: "keep_ok s (w\<lparr>w_arcs := arcs\<rparr>) ?w"
      using Cons.prems sel by (intro put_same_ok [where old = sel]) simp_all
    have "keep_ok s w (w\<lparr>w_arcs := arcs\<rparr>)" using Cons.prems by (simp add: keep_ok_def)
    from keep_ok_trans [OF this put] have w: "keep_ok s w ?w" .
    define w' where "w' = (case ?conv of
        Some (origin, _) \<Rightarrow> if converted then add_shadow (group_of ?w (so_group origin)) ?key ?w else ?w
      | None \<Rightarrow> ?w)"
    have "keep_ok s ?w w'"
      unfolding w'_def using keep_ok_walk [OF w] by (auto intro: add_shadow_ok split: option.splits)
    with w have "keep_ok s w w'" by (rule keep_ok_trans)
    moreover have "retire_keys n old convert (key # keys) touched w =
        retire_keys n old convert keys (if changed then touched @ [?key] else touched) w'"
      using False sel r by (simp add: Let_def w'_def)
    ultimately show ?thesis
      using keep_ok_trans [OF _ Cons.IH [OF keep_ok_walk]] by simp
  qed
qed simp

lemma graph_edges_ok:
  "graph_ok g \<Longrightarrow> set (g_edges h) \<subseteq> set (g_edges g) \<Longrightarrow> node_count h = node_count g \<Longrightarrow>
   g_root h = g_root g \<Longrightarrow> graph_ok h"
  by (auto simp: graph_ok_def)

lemma selected_graph:
  "selected_ok s g groups sels \<Longrightarrow> node_count h = node_count g \<Longrightarrow> g_root h = g_root g \<Longrightarrow>
   selected_ok s h groups sels"
  by (simp add: selected_ok_def)

lemma graph_field_ok:
  "walk_ok s w \<Longrightarrow> graph_ok h \<Longrightarrow> node_count h = node_count (w_graph w) \<Longrightarrow> g_root h = g_root (w_graph w) \<Longrightarrow>
   keep_ok s w (w\<lparr>w_graph := h\<rparr>)"
  by (auto simp: walk_parts keep_ok_def keep_def grows_def intro: selected_graph)

lemma fold_keep:
  "(\<And>x w. walk_ok s w \<Longrightarrow> keep_ok s w (f x w)) \<Longrightarrow> walk_ok s w \<Longrightarrow> keep_ok s w (fold f xs w)"
proof (induction xs arbitrary: w)
  case (Cons x xs)
  have "keep_ok s w (f x w)" using Cons.prems by blast
  moreover from this have "keep_ok s (f x w) (fold f xs (f x w))" using Cons keep_ok_walk by blast
  ultimately show ?case by (simp add: keep_ok_trans)
qed simp

lemma clear_fields [simp]:
  "node_count (clear_outgoing g n) = node_count g" "g_root (clear_outgoing g n) = g_root g"
  "node_count (clear_incoming g n) = node_count g" "g_root (clear_incoming g n) = g_root g"
  by (simp_all add: clear_outgoing_def clear_incoming_def node_count_def)

lemma clear_ok: "graph_ok g \<Longrightarrow> graph_ok (clear_outgoing g n)" "graph_ok g \<Longrightarrow> graph_ok (clear_incoming g n)"
  by (auto simp: graph_ok_def clear_outgoing_def clear_incoming_def node_count_def)

lemma retire_ok:
  assumes "walk_ok s w" and "n < node_count (w_graph w)"
  shows "safe (keep_ok s w) (retire n convert w)"
proof -
  let ?gen = "w_next_generation w"
  let ?w = "w\<lparr>w_next_generation := ?gen + 1, w_generations := (w_generations w)[n := ?gen],
      w_graph := clear_outgoing (w_graph w) n, w_declared := AList.delete n (w_declared w)\<rparr>"
  have w: "keep_ok s w ?w"
    using assms by (auto simp: walk_parts keep_ok_def keep_def grows_def intro: clear_ok selected_graph)
  let ?keys = "case map_of (w_declared w) n of Some ks \<Rightarrow> ks | None \<Rightarrow> []"
  obtain touched w' where k: "retire_keys n (w_generations w ! n) convert ?keys [] ?w = (touched, w')" by fastforce
  have "keep_ok s ?w w'" using retire_keys_ok [OF keep_ok_walk [OF w]] k by (metis snd_conv)
  with w have w': "keep_ok s w w'" by (rule keep_ok_trans)
  have "keep_ok s w' (fold (\<lambda>key w. mark_dirty key (revalidate_shadows key w)) touched w')"
    by (rule fold_keep [OF _ keep_ok_walk [OF w']])
      (meson keep_ok_trans keep_ok_walk mark_dirty_ok revalidate_shadows_ok)
  with w' have "keep_ok s w (fold (\<lambda>key w. mark_dirty key (revalidate_shadows key w)) touched w')"
    by (rule keep_ok_trans)
  moreover have "n < length (w_generations w)" using assms by (simp add: walk_ok_def)
  ultimately show ?thesis using k by (simp add: retire_def index_at_def generation_def Let_def)
qed

section \<open>Groups that go and groups that merge\<close>

lemma selection_delete: "selection (w\<lparr>w_selected := AList.delete key (w_selected w)\<rparr>) = (selection w)(key := None)"
  by (auto simp: selection_def delete_conv' fun_eq_iff)

lemma selected_delete: "selected_ok s g groups sels \<Longrightarrow> selected_ok s g groups (sels(key := None))"
  unfolding selected_ok_def by (auto split: if_splits)

lemma delete_selection_ok: "walk_ok s w \<Longrightarrow> walk_ok s (w\<lparr>w_selected := AList.delete key (w_selected w)\<rparr>)"
  by (simp add: walk_ok_def selection_delete selected_delete)

lemma drop_group_ok:
  assumes "walk_ok s w"
  shows "safe (step_ok s w) (drop_group key w)"
proof (cases "selection w key")
  case (Some sel)
  let ?v = "w\<lparr>w_selected := AList.delete key (w_selected w)\<rparr>"
  let ?w = "?v\<lparr>w_graph := clear_incoming (w_graph w) (sel_node sel)\<rparr>"
  have v: "walk_ok s ?v" using assms by (rule delete_selection_ok)
  then have "graph_ok (w_graph ?v)" by (simp add: walk_ok_def)
  then have "keep_ok s ?v ?w" by (intro graph_field_ok [OF v]) (simp_all add: clear_ok)
  then have ok: "walk_ok s ?w" "node_count (w_graph ?w) = node_count (w_graph w)" by (simp_all add: keep_ok_def)
  have "safe (keep_ok s ?w) (retire (sel_node sel) None ?w)"
    using selection_ok(1) [OF assms Some] ok by (intro retire_ok) simp_all
  then have "safe (keep_ok s ?w) (and_then (retire (sel_node sel) None ?w) (\<lambda>w. Inr (revalidate_shadows key w)))"
    by (rule safe_keep_seq) (simp add: revalidate_shadows_ok keep_ok_walk)
  with Some ok(2) show ?thesis
    by (simp add: drop_group_def) (erule safe_mono, simp add: keep_ok_def keep_def grows_def step_ok_def)
qed (use assms in \<open>simp add: drop_group_def\<close>)

lemma edge_ops_fields [simp]:
  "node_count (add_edge g a b e) = node_count g" "g_root (add_edge g a b e) = g_root g"
  "node_count (remove_edge g a b e) = node_count g" "g_root (remove_edge g a b e) = g_root g"
  by (simp_all add: add_edge_def remove_edge_def node_count_def)

lemma add_edge_ok:
  "graph_ok g \<Longrightarrow> a < node_count g \<Longrightarrow> b < node_count g \<Longrightarrow> b \<noteq> g_root g \<Longrightarrow> graph_ok (add_edge g a b e)"
  by (auto simp: graph_ok_def add_edge_def node_count_def)

lemma remove_edge_ok: "graph_ok g \<Longrightarrow> graph_ok (remove_edge g a b e)"
  by (erule graph_edges_ok) (simp_all add: remove_edge_def node_count_def set_remove1_subset)

lemma retarget_fold_ok:
  assumes "graph_ok g" and "\<forall>r \<in> set rs. edge_source r < node_count g" and "to < node_count g" and "to \<noteq> g_root g"
  defines "f \<equiv> \<lambda>r g'. add_edge (remove_edge g' (edge_source r) (edge_target r) (edge_weight r))
    (edge_source r) to (edge_weight r)"
  shows "graph_ok (fold f rs g) \<and> node_count (fold f rs g) = node_count g \<and> g_root (fold f rs g) = g_root g"
  using assms(1-4)
proof (induction rs arbitrary: g)
  case (Cons r rs)
  have "graph_ok (f r g)" using Cons.prems by (simp add: f_def add_edge_ok remove_edge_ok)
  moreover have "node_count (f r g) = node_count g" "g_root (f r g) = g_root g" by (simp_all add: f_def)
  ultimately show ?case using Cons by simp
qed simp

lemma retarget_ok:
  assumes "graph_ok g" and "to < node_count g" and "to \<noteq> g_root g"
  shows "graph_ok (retarget_incoming g from' to)"
    "node_count (retarget_incoming g from' to) = node_count g" "g_root (retarget_incoming g from' to) = g_root g"
proof -
  have "\<forall>r \<in> set (incoming g from'). edge_source r < node_count g"
    using assms(1) by (simp add: incoming_def graph_ok_def)
  note t = retarget_fold_ok [OF assms(1) this assms(2,3)]
  show "graph_ok (retarget_incoming g from' to)" "node_count (retarget_incoming g from' to) = node_count g"
    "g_root (retarget_incoming g from' to) = g_root g"
    using t by (simp_all add: retarget_incoming_def)
qed

lemma move_shadows_fields [simp]:
  "selection (move_shadows a b w) = selection w" "w_graph (move_shadows a b w) = w_graph w"
  "w_groups (move_shadows a b w) = w_groups w" "w_selected (move_shadows a b w) = w_selected w"
  "w_queue (move_shadows a b w) = w_queue w" "w_next_declared_at (move_shadows a b w) = w_next_declared_at w"
  by (auto simp: move_shadows_def Let_def selection_def fun_eq_iff split: option.splits)

lemma move_shadows_ok [simp]: "walk_ok s (move_shadows a b w) \<longleftrightarrow> walk_ok s w"
  by (auto simp: move_shadows_def Let_def split: option.splits)

lemma drop_beneath_ok:
  assumes "walk_ok s w"
  shows "keep_ok s w (drop_beneath into w)"
proof (cases "selection w into")
  case (Some sel)
  then show ?thesis
    using put_same_ok [OF assms Some] selection_ok(3) [OF assms Some] by (simp add: drop_beneath_def arcs_ok_filter)
qed (use assms in \<open>simp add: drop_beneath_def\<close>)

lemma dirty_beneath_ok: "walk_ok s w \<Longrightarrow> keep_ok s w (mark_dirty key (drop_beneath into w))"
  by (rule keep_ok_trans [OF drop_beneath_ok])
    (auto intro: mark_dirty_ok drop_beneath_ok keep_ok_walk)

lemma selected_merge:
  assumes "selected_ok s g groups sels" and "sels from' = None"
  shows "selected_ok s g (AList.update from' into groups) sels"
  using assms unfolding selected_ok_def by (auto simp: update_conv')

text \<open>
  Merging: afterwards the keys of both groups stand for the first one's, and every other key for what it
  stood for.
\<close>

lemma union_step:
  assumes ok: "walk_ok s w" and differ: "group_of w src \<noteq> group_of w target"
  shows "safe (\<lambda>w'. step_ok s w w' \<and> w_groups w' = AList.update (group_of w target) (group_of w src) (w_groups w))
    (union src target w)"
proof -
  let ?into = "group_of w src" and ?from = "group_of w target"
  let ?groups = "AList.update ?from ?into (w_groups w)"
  let ?w1 = "move_shadows ?from ?into (w\<lparr>w_groups := ?groups\<rparr>)"
  note reps = group_of_rep [OF ok]
  have groups: "groups_ok ?groups"
    using ok differ reps by (intro groups_ok_merge) (auto simp: walk_ok_def)
  have sels: "selected_ok s (w_graph w) (w_groups w) (selection w)" using ok by (simp add: walk_ok_def)
  have sel1: "selection ?w1 = selection w" by (simp add: selection_def fun_eq_iff)
  let ?w2 = "?w1\<lparr>w_selected := AList.delete ?from (w_selected ?w1)\<rparr>"
  have sel2: "selection ?w2 = (selection w)(?from := None)" unfolding selection_delete sel1 ..
  have "walk_ok s (w\<lparr>w_groups := ?groups, w_selected := AList.delete ?from (w_selected w)\<rparr>)"
    using ok groups selected_merge [OF selected_delete [OF sels, of ?from], of ?from ?into]
    by (simp add: walk_ok_def selection_def [abs_def] delete_conv')
  then have w2: "walk_ok s ?w2"
    by (auto simp: move_shadows_def Let_def walk_parts split: option.splits)
  show ?thesis
  proof (cases "selection w ?from")
    case None
    have "walk_ok s (w\<lparr>w_groups := ?groups\<rparr>)"
      using ok groups selected_merge [OF sels None, of ?into] by (simp add: walk_parts)
    with None differ sel1 show ?thesis by (simp add: union_def Let_def step_ok_def grows_def)
  next
    case (Some moved)
    note m = selection_ok [OF ok Some]
    define r where "r = (case selection ?w2 ?into of
        None \<Rightarrow> Inr (put_selection ?into moved ?w2)
      | Some sel \<Rightarrow>
          let w = put_selection ?into (sel\<lparr>sel_settled := None,
                    sel_candidates := sel_candidates sel @ sel_candidates moved\<rparr>) ?w2;
              w = w\<lparr>w_graph := retarget_incoming (w_graph w) (sel_node moved) (sel_node sel)\<rparr>
          in retire (sel_node moved) None w)"
    have r: "safe (\<lambda>w'. step_ok s w w' \<and> w_groups w' = ?groups) r"
    proof (cases "selection w ?into")
      case none: None
      have "selected_ok s (w_graph w) ?groups ((selection ?w2)(?into \<mapsto> moved))"
        using sels m Some none differ reps unfolding selected_ok_def sel2
        by (auto simp: update_conv' split: if_splits)
      then have "walk_ok s (put_selection ?into moved ?w2)" by (intro put_selection_walk [OF w2]) simp
      with none differ sel2 show ?thesis by (simp add: r_def step_ok_def grows_def)
    next
      case into: (Some sel)
      then have sel: "selection ?w2 ?into = Some sel" unfolding sel2 using differ by simp
      let ?w3 = "put_selection ?into (sel\<lparr>sel_settled := None,
          sel_candidates := sel_candidates sel @ sel_candidates moved\<rparr>) ?w2"
      let ?w4 = "?w3\<lparr>w_graph := retarget_incoming (w_graph ?w3) (sel_node moved) (sel_node sel)\<rparr>"
      have w3: "keep_ok s ?w2 ?w3"
        using selection_ok [OF ok into] m by (intro put_same_ok [OF w2 sel]) simp_all
      have "graph_ok (w_graph w)" "sel_node sel < node_count (w_graph w)" "sel_node sel \<noteq> g_root (w_graph w)"
        using ok selection_ok(1,2) [OF ok into] by (simp_all add: walk_ok_def)
      note t = retarget_ok [OF this, of "sel_node moved"]
      have w4: "keep_ok s ?w3 ?w4" using t by (intro graph_field_ok [OF keep_ok_walk [OF w3]]) simp_all
      have "safe (keep_ok s ?w4) (retire (sel_node moved) None ?w4)"
        using m(1) t by (intro retire_ok [OF keep_ok_walk [OF w4]]) simp
      with t sel show ?thesis
        by (simp add: r_def Let_def) (erule safe_mono, simp add: keep_ok_def keep_def grows_def step_ok_def)
    qed
    have "safe (\<lambda>w'. step_ok s w w' \<and> w_groups w' = ?groups)
        (and_then r (\<lambda>w. Inr (mark_dirty ?into (drop_beneath ?into w))))"
    proof (rule safe_and_then [OF r])
      fix v assume v: "step_ok s w v \<and> w_groups v = ?groups"
      let ?v = "mark_dirty ?into (drop_beneath ?into v)"
      have "keep_ok s v ?v" using v by (intro dirty_beneath_ok step_ok_walk) (rule conjunct1)
      moreover from this have "step_ok s w ?v" using v by (metis keep_ok_step step_ok_trans)
      ultimately show "safe (\<lambda>w'. step_ok s w w' \<and> w_groups w' = ?groups) (Inr ?v)"
        using v by (simp add: keep_ok_def keep_def)
    qed
    moreover have "union src target w = and_then r (\<lambda>w. Inr (mark_dirty ?into (drop_beneath ?into w)))"
      unfolding union_def r_def Let_def using differ Some sel1 by simp
    ultimately show ?thesis by simp
  qed
qed

lemma union_ok: "walk_ok s w \<Longrightarrow> safe (step_ok s w) (union src target w)"
  using safe_mono [OF union_step [of s w src target], of "step_ok s w"] by (cases "group_of w src = group_of w target") (simp_all add: union_def)

lemma union_all_ok: "walk_ok s w \<Longrightarrow> safe (step_ok s w) (union_all aliases target w)"
  by (induction aliases arbitrary: w)
    (auto intro!: safe_step_seq union_ok simp: step_ok_walk)

section \<open>Queueing\<close>

lemma push_declared_ok:
  assumes "walk_ok s w" and "\<And>at'. placed (node_count (w_graph w)) (item at') \<and> q_declared_at (item at') = at'"
  shows "safe (keep_ok s w) (push_declared item w)"
proof -
  have "keep_ok s w (w\<lparr>w_next_declared_at := w_next_declared_at w + 1, w_queue := queue\<rparr>)"
    if "push_queue (w_queue w) (item (w_next_declared_at w)) = Inr queue" for queue
  proof -
    have q: "queue = item (w_next_declared_at w) # w_queue w" "length (w_queue w) < MAX_QUEUE_SIZE"
      "q_depth (item (w_next_declared_at w)) \<le> MAX_DEPTH" "w_next_declared_at w < MAX_DECLARATIONS"
      using that assms(2) [of "w_next_declared_at w"]
      by (auto simp: push_queue_def queue_limit_def split: if_splits)
    have "queue_ok (node_count (w_graph w)) (w_next_declared_at w) (w_queue w)" using assms(1) by (simp add: walk_ok_def)
    then have "queue_ok (node_count (w_graph w)) (w_next_declared_at w + 1) queue"
      using q assms(2) [of "w_next_declared_at w"] by (fastforce simp: queue_ok_def)
    with assms(1) q(1) show ?thesis by (simp add: walk_parts keep_ok_def keep_def grows_def)
  qed
  then show ?thesis
    by (auto simp: push_declared_def declare_next_def raise_def map_err_def split: sum.splits)
qed

lemma queue_each_ok:
  assumes "walk_ok s w" and "\<And>i d at'. placed (node_count (w_graph w)) (item i d at') \<and> q_declared_at (item i d at') = at'"
  shows "safe (keep_ok s w) (queue_each item index deps w)"
  using assms
proof (induction deps arbitrary: index w)
  case (Cons d deps)
  have "safe (keep_ok s w) (push_declared (item index d) w)" using Cons.prems by (intro push_declared_ok)
  then have "safe (keep_ok s w) (and_then (push_declared (item index d) w) (queue_each item (Suc index) deps))"
  proof (rule safe_keep_seq)
    fix v assume v: "keep_ok s w v"
    then have "node_count (w_graph v) = node_count (w_graph w)" by (simp add: keep_ok_def keep_def grows_def)
    with Cons.IH [OF keep_ok_walk [OF v]] Cons.prems(2) show "safe (keep_ok s v) (queue_each item (Suc index) deps v)"
      by simp
  qed
  then show ?case by simp
qed simp

lemma child_item_placed:
  "parent < n \<Longrightarrow> order_ok (q_order (c_item c)) \<Longrightarrow>
   placed n (child_item c project path parent gen shadow i d at') \<and>
   q_declared_at (child_item c project path parent gen shadow i d at') = at'"
  by (simp add: child_item_def placed_def)

lemma queue_children_ok:
  assumes "walk_ok s w" and "parent < node_count (w_graph w)" and "order_ok (q_order (c_item winner))"
    and "candidate_follows winner \<Longrightarrow> c_resolved_project winner \<noteq> None"
  shows "safe (keep_ok s w) (queue_children backend winner parent gen shadow w)"
proof (cases "candidate_follows winner")
  case True
  with assms(4) obtain resolved where "c_resolved_project winner = Some resolved" by auto
  with True assms(1-3) show ?thesis
    by (simp add: queue_children_def expect_def Let_def queue_each_ok child_item_placed)
qed (use assms in \<open>simp add: queue_children_def\<close>)

lemma root_in_graph: "walk_ok s w \<Longrightarrow> g_root (w_graph w) < node_count (w_graph w)"
  by (simp add: walk_ok_def graph_ok_def)

lemma queue_shadow_ok:
  assumes "walk_ok s w" and "order_ok (q_order (c_item c))" and "index < length (pr_dependencies project)"
  shows "safe (keep_ok s w) (queue_shadow backend c project index origin w)"
  using assms root_in_graph [OF assms(1)]
  by (simp add: queue_shadow_def index_at_def push_declared_ok child_item_placed)

lemma queue_shadows_ok:
  assumes "walk_ok s w" and "order_ok (q_order (c_item loser))"
    and "drop index (pr_dependencies project) = deps"
  shows "safe (\<lambda>(queued, w'). keep_ok s w w') (queue_shadows backend key loser project takes index deps queued w)"
  using assms
proof (induction deps arbitrary: index queued w)
  case (Cons d deps)
  have i: "index < length (pr_dependencies project)" using Cons.prems(3) by (metis drop_all linorder_not_less list.distinct(1))
  have rest: "drop (Suc index) (pr_dependencies project) = deps"
    using Cons.prems(3) by (metis drop_Suc list.sel(3) tl_drop)
  show ?case
  proof (cases "takes w d")
    case True
    have "safe (keep_ok s w) (queue_shadow backend loser project index (origin_of key loser) w)"
      using Cons.prems i by (intro queue_shadow_ok)
    then have "safe (\<lambda>(queued, w'). keep_ok s w w') (and_then
        (queue_shadow backend loser project index (origin_of key loser) w)
        (queue_shadows backend key loser project takes (Suc index) deps True))"
      by (rule safe_and_then)
        (rule safe_mono [OF Cons.IH [OF keep_ok_walk Cons.prems(2) rest]], auto intro: keep_ok_trans)
    with True show ?thesis by simp
  next
    case False
    with Cons.IH [OF Cons.prems(1,2) rest] show ?thesis by simp
  qed
qed simp

lemma first_seen_subset: "set (fst (first_seen seen cs)) \<subseteq> set cs"
  by (induction seen cs rule: first_seen.induct) (auto split: prod.splits)

lemma scan_each_ok:
  assumes "walk_ok s w"
    and "\<forall>c \<in> set losers. order_ok (q_order (c_item (snd c))) \<and> c_resolved_project (snd c) \<noteq> None"
  shows "safe (keep_ok s w) (scan_each backend key path losers w)"
  using assms
proof (induction losers arbitrary: w)
  case (Cons loser losers)
  then obtain resolved where r: "c_resolved_project (snd loser) = Some resolved" by auto
  have "safe (\<lambda>(queued, w'). keep_ok s w w') (queue_shadows backend key (snd loser) (rp_project resolved)
      (\<lambda>w. scans w key path (snd loser)) 0 (pr_dependencies (rp_project resolved)) False w)"
    using Cons.prems by (intro queue_shadows_ok) simp_all
  then have "safe (keep_ok s w) (and_then (queue_shadows backend key (snd loser) (rp_project resolved)
      (\<lambda>w. scans w key path (snd loser)) 0 (pr_dependencies (rp_project resolved)) False w)
      (\<lambda>(_, w). scan_each backend key path losers w))"
    by (rule safe_and_then)
      (use Cons in \<open>auto intro: safe_mono keep_ok_trans keep_ok_walk split: prod.splits\<close>)
  with r show ?case by (simp add: expect_def)
qed simp

lemma cand_order: "cand_ok s n c \<Longrightarrow> order_ok (q_order (c_item c))"
  by (simp add: cand_ok_def placed_def)

lemma scan_losers_ok:
  assumes "walk_ok s w" and "\<And>sel. selection w key = Some sel \<Longrightarrow> from' \<le> length (sel_candidates sel)"
  shows "safe (keep_ok s w) (scan_losers backend key from' w)"
proof (cases "selection w key")
  case (Some sel)
  show ?thesis
  proof (cases "sel_winner sel = None \<or> sel_winner_path sel = None")
    case False
    then obtain winner path where w: "sel_winner sel = Some winner" "sel_winner_path sel = Some path" by auto
    let ?cs = "filter (\<lambda>c. is_loser (snd winner) (snd c)) (drop from' (sel_candidates sel))"
    obtain losers scanned where f: "first_seen (sel_scanned sel) ?cs = (losers, scanned)" by fastforce
    have sub: "set losers \<subseteq> set ?cs" using first_seen_subset [of "sel_scanned sel" ?cs] f by simp
    let ?w = "put_selection key (sel\<lparr>sel_scanned := scanned\<rparr>) w"
    note ok = selection_ok [OF assms(1) Some]
    have put: "keep_ok s w ?w" using ok by (intro put_same_ok [OF assms(1) Some]) simp_all
    have "\<forall>c \<in> set losers. order_ok (q_order (c_item (snd c))) \<and> c_resolved_project (snd c) \<noteq> None"
      using sub ok(3) by (auto simp: arcs_ok_def is_loser_def dest!: in_set_dropD intro: cand_order)
    then have "safe (keep_ok s ?w) (scan_each backend key path losers ?w)"
      by (intro scan_each_ok [OF keep_ok_walk [OF put]])
    then have "safe (keep_ok s w) (scan_each backend key path losers ?w)"
      by (rule safe_mono) (rule keep_ok_trans [OF put])
    with Some w f assms(2) [OF Some] show ?thesis by (simp add: scan_losers_def)
  qed (use Some assms(1) in \<open>auto simp: scan_losers_def split: option.splits\<close>)
qed (use assms in \<open>simp add: scan_losers_def\<close>)

section \<open>Candidates that join\<close>

lemma cand_ok_alternative: "cand_ok s n c \<Longrightarrow> cand_ok s n (alternative c i v)"
  by (simp add: cand_ok_def alternative_def)

lemma resolution_candidates_ok:
  assumes "cand_ok s n (r_candidate res)"
  shows "safe (\<lambda>(cs, w'). arcs_ok s n cs \<and> cs \<noteq> [] \<and> (\<exists>a. w' = w\<lparr>w_arcs := a\<rparr>)) (resolution_candidates res w)"
proof -
  have "cand_ok s n c" if "(a, c) \<in> set (zip (ks :: nat list)
      (map (\<lambda>(position, resolved). alternative (r_candidate res) position resolved) alts @ [r_candidate res]))"
    for a c ks alts
    using set_zip_rightD [OF that] assms by (auto intro: cand_ok_alternative)
  moreover have "c_source (r_candidate res) \<noteq> []" using assms by (simp add: cand_ok_def)
  ultimately show ?thesis
    by (auto simp: resolution_candidates_def Let_def arcs_ok_def simp del: upt_Suc)
qed

lemma rejecting_subset: "set (fst (rejecting_candidates st cs)) \<subseteq> set cs"
proof (induction cs arbitrary: st)
  case (Cons c cs)
  show ?case
  proof (cases "c_hard (snd c)")
    case None
    with Cons show ?thesis by auto
  next
    case (Some h)
    obtain b st1 found st2 where "settled_rejects st h = (b, st1)" "rejecting_candidates st1 cs = (found, st2)"
      by (metis surj_pair)
    with Some Cons.IH [of st1] show ?thesis by auto
  qed
qed simp

definition joined_ok :: "Solver \<Rightarrow> nat \<Rightarrow> Selected \<Rightarrow> (nat \<times> ArcCandidate option) option \<Rightarrow> bool" where
  "joined_ok s n sel settled \<longleftrightarrow>
     (\<forall>from' lowest. settled = Some (from', lowest) \<longrightarrow> from' \<le> length (sel_candidates sel) \<and>
        (\<forall>c. lowest = Some c \<longrightarrow> cand_ok s n (snd c)))"

lemma join_declared_ok:
  assumes "arcs_ok s n (sel_candidates sel)" and "arcs_ok s n cands"
    and "join_declared sel item cands = (settled, sel')"
  shows "sel_node sel' = sel_node sel \<and> arcs_ok s n (sel_candidates sel') \<and> joined_ok s n sel' settled"
proof -
  let ?P = "\<lambda>c. \<not> is_shadow (snd c) \<or> \<not> order_eq (q_order (c_item (snd c))) (q_order item)"
  have cands: "sel_candidates sel' = filter ?P (sel_candidates sel) @ cands" "sel_node sel' = sel_node sel"
    using assms(3) by (auto simp: join_declared_def Let_def split: option.splits if_splits prod.splits)
  have "joined_ok s n sel' settled"
  proof (cases "settled")
    case (Some p)
    then obtain w st where st: "sel_winner sel = Some w" "sel_settled sel = Some st"
      "length (filter ?P (sel_candidates sel)) = length (sel_candidates sel)"
      using assms(3) by (auto simp: join_declared_def Let_def split: option.splits if_splits)
    obtain from' lowest where p: "p = (from', lowest)" by fastforce
    note j = join_declared_shortcut [OF assms(3) [unfolded Some p] st(1)]
    have "cand_ok s n (snd c)" if "lowest = Some c" for c
    proof -
      from j st(2) obtain st' rej where rej: "rejecting_candidates st cands = (rej, st')"
        "lowest = (case min_by (\<lambda>a b. cmp_of (c_source (snd a)) (c_source (snd b))) rej of
           None \<Rightarrow> None | Some c \<Rightarrow> if c_resolved_project (snd c) = None then Some c else None)"
        by auto
      then have "c \<in> set rej" using that by (auto split: option.splits if_splits dest: min_by_in)
      then show ?thesis using rejecting_subset [of st cands] rej(1) assms(2) by (auto simp: arcs_ok_def)
    qed
    with j Some p show ?thesis by (auto simp: joined_ok_def)
  qed (simp add: joined_ok_def)
  with cands assms(1,2) show ?thesis by (simp add: arcs_ok_filter)
qed

lemma add_node_ok:
  assumes "walk_ok s w" and "map_of (w_groups w) key = None" and "selection w key = None"
    and "add_node nd w = (n, w')" and "arcs_ok s (node_count (w_graph w)) (sel_candidates sel)" and "sel_node sel = n"
  shows "step_ok s w (put_selection key sel w') \<and> n < node_count (w_graph w') \<and>
    n \<noteq> g_root (w_graph w')"
proof -
  let ?g = "w_graph w"
  have n: "n = node_count ?g" and w': "w' = w\<lparr>w_next_generation := w_next_generation w + 1,
      w_graph := ?g\<lparr>g_nodes := g_nodes ?g @ [nd]\<rparr>, w_generations := w_generations w @ [w_next_generation w]\<rparr>"
    using assms(4) by (auto simp: add_node_def insert_node_def generation_def node_count_def)
  have count: "node_count (?g\<lparr>g_nodes := g_nodes ?g @ [nd]\<rparr>) = Suc (node_count ?g)" by (simp add: node_count_def)
  have sels: "selected_ok s ?g (w_groups w) (selection w)" using assms(1) by (simp add: walk_ok_def)
  have old: "sel_node b < node_count ?g" if "selection w k = Some b" for k b
    using selection_ok(1) [OF assms(1) that] .
  have "selected_ok s (?g\<lparr>g_nodes := g_nodes ?g @ [nd]\<rparr>) (w_groups w) ((selection w)(key \<mapsto> sel))"
    using sels assms(2,3,5,6) root_in_graph [OF assms(1)] old
    unfolding selected_ok_def count n
    by (auto intro: arcs_ok_mono [of s "node_count ?g"] less_SucI simp: less_imp_neq [symmetric] split: if_splits)
      (metis less_irrefl)+
  moreover have "graph_ok (?g\<lparr>g_nodes := g_nodes ?g @ [nd]\<rparr>)"
    using assms(1) by (auto simp: walk_ok_def graph_ok_def count)
  moreover have "queue_ok (Suc (node_count ?g)) (w_next_declared_at w) (w_queue w)"
    using assms(1) by (auto simp: walk_ok_def queue_ok_def intro: placed_mono)
  moreover have "work_ok s (Suc (node_count ?g)) (w_walk_loads w) (w_confirm w) (w_unscanned w)"
    using assms(1) by (auto simp: walk_ok_def work_ok_def intro: arcs_ok_mono cand_ok_mono)
  ultimately show ?thesis
    using assms(1) n root_in_graph [OF assms(1)] by (simp add: w' walk_parts step_ok_def grows_def count put_selection_def update_conv')
qed

lemma join_group_ok:
  assumes "walk_ok s w" and "arcs_ok s (node_count (w_graph w)) cands" and "cands \<noteq> []"
    and "map_of (w_groups w) key = None"
  shows "safe (\<lambda>joined. case joined of None \<Rightarrow> True | Some (settled, n, w') \<Rightarrow>
      step_ok s w w' \<and> n < node_count (w_graph w') \<and> n \<noteq> g_root (w_graph w') \<and> selection w' key \<noteq> None \<and>
      (\<forall>sel. selection w' key = Some sel \<longrightarrow> joined_ok s (node_count (w_graph w')) sel settled))
    (join_group key item scope cands w)"
proof (cases "selection w key")
  case (Some sel)
  note ok = selection_ok [OF assms(1) Some]
  show ?thesis
  proof (cases "q_shadow item")
    case None
    obtain settled sel' where j: "join_declared sel item cands = (settled, sel')" by fastforce
    note jo = join_declared_ok [OF ok(3) assms(2) j]
    have "keep_ok s w (put_selection key sel' w)" using jo by (intro put_same_ok [OF assms(1) Some]) simp_all
    then show ?thesis using Some None j jo ok by (simp add: join_group_def keep_ok_step)
  next
    case shadow: (Some origin)
    have "keep_ok s w (put_selection key (sel\<lparr>sel_candidates := sel_candidates sel @ cands\<rparr>) w)"
      using ok assms(2) by (intro put_same_ok [OF assms(1) Some]) simp_all
    then show ?thesis using Some shadow ok by (simp add: join_group_def keep_ok_step joined_ok_def)
  qed
next
  case None
  obtain n w' where add: "add_node (new_node (c_coord (snd (last cands))) scope) w = (n, w')" by fastforce
  have "step_ok s w (put_selection key (Selected_new n cands) w') \<and> n < node_count (w_graph w') \<and>
      n \<noteq> g_root (w_graph w')"
    using add_node_ok [OF assms(1,4) None add, of "Selected_new n cands"] assms(2) by (simp add: Selected_new_def)
  with None assms(3) add show ?thesis by (auto simp: join_group_def joined_ok_def split: option.splits)
qed

lemma connect_ok:
  assumes "walk_ok s w" and "a < node_count (w_graph w)" and "b < node_count (w_graph w)"
    and "b \<noteq> g_root (w_graph w)"
  shows "safe (keep_ok s w) (connect a b e w)"
proof -
  have "graph_ok (w_graph w)" using assms(1) by (simp add: walk_ok_def)
  with assms show ?thesis by (simp add: connect_def graph_field_ok add_edge_ok)
qed

lemma note_declared_ok: "walk_ok s w \<Longrightarrow> keep_ok s w (note_declared n key w)"
  by (simp add: note_declared_def keep_ok_def)

lemma link_item_ok:
  assumes "walk_ok s w" and "placed (node_count (w_graph w)) item" and "n < node_count (w_graph w)"
    and "n \<noteq> g_root (w_graph w)"
  shows "safe (\<lambda>w'. keep_ok s w w' \<and> selection w' = selection w) (link_item item key n w)"
proof (cases "q_shadow item")
  case None
  have c: "safe (keep_ok s w) (connect (q_parent item) n (edge_of item) w)"
    using assms by (intro connect_ok) (simp_all add: placed_def)
  with None show ?thesis
    by (auto simp: link_item_def connect_def note_declared_def keep_ok_def split: if_splits)
qed (use assms add_shadow_ok in \<open>simp add: link_item_def add_shadow_def keep_ok_def\<close>)

lemma after_join_ok:
  assumes "walk_ok s w" and "\<And>sel. selection w key = Some sel \<Longrightarrow> joined_ok s (node_count (w_graph w)) sel settled"
    and "settled \<noteq> None \<Longrightarrow> selection w key \<noteq> None"
  shows "safe (keep_ok s w) (after_join backend key settled w)"
proof (cases settled)
  case None
  then show ?thesis using assms(1) by (simp add: after_join_def mark_dirty_ok)
next
  case (Some p)
  obtain from' lowest where p: "p = (from', lowest)" by fastforce
  obtain sel where sel: "selection w key = Some sel" using assms(3) Some by auto
  have j: "from' \<le> length (sel_candidates sel)" "\<And>c. lowest = Some c \<Longrightarrow> cand_ok s (node_count (w_graph w)) (snd c)"
    using assms(2) [OF sel] Some p by (auto simp: joined_ok_def)
  have scan: "safe (keep_ok s w) (scan_losers backend key from' w)"
    using scan_losers_ok [OF assms(1), of key from' backend] sel j(1) by simp
  have "keep_ok s w (w\<lparr>w_confirm := w_confirm w @ [(key, c, from')]\<rparr>)" if "lowest = Some c" for c
    using assms(1) j(2) [OF that] by (simp add: walk_parts work_ok_def keep_ok_def keep_def grows_def)
  with Some p scan assms(1) show ?thesis
    by (auto simp: after_join_def mark_dirty_ok split: option.splits)
qed

lemma note_unscanned_ok:
  assumes "walk_ok s w" and "arcs_ok s (node_count (w_graph w)) cands" and "cands \<noteq> []"
  shows "keep_ok s w (note_unscanned key cands w)"
proof -
  have "cand_ok s (node_count (w_graph w)) (snd (last cands))" using assms(2,3) by (simp add: arcs_ok_def)
  with assms(1) show ?thesis by (auto simp: note_unscanned_def walk_parts work_ok_def keep_ok_def keep_def grows_def)
qed

lemma join_candidates_ok:
  assumes "walk_ok s w" and "arcs_ok s (node_count (w_graph w)) cands" and "cands \<noteq> []"
    and "map_of (w_groups w) key = None" and "placed (node_count (w_graph w)) item"
  shows "safe (step_ok s w) (join_candidates backend key item scope cands w)"
proof -
  let ?w = "note_unscanned key cands w"
  note k = note_unscanned_ok [OF assms(1-3), of key]
  then have w: "walk_ok s ?w" "node_count (w_graph ?w) = node_count (w_graph w)" "w_groups ?w = w_groups w"
    by (simp_all add: keep_ok_def keep_def grows_def)
  have "safe (step_ok s ?w) (join_candidates backend key item scope cands w)"
    unfolding join_candidates_def
  proof (rule safe_and_then [OF join_group_ok [OF w(1)]])
    fix joined
    assume j: "case joined of None \<Rightarrow> True | Some (settled, n, w') \<Rightarrow>
      step_ok s ?w w' \<and> n < node_count (w_graph w') \<and> n \<noteq> g_root (w_graph w') \<and> selection w' key \<noteq> None \<and>
      (\<forall>sel. selection w' key = Some sel \<longrightarrow> joined_ok s (node_count (w_graph w')) sel settled)"
    show "safe (step_ok s ?w) (case joined of None \<Rightarrow> Inr ?w | Some (settled, n, w) \<Rightarrow>
        and_then (link_item item key n w) (after_join backend key settled))"
    proof (cases joined)
      case (Some p)
      obtain settled n v where p: "p = (settled, n, v)" by (cases p)
      with j Some have v: "step_ok s ?w v" "n < node_count (w_graph v)" "n \<noteq> g_root (w_graph v)" "selection v key \<noteq> None"
        "\<And>sel. selection v key = Some sel \<Longrightarrow> joined_ok s (node_count (w_graph v)) sel settled" by auto
      have "placed (node_count (w_graph v)) item"
        using assms(5) v(1) w(2) by (auto simp: step_ok_def grows_def intro: placed_mono)
      from link_item_ok [OF step_ok_walk [OF v(1)] this v(2,3), of key]
      have "safe (step_ok s ?w) (and_then (link_item item key n v) (after_join backend key settled))"
      proof (rule safe_and_then)
        fix u assume u: "keep_ok s v u \<and> selection u = selection v"
        then have "node_count (w_graph u) = node_count (w_graph v)" by (simp add: keep_ok_def keep_def grows_def)
        with u v have "safe (keep_ok s u) (after_join backend key settled u)"
          by (intro after_join_ok) (auto intro: keep_ok_walk)
        then show "safe (step_ok s ?w) (after_join backend key settled u)"
          using u v(1) by (blast intro: safe_keep_after step_ok_trans keep_ok_step)
      qed
      with Some p show ?thesis by simp
    qed (use w in simp)
  qed (use assms w in simp_all)
  then show ?thesis by (rule safe_step_after [OF keep_ok_step [OF k]])
qed

lemma cut_cycle_ok:
  assumes "walk_ok s w" and "placed (node_count (w_graph w)) item"
  shows "safe (keep_ok s w) (cut_cycle item target w)"
  using assms selection_ok(1,2) [OF assms(1)]
  by (auto simp: cut_cycle_def placed_def intro!: connect_ok split: option.splits)

lemma walk_below_ok:
  assumes "walk_ok s w" and "arcs_ok s (node_count (w_graph w)) cands" and "cands \<noteq> []"
  shows "safe (keep_ok s w) (walk_below backend origin cands w)"
proof -
  have "cand_ok s (node_count (w_graph w)) (snd (last cands))" using assms(2,3) by (simp add: arcs_ok_def)
  then have "safe (keep_ok s w) (queue_children backend (snd (last cands)) (g_root (w_graph w)) 0 (Some origin) w)"
    if "c_resolved_project (snd (last cands)) \<noteq> None"
    using that by (intro queue_children_ok [OF assms(1)] root_in_graph [OF assms(1)]) (auto intro: cand_order)
  moreover have "keep_ok s w (w\<lparr>w_walk_loads := w_walk_loads w @ [cands]\<rparr>)"
    using assms by (auto simp: walk_parts work_ok_def keep_ok_def keep_def grows_def)
  ultimately show ?thesis using assms(3) by (simp add: walk_below_def Let_def)
qed

lemma check_workspace_cycle_ok: "safe (\<lambda>_. True) (check_workspace_cycle w c)"
  by (auto simp: check_workspace_cycle_def split: option.splits)

text \<open>The end of \<open>add_resolution\<close>, for a candidate that no cycle cuts off.\<close>

definition enter :: "Backend \<Rightarrow> Resolution \<Rightarrow> Walk \<Rightarrow> Walk result" where
  "enter backend res v =
     (let c = r_candidate res; item = c_item c; target = CoordKey_from (c_coord c); key = group_of v target in
      and_then (resolution_candidates res v) (\<lambda>(candidates, w).
        case q_shadow item of
          None \<Rightarrow> join_candidates backend key item (candidate_scope c) candidates w
        | Some origin \<Rightarrow>
            (case shadow_role w origin key target of
               RoleCandidate \<Rightarrow> join_candidates backend key item (candidate_scope c) candidates w
             | RoleWalk \<Rightarrow> walk_below backend origin candidates w
             | RoleDrop \<Rightarrow> Inr w)))"

lemma enter_ok:
  assumes ok: "walk_ok s v" and c: "cand_ok s (node_count (w_graph v)) (r_candidate res)"
  shows "safe (step_ok s v) (enter backend res v)"
  unfolding enter_def Let_def
proof (rule safe_and_then [OF resolution_candidates_ok [OF c, of v]])
  fix p assume p: "case p of (cs, w') \<Rightarrow> arcs_ok s (node_count (w_graph v)) cs \<and> cs \<noteq> [] \<and> (\<exists>a. w' = v\<lparr>w_arcs := a\<rparr>)"
  obtain cands u where pu: "p = (cands, u)" by fastforce
  let ?c = "r_candidate res"
  let ?item = "c_item ?c" and ?key = "group_of v (CoordKey_from (c_coord ?c))"
  have u: "walk_ok s u" "node_count (w_graph u) = node_count (w_graph v)" "w_groups u = w_groups v"
    using p pu ok by auto
  have "safe (step_ok s u) (join_candidates backend ?key ?item (candidate_scope ?c) cands u)"
    using p pu u c group_of_rep [OF ok] by (intro join_candidates_ok) (simp_all add: cand_ok_def)
  moreover have "safe (step_ok s u) (walk_below backend origin cands u)" for origin
    using p pu u by (intro safe_keep_step walk_below_ok) simp_all
  moreover have "safe (step_ok s v) r" if "safe (step_ok s u) r" for r
    using that p pu by (elim safe_step_count) (auto simp: grows_def)
  ultimately show "safe (step_ok s v) (case p of (candidates, w) \<Rightarrow>
      case q_shadow ?item of
        None \<Rightarrow> join_candidates backend ?key ?item (candidate_scope ?c) candidates w
      | Some origin \<Rightarrow>
          (case shadow_role w origin ?key (CoordKey_from (c_coord ?c)) of
             RoleCandidate \<Rightarrow> join_candidates backend ?key ?item (candidate_scope ?c) candidates w
           | RoleWalk \<Rightarrow> walk_below backend origin candidates w
           | RoleDrop \<Rightarrow> Inr w))"
    using u pu by (auto simp: step_ok_def grows_def split: option.splits ShadowRole.splits)
qed

lemma add_resolution_ok:
  assumes "walk_ok s w" and "cand_ok s (node_count (w_graph w)) (r_candidate res)"
  shows "safe (step_ok s w) (add_resolution backend res w)"
proof -
  let ?c = "r_candidate res"
  let ?item = "c_item ?c" and ?target = "CoordKey_from (c_coord ?c)"
  let ?cyclic = "path_contains (q_path ?item) ?target"
  let ?aliases = "if ?cyclic then c_inherited ?c else r_aliases res"
  let ?rest = "\<lambda>v. if ?cyclic \<or> beneath_own_group v (q_path ?item) ?target then cut_cycle ?item ?target v
      else enter backend res v"
  have split: "add_resolution backend res w =
      and_then (check_workspace_cycle w ?c) (\<lambda>_. and_then (union_all ?aliases ?target w) ?rest)"
    unfolding add_resolution_def enter_def Let_def by (cases ?cyclic) simp_all
  have "safe (step_ok s v) (?rest v)" if v: "step_ok s w v" for v
  proof -
    have "cand_ok s (node_count (w_graph v)) ?c"
      using assms(2) v by (auto simp: step_ok_def grows_def intro: cand_ok_mono)
    then show ?thesis
      using step_ok_walk [OF v] by (auto intro: enter_ok safe_keep_step cut_cycle_ok simp: cand_ok_def)
  qed
  then have "safe (step_ok s w) (and_then (union_all ?aliases ?target w) ?rest)"
    using union_all_ok [OF assms(1)] by (intro safe_step_seq)
  then show ?thesis unfolding split by (intro safe_and_then [OF check_workspace_cycle_ok])
qed

section \<open>Properties\<close>

text \<open>The keys that a walk takes for the same artifact.\<close>

definition same_group :: "Walk \<Rightarrow> (CoordKey \<times> CoordKey) set" where
  "same_group w = {(a, b). group_of w a = group_of w b}"

lemma same_group_iff: "(a, b) \<in> same_group w \<longleftrightarrow> group_of w a = group_of w b"
  by (simp add: same_group_def)

lemma trans_same_group: "trans (same_group w)"
  by (auto simp: trans_def same_group_def)

lemma union_group_of:
  assumes "walk_ok s w" and "union src target w = Inr w'"
  shows "group_of w' key = (if group_of w key = group_of w target then group_of w src else group_of w key)"
proof (cases "group_of w src = group_of w target")
  case True
  with assms(2) show ?thesis by (simp add: union_def)
next
  case False
  have "w_groups w' = AList.update (group_of w target) (group_of w src) (w_groups w)"
    using union_step [OF assms(1) False] assms(2) by simp
  moreover have "groups_ok (w_groups w)" using assms(1) by (simp add: walk_ok_def)
  ultimately show ?thesis
    using group_in_merge [of "w_groups w" "group_of w target" "group_of w src" key] group_of_rep [OF assms(1)] False
    by (simp add: group_of_def)
qed

text \<open>
  Property C17. Merging the groups of two keys, which a relocation does, merges exactly these: the keys taken for the
  same artifact afterwards are the least equivalence that holds what was taken for the same before and the
  two keys, and the group keeps the key that stood for the first.
\<close>

theorem union_is_least_merge:
  assumes "walk_ok s w" and "union src target w = Inr w'"
  shows "same_group w' = (same_group w \<union> {(src, target), (target, src)})\<^sup>+ \<and>
    group_of w' src = group_of w src \<and> group_of w' target = group_of w src"
proof -
  note g = union_group_of [OF assms]
  let ?R = "same_group w \<union> {(src, target), (target, src)}"
  have "same_group w \<subseteq> same_group w'" "(src, target) \<in> same_group w'" "(target, src) \<in> same_group w'"
    by (auto simp: same_group_def g)
  then have "?R\<^sup>+ \<subseteq> same_group w'"
    using trancl_mono [of _ ?R "same_group w'"] trancl_id [OF trans_same_group] by blast
  moreover have "(a, b) \<in> ?R\<^sup>+" if "(a, b) \<in> same_group w'" for a b
  proof -
    have step: "(x, y) \<in> ?R\<^sup>+" if "group_of w x = group_of w y" for x y using that by (auto simp: same_group_def)
    have "group_of w a = group_of w b \<or> (group_of w a = group_of w src \<and> group_of w b = group_of w target) \<or>
        (group_of w a = group_of w target \<and> group_of w b = group_of w src)"
      using that by (auto simp: same_group_def g split: if_splits)
    moreover have "(src, target) \<in> ?R\<^sup>+" "(target, src) \<in> ?R\<^sup>+" by auto
    ultimately show ?thesis using step by (metis trancl_trans)
  qed
  ultimately have "same_group w' = ?R\<^sup>+" by auto
  moreover have "group_of w' src = group_of w src" "group_of w' target = group_of w src" by (simp_all add: g)
  ultimately show ?thesis by blast
qed

lemma Walk_new_ok: "walk_ok s (Walk_new (Graph_new nd))"
  by (simp add: walk_ok_def Walk_new_def Graph_new_def graph_ok_def node_count_def selected_ok_def
      selection_def queue_ok_def work_ok_def)

definition fresh_walk :: Walk where
  "fresh_walk = Walk_new (Graph_new (new_node (plain_coord ''r'' ''1'') Compile))"

definition key_named :: "string \<Rightarrow> CoordKey" where
  "key_named a = CoordKey_from (plain_coord a ''1'')"

lemma fresh_walk_groups: "group_of fresh_walk key = key" "selection fresh_walk key = None"
  by (simp_all add: fresh_walk_def Walk_new_def group_of_def group_in_None selection_def)

theorem union_is_least_merge_witness:
  "\<exists>w'. union (key_named ''a'') (key_named ''b'') fresh_walk = Inr w' \<and>
     (key_named ''a'', key_named ''b'') \<notin> same_group fresh_walk \<and> (key_named ''a'', key_named ''b'') \<in> same_group w'"
proof -
  have differ: "key_named ''a'' \<noteq> key_named ''b''" by (simp add: key_named_def CoordKey_from_def plain_coord_def)
  have "selection (w\<lparr>w_groups := gs\<rparr>) k = selection w k" for w gs k by (simp add: selection_def)
  then obtain w' where w': "union (key_named ''a'') (key_named ''b'') fresh_walk = Inr w'"
    by (simp add: union_def fresh_walk_groups differ Let_def)
  from union_is_least_merge [OF _ w'] have "(key_named ''a'', key_named ''b'') \<in> same_group w'"
    using Walk_new_ok unfolding fresh_walk_def by blast
  with w' differ show ?thesis by (auto simp: same_group_def fresh_walk_groups)
qed

end
