(* ===== verification/Load_Safety.thy ===== *)
theory Load_Safety
  imports Walk_Invariant
begin

text \<open>
  The loads and the mediation of \<^verbatim>\<open>rv-resolver/src/solver/mod.rs\<close> keep the invariant of the walk: what a load
  answers, what it does to its group, the rounds of \<^verbatim>\<open>reconsider\<close> and of \<^verbatim>\<open>mediate\<close>.
\<close>

section \<open>Loads\<close>

text \<open>Every answer of a step with the cache has a property.\<close>

definition answers :: "('a \<Rightarrow> bool) \<Rightarrow> 'a cached \<Rightarrow> bool" where
  "answers P m \<longleftrightarrow> (\<forall>cache x cache'. m cache = (Inr x, cache') \<longrightarrow> P x)"

lemma answers_cret [simp]: "answers P (cret r) \<longleftrightarrow> (\<forall>x. r = Inr x \<longrightarrow> P x)"
  by (auto simp: answers_def cret_def)

lemma answers_cbind:
  assumes "answers Q m" and "\<And>x. Q x \<Longrightarrow> answers P (f x)"
  shows "answers P (cbind m f)"
  using assms by (auto simp: answers_def cbind_def split: prod.splits sum.splits) blast

lemma answers_bind: "(\<And>x. answers P (f x)) \<Longrightarrow> answers P (cbind m f)"
  by (rule answers_cbind [where Q = "\<lambda>_. True"]) (simp_all add: answers_def)

definition opt_hard_ok :: "Solver \<Rightarrow> Hard option \<Rightarrow> bool" where
  "opt_hard_ok s hard \<longleftrightarrow> (lowercases (s_lc s) \<longrightarrow> (\<forall>h. hard = Some h \<longrightarrow> hard_ok (s_lc s) h))"

lemma opt_hard_ok_None [simp]: "opt_hard_ok s None"
  by (simp add: opt_hard_ok_def)

lemma cand_ok_alt: "cand_ok s n c \<longleftrightarrow> placed n (c_item c) \<and> c_source c \<noteq> [] \<and> opt_hard_ok s (c_hard c)"
  by (simp add: cand_ok_def opt_hard_ok_def)

lemma placed_update [simp]:
  "placed n (item\<lparr>q_dependency := d\<rparr>) \<longleftrightarrow> placed n item" "placed n (item\<lparr>q_managed_scope := b\<rparr>) \<longleftrightarrow> placed n item"
  by (simp_all add: placed_def)

lemma requested_versions_hard:
  "requested_versions s g a v repos = Inr (requirement, versions, highest) \<Longrightarrow> opt_hard_ok s (hard_constraint requirement)"
  by (auto simp: requested_versions_def and_then_Inr opt_hard_ok_def intro: hard_constraint_ok split: if_splits)

fun load_ok :: "Solver \<Rightarrow> nat \<Rightarrow> Load \<Rightarrow> bool" where
  "load_ok s n (Ready c) = cand_ok s n c"
| "load_ok s n (Relocated res) = cand_ok s n (r_candidate res)"
| "load_ok s n (Cyclic res) = cand_ok s n (r_candidate res)"
| "load_ok s n Excluded = True"

fun outcome_ok :: "Solver \<Rightarrow> nat \<Rightarrow> pass_outcome \<Rightarrow> bool" where
  "outcome_ok s n (Leave cyclic st) = opt_hard_ok s (ls_hard st)"
| "outcome_ok s n (Return loaded) = load_ok s n loaded"
| "outcome_ok s n (Again st) = opt_hard_ok s (ls_hard st)"

lemma system_candidate_ok:
  "system_candidate item coord = Inr c \<Longrightarrow> c_item c = item"
  by (auto simp: system_candidate_def split: if_splits)

lemma managed_system_ok:
  assumes "cand_ok s n cand" and "managed_system s cand st v = Inr outcome"
  shows "outcome_ok s n outcome"
  using assms requested_versions_hard
  by (fastforce simp: managed_system_def Let_def and_then_Inr cand_ok_alt dest: system_candidate_ok split: option.splits)

lemma managed_fixed_ok:
  assumes "opt_hard_ok s (hard_constraint requirement)"
  shows "answers (outcome_ok s n) (managed_fixed s cand st requirement versions resolved mg)"
  using assms by (auto simp: managed_fixed_def Let_def intro!: answers_bind split: prod.splits)

lemma managed_range_ok:
  assumes "cand_ok s n cand" and "opt_hard_ok s (hard_constraint requirement)"
    and "managed_range s cand st requirement versions highest = Inr outcome"
  shows "outcome_ok s n outcome"
  using assms by (auto simp: managed_range_def Let_def cand_ok_alt split: if_splits)

lemma managed_version_ok:
  assumes "cand_ok s n cand"
  shows "answers (outcome_ok s n) (managed_version s cand st v)"
  unfolding managed_version_def Let_def
proof (rule answers_cbind [where Q = "\<lambda>(requirement, versions, highest). opt_hard_ok s (hard_constraint requirement)"])
  show "answers (\<lambda>(requirement, versions, highest). opt_hard_ok s (hard_constraint requirement))
     (cret (requested_versions s (group_id (ls_target st)) (artifact_id (ls_target st)) v (p_repos (q_path (c_item cand)))))"
    by (auto intro: requested_versions_hard)
qed (use assms in \<open>auto intro!: answers_bind managed_fixed_ok intro: managed_range_ok
      simp del: hard_constraint.simps split: RequestedRequirement.splits prod.splits\<close>)

lemma relocation_pass_ok:
  assumes "cand_ok s n cand" and "opt_hard_ok s (ls_hard st)"
  shows "answers (outcome_ok s n) (relocation_pass s cand st)"
  using assms
  by (auto simp: relocation_pass_def Let_def intro: managed_system_ok managed_version_ok split: option.splits prod.splits)

lemma finish_load_ok: "cand_ok s n cand \<Longrightarrow> opt_hard_ok s (ls_hard st) \<Longrightarrow> load_ok s n (finish_load cand cyclic st)"
  by (auto simp: finish_load_def Let_def cand_ok_alt)

lemma relocation_passes_ok:
  "cand_ok s n cand \<Longrightarrow> opt_hard_ok s (ls_hard st) \<Longrightarrow> answers (load_ok s n) (relocation_passes m s cand st)"
proof (induction m arbitrary: st)
  case (Suc m)
  have "answers (outcome_ok s n) (relocation_pass s cand st)" using Suc.prems by (rule relocation_pass_ok)
  then show ?case
    by (simp, elim answers_cbind) (use Suc in \<open>auto simp: finish_load_ok split: pass_outcome.splits\<close>)
qed simp

lemma load_declared_ok: "cand_ok s n cand \<Longrightarrow> answers (load_ok s n) (load_declared s cand)"
  by (auto simp: load_declared_def cand_ok_alt intro!: answers_bind relocation_passes_ok split: prod.splits)

lemma load_candidate_ok:
  assumes "cand_ok s n cand"
  shows "answers (load_ok s n) (load_candidate s cand)"
proof -
  have "cand_ok s n (cand\<lparr>c_resolved_project := p\<rparr>)" for p using assms by (simp add: cand_ok_alt)
  with load_declared_ok [OF assms] show ?thesis
    by (auto simp: answers_def load_candidate_def map_err_def split: if_splits prod.splits sum.splits)
qed

definition read_ok :: "Solver \<Rightarrow> nat \<Rightarrow> Resolution option \<Rightarrow> bool" where
  "read_ok s n r \<longleftrightarrow> (\<forall>res. r = Some res \<longrightarrow> cand_ok s n (r_candidate res))"

lemma fresh_candidate_ok: "placed n item \<Longrightarrow> opt_hard_ok s hard \<Longrightarrow> cand_ok s n (fresh_candidate item resolved hard pos)"
  by (simp add: fresh_candidate_def cand_ok_alt)

lemma resolve_read_ok:
  assumes "placed n item"
  shows "answers (read_ok s n) (resolve_read s item v)"
  unfolding resolve_read_def Let_def
proof (rule answers_cbind [where Q = "\<lambda>(requirement, versions, highest). opt_hard_ok s (hard_constraint requirement)"])
  fix r :: "RequestedRequirement \<times> ResolvedVersion list \<times> ResolvedVersion"
  assume r: "case r of (requirement, versions, highest) \<Rightarrow> opt_hard_ok s (hard_constraint requirement)"
  obtain requirement versions resolved where eq: "r = (requirement, versions, resolved)" by (cases r)
  let ?c = "fresh_candidate item resolved (hard_constraint requirement) (length versions)"
  have c: "cand_ok s n ?c" using assms r eq by (intro fresh_candidate_ok) simp_all
  have load: "answers (read_ok s n) (cbind (load_candidate s ?c) (\<lambda>load. cret (Inr (case load of
      Ready candidate \<Rightarrow> Some (lone candidate) | Relocated resolution \<Rightarrow> Some resolution
    | Cyclic resolution \<Rightarrow> Some resolution | Excluded \<Rightarrow> None))))"
    by (rule answers_cbind [OF load_candidate_ok [OF c]]) (auto simp: read_ok_def lone_def split: Load.splits)
  have system: "cand_ok s n (candidate\<lparr>c_hard := hard_constraint requirement, c_source := [length versions]\<rparr>)"
    if "system_candidate item x = Inr candidate" for candidate x
    using assms r eq system_candidate_ok [OF that] by (simp add: cand_ok_alt)
  show "answers (read_ok s n) (case r of (requirement, versions, resolved) \<Rightarrow>
      if effective_scope (q_dependency item) = System
      then cret (and_then (system_candidate item (coord_of (q_dependency item) (rv_version resolved))) (\<lambda>candidate.
          Inr (Some \<lparr>r_candidate = candidate\<lparr>c_hard := hard_constraint requirement,
                                            c_source := [length versions]\<rparr>,
                     r_alternatives = versions, r_aliases = []\<rparr>)))
      else
        case requirement of
          RRanges _ \<Rightarrow>
            cret (Inr (Some \<lparr>r_candidate = fresh_candidate item resolved (hard_constraint requirement) (length versions),
              r_alternatives = versions, r_aliases = []\<rparr>))
        | _ \<Rightarrow>
            cbind (load_candidate s (fresh_candidate item resolved (hard_constraint requirement) (length versions))) (\<lambda>load.
              cret (Inr (case load of
                Ready candidate \<Rightarrow> Some (lone candidate)
              | Relocated resolution \<Rightarrow> Some resolution
              | Cyclic resolution \<Rightarrow> Some resolution
              | Excluded \<Rightarrow> None))))"
    using load c system unfolding eq
    by (auto simp: and_then_Inr read_ok_def simp del: hard_constraint.simps split: RequestedRequirement.splits)
qed (auto intro: requested_versions_hard)

lemma apply_managed_placed [simp]: "placed n (apply_managed_metadata m item) \<longleftrightarrow> placed n item"
  by (auto simp: apply_managed_metadata_def split: option.splits prod.splits)

lemma resolve_item_ok:
  assumes "placed n item"
  shows "answers (read_ok s n) (resolve_item s item)"
proof -
  have "answers (read_ok s n) (cret (Inr (Some (lone (fresh_candidate (apply_managed_metadata (s_management s) item)
      resolved None 0)))))" for resolved
    using assms by (simp add: read_ok_def lone_def fresh_candidate_ok)
  moreover have "answers (read_ok s n) (resolve_read s (apply_managed_metadata (s_management s) item) v)" for v
    using assms by (intro resolve_read_ok) simp
  moreover have "read_ok s n None" by (simp add: read_ok_def)
  ultimately show ?thesis
    by (auto simp: resolve_item_def Let_def simp del: answers_cret intro!: answers_bind split: sum.splits)
      (simp_all add: read_ok_def)
qed

section \<open>What a load does to its group\<close>

lemma replace_candidate_ok:
  assumes "walk_ok s w" and "selection w key = Some sel" and "cand_ok s (node_count (w_graph w)) loaded"
  shows "keep_ok s w (replace_candidate key sel probe loaded w)"
proof -
  let ?w = "w\<lparr>w_arcs := w_arcs w + 1\<rparr>"
  have "keep_ok s ?w (replace_candidate key sel probe loaded w)"
    unfolding replace_candidate_def
    using selection_ok(3) [OF assms(1,2)] assms by (intro put_same_ok [where old = sel]) (auto simp: arcs_ok_def)
  then show ?thesis by (auto simp: keep_ok_def keep_def grows_def)
qed

lemma take_out_ok:
  assumes "walk_ok s w" and "selection w key = Some sel"
  shows "keep_ok s w (take_out key sel probe stops w)"
proof -
  let ?P = "\<lambda>c. \<not> ptr_eq c probe \<and>
     (\<not> stops \<or> declared_at (snd c) \<noteq> declared_at (snd probe) \<or> c_source (snd c) < c_source (snd probe))"
  let ?w = "put_selection key (sel\<lparr>sel_candidates := filter ?P (sel_candidates sel)\<rparr>) w"
  have put: "keep_ok s w ?w"
    using selection_ok(3) [OF assms] by (intro put_same_ok [OF assms]) (simp_all add: arcs_ok_filter)
  then have "graph_ok (w_graph ?w)" by (simp add: keep_ok_def walk_ok_def)
  then have cut: "keep_ok s ?w (?w\<lparr>w_graph := remove_edge (w_graph ?w) a b e\<rparr>)" for a b e
    by (intro graph_field_ok [OF keep_ok_walk [OF put]]) (simp_all add: remove_edge_ok)
  have dirty: "keep_ok s v (mark_dirty key (revalidate_shadows key v))" if "walk_ok s v" for v
    using that by (meson keep_ok_trans keep_ok_walk mark_dirty_ok revalidate_shadows_ok)
  define v where "v = (if q_shadow (c_item (snd probe)) = None \<and>
        \<not> list_ex (\<lambda>c. declared_at (snd c) = declared_at (snd probe)) (filter ?P (sel_candidates sel))
      then ?w\<lparr>w_graph := remove_edge (w_graph ?w) (q_parent (c_item (snd probe))) (sel_node sel)
        (edge_of (c_item (snd probe)))\<rparr> else ?w)"
  have v: "keep_ok s w v"
    unfolding v_def using put keep_ok_trans [OF put cut] by (simp only: if_split) blast
  have "take_out key sel probe stops w = mark_dirty key (revalidate_shadows key v)"
    unfolding take_out_def Let_def v_def ..
  with keep_ok_trans [OF v dirty [OF keep_ok_walk [OF v]]] show ?thesis by (simp only:)
qed

lemma apply_load_ok:
  assumes "walk_ok s w" and "selection w key \<noteq> None" and "load_ok s (node_count (w_graph w)) loaded"
  shows "safe (step_ok s w) (apply_load backend key probe loaded w)"
proof -
  obtain sel where sel: "selection w key = Some sel" using assms(2) by auto
  note out = take_out_ok [OF assms(1) sel, of probe]
  have "safe (step_ok s w) (add_resolution backend res (take_out key sel probe b w))"
    if "cand_ok s (node_count (w_graph w)) (r_candidate res)" for res b
  proof -
    have "node_count (w_graph (take_out key sel probe b w)) = node_count (w_graph w)"
      using out [of b] by (simp add: keep_ok_def keep_def grows_def)
    with that have "safe (step_ok s (take_out key sel probe b w)) (add_resolution backend res (take_out key sel probe b w))"
      by (intro add_resolution_ok [OF keep_ok_walk [OF out]]) simp
    then show ?thesis by (rule safe_step_after [OF keep_ok_step [OF out]])
  qed
  then show ?thesis
    using sel assms replace_candidate_ok [OF assms(1) sel] out
    by (cases loaded) (simp_all add: apply_load_def expect_def keep_ok_step)
qed

lemma load_in_order_ok:
  "\<forall>p \<in> set probes. cand_ok s n (snd p) \<Longrightarrow>
   \<forall>r \<in> set (fst (load_in_order s probes cache)). \<forall>l. r = Inr l \<longrightarrow> load_ok s n l"
proof (induction probes arbitrary: cache)
  case (Cons p probes)
  obtain r cache' where r: "load_candidate s (snd p) cache = (r, cache')" by fastforce
  have "\<forall>l. r = Inr l \<longrightarrow> load_ok s n l"
    using load_candidate_ok [of s n "snd p"] Cons.prems r by (auto simp: answers_def)
  with Cons.IH [of cache'] Cons.prems r show ?case by (auto split: prod.splits)
qed simp

lemma load_ok_mono: "load_ok s n l \<Longrightarrow> n \<le> m \<Longrightarrow> load_ok s m l"
  by (cases l) (auto intro: cand_ok_mono)

lemma apply_loads_ok:
  assumes "walk_ok s w" and "\<forall>e \<in> set loads. \<forall>l. snd (snd e) = Inr l \<longrightarrow> load_ok s (node_count (w_graph w)) l"
  shows "safe (\<lambda>(_, w'). step_ok s w w') (apply_loads backend key loads w)"
  using assms
proof (induction loads arbitrary: w)
  case (Cons e loads)
  obtain probe is_last loaded where e: "e = (probe, is_last, loaded)" by (cases e)
  let ?grp = "group_of w key"
  have next_ok: "safe (\<lambda>(_, w'). step_ok s w w') (apply_loads backend key loads v)" if v: "step_ok s w v" for v
  proof -
    have "safe (\<lambda>(_, w'). step_ok s v w') (apply_loads backend key loads v)"
      using v Cons.prems(2) by (intro Cons.IH) (auto simp: step_ok_def grows_def intro: load_ok_mono)
    then show ?thesis by (rule safe_mono) (auto intro: step_ok_trans [OF v])
  qed
  show ?case
  proof (cases "holds w ?grp probe")
    case False
    then show ?thesis
      using Cons.prems(1) e by (auto intro!: next_ok keep_ok_step mark_dirty_ok)
  next
    case True
    then have "selection w ?grp \<noteq> None" by (auto simp: holds_def split: option.splits)
    then have "safe (step_ok s w) (apply_load backend ?grp probe l w)" if "loaded = Inr l" for l
      using Cons.prems that e by (intro apply_load_ok) auto
    then have "safe (\<lambda>(_, w'). step_ok s w w') (and_then (apply_load backend ?grp probe l w) (\<lambda>w.
        if is_relocated l then Inr (Some probe, w) else apply_loads backend key loads w))" if "loaded = Inr l" for l
      using that by (intro safe_and_then [where P = "step_ok s w"]) (auto intro: next_ok)
    then show ?thesis
      using True e by (cases loaded) (simp_all add: Let_def raise_def map_err_def)
  qed
qed simp

lemma holds_selection: "holds w key c \<Longrightarrow> selection w key \<noteq> None"
  by (auto simp: holds_def split: option.splits)

lemma step_dirty: "step_ok s w v \<Longrightarrow> step_ok s w (mark_dirty key v)"
  using step_ok_trans [OF _ keep_ok_step [OF mark_dirty_ok [OF step_ok_walk]]] by blast

lemma load_one_ok:
  assumes "walk_ok s w" and "selection w key \<noteq> None" and "cand_ok s (node_count (w_graph w)) (snd candidate)"
  shows "safe (\<lambda>(_, w'). step_ok s w w') (load_one s key candidate w)"
proof -
  obtain sel where sel: "selection w key = Some sel" using assms(2) by auto
  let ?lower = "lower_candidates sel (snd candidate) @ [candidate]"
  obtain loads cache where l: "load_in_order s ?lower (w_relocations w) = (loads, cache)" by fastforce
  let ?w = "w\<lparr>w_relocations := cache\<rparr>"
  let ?lasts = "map (\<lambda>i. i = length ?lower - 1) [0..<length ?lower]"
  have "\<forall>p \<in> set ?lower. cand_ok s (node_count (w_graph w)) (snd p)"
    using selection_ok(3) [OF assms(1) sel] assms(3) by (auto simp: lower_candidates_def arcs_ok_def)
  then have "\<forall>r \<in> set loads. \<forall>x. r = Inr x \<longrightarrow> load_ok s (node_count (w_graph w)) x"
    using load_in_order_ok [of ?lower s "node_count (w_graph w)" "w_relocations w"] l by simp
  then have "\<forall>e \<in> set (zip ?lower (zip ?lasts loads)). \<forall>x. snd (snd e) = Inr x \<longrightarrow> load_ok s (node_count (w_graph ?w)) x"
    by (auto dest!: set_zip_rightD)
  then have "safe (\<lambda>(_, w'). step_ok s ?w w') (apply_loads (s_backend s) key (zip ?lower (zip ?lasts loads)) ?w)"
    using assms(1) by (intro apply_loads_ok) simp_all
  then have "safe (\<lambda>(_, w'). step_ok s w w') (apply_loads (s_backend s) key (zip ?lower (zip ?lasts loads)) ?w)"
    by (rule safe_mono) (auto simp: step_ok_def grows_def)
  then have "safe (\<lambda>(_, w'). step_ok s w w') (and_then (apply_loads (s_backend s) key (zip ?lower (zip ?lasts loads)) ?w)
      (\<lambda>(relocated, w). case relocated of Some probe \<Rightarrow> Inr (Some probe, w)
        | None \<Rightarrow> Inr (None, if length loads = length ?lower then w else mark_dirty (group_of w key) w)))"
    by (rule safe_and_then)
      (auto intro: step_dirty split: option.splits)
  moreover have "c_source (snd candidate) \<noteq> []" using assms(3) by (simp add: cand_ok_def)
  ultimately show ?thesis
    using sel l by (simp add: load_one_def expect_def Let_def)
qed

lemma load_others_ok:
  assumes "walk_ok s w" and "arcs_ok s (node_count (w_graph w)) others"
  shows "safe (step_ok s w) (load_others s key others w)"
  using assms
proof (induction others arbitrary: w)
  case (Cons other others)
  let ?grp = "group_of w key"
  show ?case
  proof (cases "holds w ?grp other")
    case True
    have "safe (\<lambda>(_, w'). step_ok s w w') (load_one s ?grp other w)"
      using Cons.prems holds_selection [OF True] by (intro load_one_ok) simp_all
    then have "safe (step_ok s w) (and_then (load_one s ?grp other w) (\<lambda>(_, w). load_others s key others w))"
    proof (rule safe_and_then)
      fix p assume "case p of (_, w') \<Rightarrow> step_ok s w w'"
      then obtain x v where p: "p = (x, v)" and v: "step_ok s w v" by (cases p) simp
      have "safe (step_ok s v) (load_others s key others v)"
        using Cons.prems v by (intro Cons.IH) (auto simp: step_ok_def grows_def intro: arcs_ok_mono)
      then show "safe (step_ok s w) (case p of (_, w) \<Rightarrow> load_others s key others w)"
        using p safe_step_after [OF v] by simp
    qed
    with True show ?thesis by (simp add: Let_def)
  qed (use Cons in simp)
qed simp

lemma load_ok_walk:
  assumes "walk_ok s w" and "selection w key \<noteq> None" and "cand_ok s (node_count (w_graph w)) (snd candidate)"
  shows "safe (step_ok s w) (load s key candidate w)"
  unfolding load_def
proof (rule safe_and_then [OF load_one_ok [OF assms]])
  fix p :: "ArcCandidate option \<times> Walk"
  assume "case p of (_, w') \<Rightarrow> step_ok s w w'"
  then obtain relocated v where p: "p = (relocated, v)" and v: "step_ok s w v" by (cases p) simp
  let ?others = "\<lambda>gone. filter (\<lambda>c. c_resolved_project (snd c) = None \<and> same_text (c_coord (snd c)) (c_coord (snd gone)))
      (case selection v (group_of v key) of Some sel \<Rightarrow> sel_candidates sel | None \<Rightarrow> [])"
  have "arcs_ok s (node_count (w_graph v)) (?others gone)" for gone
    using selection_ok(3) [OF step_ok_walk [OF v]] by (auto intro: arcs_ok_filter split: option.splits)
  then have "safe (step_ok s v) (load_others s key (?others gone) v)" for gone
    by (intro load_others_ok [OF step_ok_walk [OF v]])
  then have "safe (step_ok s w) (load_others s key (?others gone) v)" for gone
    by (rule safe_step_after [OF v])
  then show "safe (step_ok s w) (case p of (relocated, w) \<Rightarrow> (case relocated of
      None \<Rightarrow> Inr w
    | Some gone \<Rightarrow> load_others s key
        (filter (\<lambda>c. c_resolved_project (snd c) = None \<and> same_text (c_coord (snd c)) (c_coord (snd gone)))
          (case selection w (group_of w key) of Some sel \<Rightarrow> sel_candidates sel | None \<Rightarrow> [])) w))"
    using p v by (cases relocated) simp_all
qed

lemma load_each_ok:
  assumes "walk_ok s w" and "arcs_ok s (node_count (w_graph w)) cs"
  shows "safe (step_ok s w) (load_each s key cs w)"
  using assms
proof (induction cs arbitrary: w)
  case (Cons c cs)
  let ?grp = "group_of w key"
  show ?case
  proof (cases "holds w ?grp c")
    case True
    have "safe (step_ok s w) (load s ?grp c w)"
      using Cons.prems holds_selection [OF True] by (intro load_ok_walk) simp_all
    then have "safe (step_ok s w) (and_then (load s ?grp c w) (load_each s key cs))"
    proof (rule safe_step_seq)
      fix v assume v: "step_ok s w v"
      then have "arcs_ok s (node_count (w_graph v)) cs"
        using Cons.prems(2) by (auto simp: step_ok_def grows_def intro: arcs_ok_mono)
      then show "safe (step_ok s v) (load_each s key cs v)" by (rule Cons.IH [OF step_ok_walk [OF v]])
    qed
    with True show ?thesis by (simp add: Let_def)
  qed (use Cons in simp)
qed simp

lemma run_load_ok:
  assumes "walk_ok s w" and "answers P m" and "run_load m w = (r, w')"
  shows "keep_ok s w w' \<and> selection w' = selection w \<and> safe P r"
  using assms by (auto simp: run_load_def answers_def keep_ok_def intro!: safe_raise split: prod.splits)

lemma pending_Some:
  assumes "pending w key candidate from' = Some i"
  obtains sel where "selection w key = Some sel" "from' \<le> length (sel_candidates sel)" "i < length (sel_candidates sel)"
    "ptr_eq (sel_candidates sel ! i) candidate"
proof -
  obtain sel where sel: "selection w key = Some sel" "from' \<le> length (sel_candidates sel)"
    using assms by (auto simp: pending_def split: option.splits if_splits)
  then obtain j where j: "find_pos (\<lambda>c. ptr_eq c candidate) (drop from' (sel_candidates sel)) = Some j" "i = from' + j"
    using assms by (auto simp: pending_def split: option.splits if_splits)
  then have "j < length (drop from' (sel_candidates sel)) \<and> ptr_eq (drop from' (sel_candidates sel) ! j) candidate"
    by (simp only: find_pos_Some)
  with sel j(2) show ?thesis by (intro that [of sel]) auto
qed

lemma confirm_ok:
  assumes "walk_ok s w" and "cand_ok s (node_count (w_graph w)) (snd candidate)"
  shows "safe (step_ok s w) (confirm s key candidate from' w)"
proof (cases "pending w (group_of w key) candidate from'")
  case None
  then show ?thesis using assms(1) by (simp add: confirm_def Let_def keep_ok_step mark_dirty_ok)
next
  case (Some i)
  let ?grp = "group_of w key"
  obtain sel where sel: "selection w ?grp = Some sel" "from' \<le> length (sel_candidates sel)" "i < length (sel_candidates sel)"
    using Some by (rule pending_Some)
  obtain r v where run: "run_load (load_candidate s (snd candidate)) w = (r, v)" by fastforce
  from run_load_ok [OF assms(1) load_candidate_ok [OF assms(2)] run]
  have v: "keep_ok s w v" "selection v = selection w" and r: "safe (load_ok s (node_count (w_graph w))) r" by auto
  have n: "node_count (w_graph v) = node_count (w_graph w)" using v(1) by (simp add: keep_ok_def keep_def grows_def)
  have ready: "safe (step_ok s w) (scan_losers (s_backend s) ?grp from' (put_selection ?grp (sel\<lparr>sel_candidates :=
      (sel_candidates sel)[i := (w_arcs v, loaded)]\<rparr>) (v\<lparr>w_arcs := w_arcs v + 1\<rparr>)))"
    if "cand_ok s (node_count (w_graph w)) loaded" for loaded
  proof -
    let ?u = "put_selection ?grp (sel\<lparr>sel_candidates := (sel_candidates sel)[i := (w_arcs v, loaded)]\<rparr>)
        (v\<lparr>w_arcs := w_arcs v + 1\<rparr>)"
    have "arcs_ok s (node_count (w_graph w)) ((sel_candidates sel)[i := (w_arcs v, loaded)])"
      using that selection_ok(3) [OF assms(1) sel(1)] set_update_subset_insert [of "sel_candidates sel" i]
      by (fastforce simp: arcs_ok_def)
    then have "keep_ok s (v\<lparr>w_arcs := w_arcs v + 1\<rparr>) ?u"
      using v sel n by (intro put_same_ok [where old = sel]) (simp_all add: keep_ok_walk)
    then have u: "keep_ok s w ?u" using v(1) by (auto simp: keep_ok_def keep_def grows_def)
    have "safe (keep_ok s ?u) (scan_losers (s_backend s) ?grp from' ?u)"
      using sel by (intro scan_losers_ok [OF keep_ok_walk [OF u]]) (auto split: if_splits)
    then show ?thesis by (rule safe_keep_after [OF keep_ok_step [OF u]])
  qed
  have "safe (step_ok s w) (and_then r (\<lambda>l. case l of
      Ready loaded \<Rightarrow>
        and_then (expect (selection v ?grp) ''pending'') (\<lambda>sel.
          if i < length (sel_candidates sel)
          then scan_losers (s_backend s) ?grp from'
                 (put_selection ?grp (sel\<lparr>sel_candidates := (sel_candidates sel)[i := (w_arcs v, loaded)]\<rparr>)
                   (v\<lparr>w_arcs := w_arcs v + 1\<rparr>))
          else Inl (Panic ''index out of bounds''))
    | _ \<Rightarrow> Inr (mark_dirty ?grp v)))"
  proof (rule safe_and_then [OF r])
    fix l assume "load_ok s (node_count (w_graph w)) l"
    moreover have "step_ok s w (mark_dirty ?grp v)"
      using keep_ok_trans [OF v(1) mark_dirty_ok [OF keep_ok_walk [OF v(1)]]] by (rule keep_ok_step)
    ultimately show "safe (step_ok s w) (case l of
      Ready loaded \<Rightarrow>
        and_then (expect (selection v ?grp) ''pending'') (\<lambda>sel.
          if i < length (sel_candidates sel)
          then scan_losers (s_backend s) ?grp from'
                 (put_selection ?grp (sel\<lparr>sel_candidates := (sel_candidates sel)[i := (w_arcs v, loaded)]\<rparr>)
                   (v\<lparr>w_arcs := w_arcs v + 1\<rparr>))
          else Inl (Panic ''index out of bounds''))
    | _ \<Rightarrow> Inr (mark_dirty ?grp v))"
      using sel v(2) ready by (cases l) (simp_all add: expect_def)
  qed
  with Some run show ?thesis by (simp add: confirm_def Let_def)
qed

section \<open>Mediation\<close>

lemma set_update_subset: "set (AList.update k v al) \<subseteq> insert (k, v) (set al)"
  by (induction al) auto

lemma fold_entries:
  assumes "\<And>c L. snd ` set (f c L) \<subseteq> insert c (snd ` set L)"
  shows "snd ` set (fold f cs L) \<subseteq> set cs \<union> snd ` set L"
proof (induction cs arbitrary: L)
  case (Cons c cs)
  from Cons.IH [of "f c L"] assms [of c L] show ?case by auto
qed simp

lemma update_values: "snd ` set (AList.update k v al) \<subseteq> insert v (snd ` set al)"
  using set_update_subset [of k v al] by force

lemma lowest_subset: "snd ` set (fold (low_step R) cs L) \<subseteq> set cs \<union> snd ` set L"
  by (rule fold_entries) (simp add: low_step_def Let_def update_values subset_insertI split: option.split)

lemma unconfirmed_subset: "set (unconfirmed sel b) \<subseteq> set (sel_candidates sel)"
  using lowest_subset [of "rejecting_texts sel (nearer_than sel b)" "sel_candidates sel" "[]"]
  by (auto simp: unconfirmed_def Let_def lowest_by_range_step)

lemma dirty_ranges_subset: "set (dirty_ranges sel winner) \<subseteq> set (sel_candidates sel)"
  unfolding dirty_ranges_def set_map
  by (rule subset_trans [OF fold_entries])
    (simp_all add: update_values subset_insertI split: option.split)

lemma best_in: "best sel = Some b \<Longrightarrow> b \<in> set (sel_candidates sel)"
  by (auto simp: best_def Let_def dest: min_by_in)

lemma note_checked_ok:
  assumes "walk_ok s w"
  shows "keep_ok s w (note_checked key at' w)"
proof (cases "selection w key")
  case (Some sel)
  then show ?thesis
    using put_same_ok [OF assms Some] selection_ok(3) [OF assms Some] by (simp add: note_checked_def)
qed (use assms in \<open>simp add: note_checked_def\<close>)

text \<open>A probe that relocates nothing keeps the groups.\<close>

definition probed_ok :: "Solver \<Rightarrow> bool \<Rightarrow> Walk \<Rightarrow> bool \<times> Walk \<Rightarrow> bool" where
  "probed_ok s relocated w = (\<lambda>(r, w'). step_ok s w w' \<and> (\<not> r \<longrightarrow> \<not> relocated \<and> keep w w'))"

lemma probe_dirty_ok:
  assumes "walk_ok s w" and "arcs_ok s (node_count (w_graph w)) cs"
  shows "safe (probed_ok s relocated w) (probe_dirty s key cs relocated w)"
  using assms
proof (induction cs arbitrary: relocated w)
  case (Cons c cs)
  let ?grp = "group_of w key"
  have keeps: "safe (probed_ok s relocated w) (probe_dirty s key cs relocated v)" if v: "keep_ok s w v" for v
  proof -
    have "node_count (w_graph v) = node_count (w_graph w)" using v by (simp add: keep_ok_def keep_def grows_def)
    then have "safe (probed_ok s relocated v) (probe_dirty s key cs relocated v)"
      using Cons.prems by (intro Cons.IH keep_ok_walk [OF v]) simp
    then show ?thesis
      using v by (elim safe_mono) (auto simp: probed_ok_def keep_ok_def intro: keep_trans step_ok_trans [OF keep_ok_step [OF v]])
  qed
  have moves: "safe (probed_ok s relocated w) (probe_dirty s key cs True v)" if v: "step_ok s w v" for v
  proof -
    have "safe (probed_ok s True v) (probe_dirty s key cs True v)"
      using v Cons.prems by (intro Cons.IH) (auto simp: step_ok_def grows_def intro: arcs_ok_mono)
    then show ?thesis
      using v by (elim safe_mono) (auto simp: probed_ok_def intro: step_ok_trans)
  qed
  show ?case
  proof (cases "holds w ?grp c \<and> \<not> already_loaded w ?grp (snd c)")
    case False
    then show ?thesis
      using Cons.prems(1) keeps [of w] keeps [OF note_checked_ok [OF Cons.prems(1)]] by (auto simp: Let_def)
  next
    case True
    obtain r v where run: "run_load (load_candidate s (snd c)) w = (r, v)" by fastforce
    have "cand_ok s (node_count (w_graph w)) (snd c)" using Cons.prems(2) by simp
    from run_load_ok [OF Cons.prems(1) load_candidate_ok [OF this] run]
    have v: "keep_ok s w v" "selection v = selection w" and r: "safe (load_ok s (node_count (w_graph w))) r" by auto
    have checked: "keep_ok s w (note_checked ?grp at' v)" for at'
      using v(1) note_checked_ok keep_ok_walk keep_ok_trans by blast
    have "safe (step_ok s v) (load s ?grp c v)"
      using v True Cons.prems(2) holds_selection [of w ?grp c]
      by (intro load_ok_walk) (simp_all add: keep_ok_def keep_def grows_def)
    then have load: "safe (probed_ok s relocated w) (and_then (load s ?grp c v) (probe_dirty s key cs True))"
      by (rule safe_and_then) (auto intro: moves step_ok_trans keep_ok_step [OF v(1)])
    have "safe (probed_ok s relocated w) (and_then r (\<lambda>loaded. case loaded of
        Ready _ \<Rightarrow> probe_dirty s key cs relocated (note_checked ?grp (declared_at (snd c)) v)
      | Excluded \<Rightarrow> probe_dirty s key cs relocated (note_checked ?grp (declared_at (snd c)) v)
      | _ \<Rightarrow> and_then (load s ?grp c v) (probe_dirty s key cs True)))"
      by (rule safe_and_then [OF r]) (auto simp: keeps [OF checked] load split: Load.splits)
    with True run show ?thesis by (simp add: Let_def)
  qed
qed (simp add: probed_ok_def)

lemma settle_fields [simp]: "sel_node (settle sel) = sel_node sel" "sel_candidates (settle sel) = sel_candidates sel"
  by (simp_all add: settle_def)

lemma settle_group_ok:
  assumes "walk_ok s w"
  shows "keep_ok s w (settle_group key w)"
proof (cases "selection w key")
  case (Some sel)
  then show ?thesis
    using put_same_ok [OF assms Some] selection_ok(3) [OF assms Some] by (simp add: settle_group_def)
qed (use assms in \<open>simp add: settle_group_def\<close>)

lemma crown_fields [simp]:
  "sel_node (crown winner path sel) = sel_node sel" "sel_candidates (crown winner path sel) = sel_candidates sel"
  by (simp_all add: crown_def Let_def)

lemma set_node_ok:
  assumes "graph_ok g"
  shows "graph_ok (set_node n f g) \<and> node_count (set_node n f g) = node_count g \<and> g_root (set_node n f g) = g_root g"
  using assms by (auto simp: set_node_def graph_ok_def node_count_def split: option.splits)

lemma commit_ok:
  assumes "walk_ok s w" and "selection w key \<noteq> None" and "cand_ok s (node_count (w_graph w)) (snd winner)"
    and "c_resolved_project (snd winner) \<noteq> None"
  shows "safe (step_ok s w) (commit backend key winner w)"
proof -
  let ?c = "snd winner"
  obtain project where p: "c_resolved_project ?c = Some project" using assms(4) by auto
  obtain sel where sel: "selection w key = Some sel" using assms(2) by auto
  let ?path = "candidate_path backend ?c (rp_project project)"
  let ?sel = "crown winner ?path sel"
  let ?w = "put_selection key ?sel w" and ?n = "sel_node sel"
  note ok = selection_ok [OF assms(1) sel]
  have put: "keep_ok s w ?w" using ok by (intro put_same_ok [OF assms(1) sel]) simp_all
  have finish: "safe (step_ok s w) (and_then (index_at (w_generations v) ?n) (\<lambda>gen.
      queue_children backend ?c ?n gen None (revalidate_shadows key (v\<lparr>w_graph := set_node ?n f (w_graph v)\<rparr>))))"
    if v: "keep_ok s w v" for v f
  proof -
    have n: "node_count (w_graph v) = node_count (w_graph w)" using v by (simp add: keep_ok_def keep_def grows_def)
    have "graph_ok (w_graph v)" using v by (simp add: keep_ok_def walk_ok_def)
    then have g: "keep_ok s v (v\<lparr>w_graph := set_node ?n f (w_graph v)\<rparr>)"
      using set_node_ok [of "w_graph v" ?n f] by (intro graph_field_ok keep_ok_walk [OF v]) auto
    let ?u = "revalidate_shadows key (v\<lparr>w_graph := set_node ?n f (w_graph v)\<rparr>)"
    have u: "keep_ok s w ?u"
      by (rule keep_ok_trans [OF v keep_ok_trans [OF g revalidate_shadows_ok [OF keep_ok_walk [OF g]]]])
    then have "node_count (w_graph ?u) = node_count (w_graph w)" by (simp add: keep_ok_def keep_def grows_def)
    then have "safe (keep_ok s ?u) (queue_children backend ?c ?n gen None ?u)" for gen
      using ok(1) assms(3,4) by (intro queue_children_ok [OF keep_ok_walk [OF u]]) (auto intro: cand_order)
    then have "safe (step_ok s w) (queue_children backend ?c ?n gen None ?u)" for gen
      by (rule safe_keep_after [OF keep_ok_step [OF u]])
    moreover have "?n < length (w_generations v)" using v ok(1) n by (simp add: keep_ok_def walk_ok_def)
    ultimately show ?thesis by (simp add: index_at_def)
  qed
  have "safe (keep_ok s ?w) (retire ?n conv ?w)" for conv
    using ok(1) by (intro retire_ok [OF keep_ok_walk [OF put]]) simp
  then have "safe (step_ok s w) (and_then (retire ?n conv ?w) (\<lambda>w. and_then (index_at (w_generations w) ?n) (\<lambda>gen.
      queue_children backend ?c ?n gen None (revalidate_shadows key (w\<lparr>w_graph := set_node ?n f (w_graph w)\<rparr>)))))"
    for conv f
    by (rule safe_and_then) (rule finish [OF keep_ok_trans [OF put]])
  then show ?thesis
    by (simp add: commit_def Let_def p sel expect_def) (auto intro: safe_and_then [OF check_workspace_cycle_ok])
qed

fun progress_ok :: "Solver \<Rightarrow> Walk \<Rightarrow> progress \<Rightarrow> bool" where
  "progress_ok s w (Finished w') = step_ok s w w'"
| "progress_ok s w (Continue w') = step_ok s w w'"

lemma safe_finished: "safe (step_ok s w) r \<Longrightarrow> safe (progress_ok s w) (and_then r (\<lambda>w. Inr (Finished w)))"
  by (erule safe_and_then) simp

lemma safe_continue: "safe (step_ok s w) r \<Longrightarrow> safe (progress_ok s w) (and_then r (\<lambda>w. Inr (Continue w)))"
  by (erule safe_and_then) simp

lemma progress_after: "step_ok s w v \<Longrightarrow> safe (progress_ok s v) r \<Longrightarrow> safe (progress_ok s w) r"
proof (erule safe_mono)
  fix p assume "step_ok s w v" "progress_ok s v p"
  then show "progress_ok s w p" by (cases p) (auto intro: step_ok_trans)
qed

lemma elect_ok:
  assumes "walk_ok s w" and "selection w key \<noteq> None" and "cand_ok s (node_count (w_graph w)) (snd b)"
  shows "safe (progress_ok s w) (elect s key b w)"
proof -
  obtain sel where sel: "selection w key = Some sel" using assms(2) by auto
  let ?sel = "sel\<lparr>sel_conflict := None\<rparr>"
  let ?w = "put_selection key ?sel w"
  note ok = selection_ok [OF assms(1) sel]
  have put: "keep_ok s w ?w" using ok by (intro put_same_ok [OF assms(1) sel]) simp_all
  note w = keep_ok_walk [OF put]
  let ?v = "put_selection key (settle (?sel\<lparr>sel_winner := Some b\<rparr>)) ?w"
  have v: "keep_ok s ?w ?v" using ok by (intro put_same_ok [OF w, where old = ?sel]) simp_all
  have "safe (keep_ok s ?v) (scan_losers (s_backend s) key 0 ?v)" by (intro scan_losers_ok keep_ok_walk [OF v]) simp
  then have same: "safe (progress_ok s ?w) (and_then (scan_losers (s_backend s) key 0 ?v) (\<lambda>w. Inr (Finished w)))"
    by (intro safe_finished safe_keep_after [OF keep_ok_step [OF v]])
  have load: "safe (progress_ok s ?w) (and_then (load s key b ?w) (\<lambda>w. Inr (Continue w)))"
    using assms(3) by (intro safe_continue load_ok_walk [OF w]) simp_all
  have commit: "safe (progress_ok s ?w) (and_then (commit (s_backend s) key b ?w) (\<lambda>w.
      and_then (scan_losers (s_backend s) key 0 (settle_group key w)) (\<lambda>w. Inr (Finished w))))"
    if "c_resolved_project (snd b) \<noteq> None"
  proof -
    have "safe (step_ok s ?w) (commit (s_backend s) key b ?w)"
      using assms(3) that by (intro commit_ok [OF w]) simp_all
    then show ?thesis
    proof (rule safe_and_then)
      fix u assume u: "step_ok s ?w u"
      note g = settle_group_ok [OF step_ok_walk [OF u], of key]
      have "safe (keep_ok s (settle_group key u)) (scan_losers (s_backend s) key 0 (settle_group key u))"
        by (intro scan_losers_ok keep_ok_walk [OF g]) simp
      then show "safe (progress_ok s ?w) (and_then (scan_losers (s_backend s) key 0 (settle_group key u))
          (\<lambda>w. Inr (Finished w)))"
        by (intro safe_finished safe_keep_after [OF step_ok_trans [OF u keep_ok_step [OF g]]])
    qed
  qed
  show ?thesis
    using progress_after [OF keep_ok_step [OF put]] same load commit sel
    by (simp add: elect_def Let_def expect_def)
qed

lemma note_conflict_fields [simp]:
  "sel_node (note_conflict sel) = sel_node sel" "sel_candidates (note_conflict sel) = sel_candidates sel"
  by (auto simp: note_conflict_def split: option.splits prod.splits)

lemma reconsider_step_ok:
  assumes "walk_ok s w"
  shows "safe (progress_ok s w) (reconsider_step s key0 w)"
proof (cases "selection w (group_of w key0)")
  case None
  then show ?thesis using assms by (simp add: reconsider_step_def)
next
  case (Some old)
  let ?key = "group_of w key0" and ?sel = "old\<lparr>sel_settled := None\<rparr>"
  let ?w = "put_selection ?key ?sel w"
  note ok = selection_ok [OF assms Some]
  have put: "keep_ok s w ?w" using ok by (intro put_same_ok [OF assms Some]) simp_all
  note w = keep_ok_walk [OF put]
  have arcs: "arcs_ok s (node_count (w_graph ?w)) (sel_candidates ?sel)" using ok(3) by simp
  have drop: "safe (progress_ok s ?w) (and_then (drop_group ?key ?w) (\<lambda>w. Inr (Finished w)))"
    by (intro safe_finished drop_group_ok w)
  have confirm: "safe (progress_ok s ?w) (and_then (load_each s ?key (unconfirmed ?sel b) ?w) (\<lambda>w. Inr (Continue w)))" for b
    by (intro safe_continue load_each_ok [OF w] arcs_ok_subset [OF arcs unconfirmed_subset])
  have conflict: "step_ok s ?w (put_selection ?key (note_conflict ?sel) ?w)"
    using arcs by (intro keep_ok_step put_same_ok [OF w, where old = ?sel]) simp_all
  have mediate: "safe (progress_ok s ?w) (and_then (probe_dirty s ?key (dirty_ranges ?sel (snd b)) False ?w)
      (\<lambda>(relocated, w). if relocated then Inr (Continue w) else elect s ?key b w))" if "best ?sel = Some b" for b
  proof (rule safe_and_then [OF probe_dirty_ok [OF w arcs_ok_subset [OF arcs dirty_ranges_subset]]])
    fix p assume p: "probed_ok s False ?w p"
    obtain r v where rv: "p = (r, v)" by fastforce
    with p have v: "step_ok s ?w v" "\<not> r \<Longrightarrow> keep ?w v" by (auto simp: probed_ok_def)
    have "safe (progress_ok s v) (elect s ?key b v)" if "\<not> r"
    proof (rule elect_ok [OF step_ok_walk [OF v(1)]])
      have "map_option sel_node (selection v ?key) = map_option sel_node (selection ?w ?key)"
        using v(2) [OF that] by (simp only: keep_def)
      then show "selection v ?key \<noteq> None" by auto
      have "cand_ok s (node_count (w_graph ?w)) (snd b)"
        using arcs best_in [OF \<open>best ?sel = Some b\<close>] by (auto simp: arcs_ok_def)
      then show "cand_ok s (node_count (w_graph v)) (snd b)" using v(1) by (auto simp: step_ok_def grows_def intro: cand_ok_mono)
    qed
    then show "safe (progress_ok s ?w) (case p of (relocated, w) \<Rightarrow>
        if relocated then Inr (Continue w) else elect s ?key b w)"
      using rv v(1) progress_after [OF v(1)] by simp
  qed
  define b where "b = best ?sel"
  have "reconsider_step s key0 w =
    (if list_all (\<lambda>c. is_shadow (snd c)) (sel_candidates ?sel)
     then and_then (drop_group ?key ?w) (\<lambda>w. Inr (Finished w))
     else if unconfirmed ?sel b \<noteq> []
     then and_then (load_each s ?key (unconfirmed ?sel b) ?w) (\<lambda>w. Inr (Continue w))
     else (case b of
       None \<Rightarrow> Inr (Finished (put_selection ?key (note_conflict ?sel) ?w))
     | Some b' \<Rightarrow>
         and_then (probe_dirty s ?key (case b of None \<Rightarrow> [] | Some b \<Rightarrow> dirty_ranges ?sel (snd b)) False ?w) (\<lambda>(relocated, w).
           if relocated then Inr (Continue w) else elect s ?key b' w)))"
    unfolding reconsider_step_def Let_def b_def using Some by simp
  moreover have "safe (progress_ok s ?w) \<dots>"
    using drop confirm conflict mediate b_def by (auto split: option.splits)
  ultimately show ?thesis using progress_after [OF keep_ok_step [OF put]] by simp
qed

section \<open>The loops\<close>

lemma reconsider_ok:
  assumes "reconsider s key w = Some r" and "walk_ok s w"
  shows "safe (step_ok s w) r"
proof -
  have "walk_ok s w \<longrightarrow> safe (step_ok s w) r"
  proof (rule reconsider.raw_induct [where P = "\<lambda>s key w r. walk_ok s w \<longrightarrow> safe (step_ok s w) r", OF _ assms(1)],
      rule impI)
    fix recon s key w r
    assume 1: "\<And>s key w r. recon s key w = Some r \<Longrightarrow> walk_ok s w \<longrightarrow> safe (step_ok s w) r"
      "(case reconsider_step s key w of Inl e \<Rightarrow> Some (Inl e)
        | Inr p \<Rightarrow> (case p of Finished w \<Rightarrow> Some (Inr w) | Continue w \<Rightarrow> recon s key w)) = Some r" "walk_ok s w"
    have step: "safe (progress_ok s w) (reconsider_step s key w)" using 1(3) by (rule reconsider_step_ok)
    show "safe (step_ok s w) r"
    proof (cases "reconsider_step s key w")
      case (Inl e)
      with 1(2) step show ?thesis by (cases e) auto
    next
      case (Inr p)
      show ?thesis
      proof (cases p)
        case (Finished v)
        with Inr 1(2) step show ?thesis by auto
      next
        case (Continue v)
        with Inr 1(2) step have "recon s key v = Some r" and v: "step_ok s w v" by simp_all
        then have "safe (step_ok s v) r" using 1(1) step_ok_walk by blast
        then show ?thesis by (rule safe_step_after [OF v])
      qed
    qed
  qed
  with assms(2) show ?thesis by blast
qed

lemma add_loads_ok:
  assumes "walk_ok s w" and "\<forall>r \<in> set loads. \<forall>l. r = Inr l \<longrightarrow> load_ok s (node_count (w_graph w)) l"
  shows "safe (step_ok s w) (add_loads backend loads w)"
  using assms
proof (induction loads arbitrary: w)
  case (Cons r loads)
  have "safe (step_ok s w) (and_then (case l of
      Ready c \<Rightarrow> add_resolution backend (lone c) w
    | Relocated res \<Rightarrow> add_resolution backend res w
    | Cyclic res \<Rightarrow> add_resolution backend res w
    | Excluded \<Rightarrow> Inr w) (add_loads backend loads))" if "r = Inr l" for l
  proof (rule safe_step_seq)
    show "safe (step_ok s w) (case l of
        Ready c \<Rightarrow> add_resolution backend (lone c) w
      | Relocated res \<Rightarrow> add_resolution backend res w
      | Cyclic res \<Rightarrow> add_resolution backend res w
      | Excluded \<Rightarrow> Inr w)"
      using Cons.prems that by (cases l) (auto intro: add_resolution_ok simp: lone_def)
    fix v assume v: "step_ok s w v"
    then show "safe (step_ok s v) (add_loads backend loads v)"
      using Cons.prems(2) by (intro Cons.IH step_ok_walk [OF v]) (auto simp: step_ok_def grows_def intro: load_ok_mono)
  qed
  then show ?case by (cases r) (simp_all add: raise_def map_err_def)
qed simp

lemma confirm_each_ok:
  assumes "walk_ok s w" and "\<forall>e \<in> set es. cand_ok s (node_count (w_graph w)) (snd (fst (snd e)))"
  shows "safe (step_ok s w) (confirm_each s es w)"
  using assms
proof (induction es arbitrary: w)
  case (Cons e es)
  obtain key c from' where e: "e = (key, c, from')" by (cases e)
  have "safe (step_ok s w) (and_then (confirm s key c from' w) (confirm_each s es))"
  proof (rule safe_step_seq [OF confirm_ok])
    fix v assume v: "step_ok s w v"
    then show "safe (step_ok s v) (confirm_each s es v)"
      using Cons.prems(2) by (intro Cons.IH step_ok_walk [OF v]) (auto simp: step_ok_def grows_def intro: cand_ok_mono)
  qed (use Cons.prems e in auto)
  with e show ?case by simp
qed simp

lemma work_field_ok:
  assumes "walk_ok s w"
  shows "set loads \<subseteq> set (w_walk_loads w) \<Longrightarrow> walk_ok s (w\<lparr>w_walk_loads := loads\<rparr>)"
    and "set es \<subseteq> set (w_confirm w) \<Longrightarrow> walk_ok s (w\<lparr>w_confirm := es\<rparr>)"
    and "set us \<subseteq> set (w_unscanned w) \<Longrightarrow> walk_ok s (w\<lparr>w_unscanned := us\<rparr>)"
  using assms by (auto simp: walk_parts work_ok_def)

lemma settle_work_ok:
  assumes "walk_ok s w" and "settle_work s w = Some r"
  shows "safe (step_ok s w) r"
proof -
  let ?n = "node_count (w_graph w)"
  have work: "work_ok s ?n (w_walk_loads w) (w_confirm w) (w_unscanned w)" using assms(1) by (simp add: walk_ok_def)
  consider (unscanned) key c rest where "w_unscanned w = (key, c) # rest"
    | (loads) "w_unscanned w = []" "w_walk_loads w \<noteq> []"
    | (confirm) "w_unscanned w = []" "w_walk_loads w = []" "w_confirm w \<noteq> []"
    using assms(2) by (cases "w_unscanned w") (auto simp: settle_work_def split: if_splits)
  then show ?thesis
  proof cases
    case unscanned
    let ?w = "w\<lparr>w_unscanned := rest\<rparr>"
    have ok: "walk_ok s ?w" using unscanned by (intro work_field_ok [OF assms(1)]) auto
    have "safe (step_ok s ?w) (load s (group_of ?w key) c ?w)" if "holds ?w (group_of ?w key) c"
      using work unscanned holds_selection [OF that] by (intro load_ok_walk [OF ok]) (auto simp: work_ok_def)
    then have "safe (step_ok s ?w) r" using assms(2) unscanned ok by (auto simp: settle_work_def Let_def)
    then show ?thesis by (rule safe_step_count) (simp add: grows_def)
  next
    case loads
    let ?last = "last (w_walk_loads w)"
    obtain ls cache where l: "load_in_order s ?last (w_relocations w) = (ls, cache)" by fastforce
    let ?w = "w\<lparr>w_walk_loads := butlast (w_walk_loads w), w_relocations := cache\<rparr>"
    have ok: "walk_ok s ?w" using work_field_ok(1) [OF assms(1)] by (auto dest: in_set_butlastD)
    have "\<forall>p \<in> set ?last. cand_ok s ?n (snd p)" using work loads by (auto simp: work_ok_def arcs_ok_def)
    then have "\<forall>r \<in> set ls. \<forall>x. r = Inr x \<longrightarrow> load_ok s ?n x"
      using load_in_order_ok [of ?last s ?n "w_relocations w"] l by simp
    then have "safe (step_ok s ?w) (add_loads (s_backend s) ls ?w)" by (intro add_loads_ok ok) simp
    then have "safe (step_ok s ?w) r" using assms(2) loads l by (auto simp: settle_work_def)
    then show ?thesis by (rule safe_step_count) (simp add: grows_def)
  next
    case confirm
    let ?w = "w\<lparr>w_confirm := []\<rparr>"
    have "safe (step_ok s ?w) (confirm_each s (w_confirm w) ?w)"
      using work work_field_ok(2) [OF assms(1), of "[]"] by (intro confirm_each_ok) (auto simp: work_ok_def)
    then have "safe (step_ok s ?w) r" using assms(2) confirm by (auto simp: settle_work_def)
    then show ?thesis by (rule safe_step_count) (simp add: grows_def)
  qed
qed

lemma mediate_loop_ok:
  assumes "mediate_loop s w = Some r" and "walk_ok s w"
  shows "safe (step_ok s w) r"
proof -
  have "walk_ok s w \<longrightarrow> safe (step_ok s w) r"
  proof (rule mediate_loop.raw_induct [where P = "\<lambda>s w r. walk_ok s w \<longrightarrow> safe (step_ok s w) r", OF _ assms(1)],
      rule impI)
    fix loop s w r
    assume 1: "\<And>s w r. loop s w = Some r \<Longrightarrow> walk_ok s w \<longrightarrow> safe (step_ok s w) r"
      "(case settle_work s w of
          Some r \<Rightarrow> (case r of Inl e \<Rightarrow> Some (Inl e) | Inr w \<Rightarrow> loop s w)
        | None \<Rightarrow>
            (case take_dirty w of
               None \<Rightarrow> Some (Inr w)
             | Some p \<Rightarrow> Option.bind (reconsider s (fst p) (snd p)) (\<lambda>r.
                 case r of Inl e \<Rightarrow> Some (Inl e) | Inr w \<Rightarrow> loop s w))) = Some r" "walk_ok s w"
    have go_on: "safe (step_ok s w) r" if "safe (step_ok s w) x" and
      "(case x of Inl e \<Rightarrow> Some (Inl e) | Inr w \<Rightarrow> loop s w) = Some r" for x
    proof (cases x)
      case (Inr v)
      with that have v: "step_ok s w v" and "loop s v = Some r" by simp_all
      then have "safe (step_ok s v) r" using 1(1) step_ok_walk by blast
      then show ?thesis by (rule safe_step_after [OF v])
    next
      case (Inl e)
      with that show ?thesis by (cases e) auto
    qed
    show "safe (step_ok s w) r"
    proof (cases "settle_work s w")
      case (Some x)
      with go_on [OF settle_work_ok [OF 1(3) Some]] 1(2) show ?thesis by simp
    next
      case work: None
      show ?thesis
      proof (cases "take_dirty w")
        case None
        with work 1(2,3) show ?thesis by auto
      next
        case (Some p)
        obtain key v where p: "p = (key, v)" by fastforce
        have v: "keep_ok s w v" using take_dirty_ok [OF Some [unfolded p] 1(3)] .
        obtain x where x: "reconsider s key v = Some x"
          "(case x of Inl e \<Rightarrow> Some (Inl e) | Inr w \<Rightarrow> loop s w) = Some r"
          using 1(2) work Some p by (auto simp: bind_eq_Some_conv)
        have "safe (step_ok s w) x"
          by (rule safe_step_after [OF keep_ok_step [OF v] reconsider_ok [OF x(1) keep_ok_walk [OF v]]])
        with go_on x(2) show ?thesis by blast
      qed
    qed
  qed
  with assms(2) show ?thesis by blast
qed

end
