(* ===== verification/Solver_Safety.thy ===== *)
theory Solver_Safety
  imports Load_Safety
begin

text \<open>
  The loop of \<^verbatim>\<open>solve\<close>, \<^verbatim>\<open>rv-resolver/src/solver/mod.rs\<close>, one turn at a time: every turn keeps the invariant of the
  walk and uses up an item or a declaration. The properties at the end are about whole resolutions: they never
  panic, reach only well-formed walks, end, and take their items breadth first.
\<close>

section \<open>The drained queue\<close>

text \<open>What a walk below excluded dependencies answers: that it queued something only if the queue has an item.\<close>

definition queued_ok :: "Solver \<Rightarrow> Walk \<Rightarrow> bool \<times> Walk \<Rightarrow> bool" where
  "queued_ok s w p \<longleftrightarrow> keep_ok s w (snd p) \<and> (fst p \<longrightarrow> w_queue (snd p) \<noteq> [])"

lemma push_declared_queue: "push_declared item w = Inr w' \<Longrightarrow> w_queue w' \<noteq> []"
  by (auto simp: push_declared_def declare_next_def raise_def map_err_def push_queue_def split: sum.splits option.splits)

lemma queue_shadows_queue:
  assumes "queue_shadows backend key loser project takes index deps queued w = Inr (queued', w')"
    and "queued \<longrightarrow> w_queue w \<noteq> []" and "candidate_follows loser"
  shows "queued' \<longrightarrow> w_queue w' \<noteq> []"
  using assms
proof (induction deps arbitrary: index queued w)
  case (Cons d deps)
  show ?case
  proof (cases "takes w d")
    case True
    then obtain v where v: "queue_shadow backend loser project index (origin_of key loser) w = Inr v"
      "queue_shadows backend key loser project takes (Suc index) deps True v = Inr (queued', w')"
      using Cons.prems(1) by (auto elim: and_then.elims)
    have "w_queue v \<noteq> []"
      using v(1) Cons.prems(3) by (auto simp: queue_shadow_def index_at_def dest: push_declared_queue split: if_splits elim!: and_then.elims)
    then show ?thesis using Cons.IH [OF v(2)] Cons.prems(3) by simp
  qed (use Cons in simp)
qed simp

lemma queued_shadows_ok:
  assumes "walk_ok s w" and "order_ok (q_order (c_item loser))" and "queued \<longrightarrow> w_queue w \<noteq> []"
    and "candidate_follows loser"
  shows "safe (queued_ok s w) (queue_shadows backend key loser project takes 0 (pr_dependencies project) queued w)"
    (is "safe _ ?r")
proof -
  have "safe (\<lambda>(queued, w'). keep_ok s w w') ?r" using assms(1,2) by (intro queue_shadows_ok) simp_all
  then show ?thesis
    using queue_shadows_queue [of backend key loser project takes 0 "pr_dependencies project" queued w] assms(3,4)
    by (cases ?r) (auto simp: safe_def queued_ok_def split: failure.splits)
qed

lemma queued_ok_seq:
  assumes "safe (queued_ok s w) r"
    and "\<And>queued v. walk_ok s v \<Longrightarrow> node_count (w_graph v) = node_count (w_graph w) \<Longrightarrow> (queued \<longrightarrow> w_queue v \<noteq> []) \<Longrightarrow>
      safe (queued_ok s v) (f queued v)"
  shows "safe (queued_ok s w) (and_then r (\<lambda>(queued, v). f queued v))"
proof (rule safe_and_then [OF assms(1)])
  fix p assume p: "queued_ok s w p"
  have "safe (queued_ok s (snd p)) (f (fst p) (snd p))"
    using p by (intro assms(2)) (auto simp: queued_ok_def keep_ok_def keep_def)
  then have "safe (queued_ok s w) (f (fst p) (snd p))"
    by (rule safe_mono) (use p in \<open>auto simp: queued_ok_def intro: keep_ok_trans\<close>)
  then show "safe (queued_ok s w) (case p of (queued, v) \<Rightarrow> f queued v)" by (simp add: case_prod_beta)
qed

lemma walk_each_ok:
  assumes "walk_ok s w" and "arcs_ok s (node_count (w_graph w)) losers" and "queued \<longrightarrow> w_queue w \<noteq> []"
    and "\<forall>c \<in> set losers. candidate_follows (snd c)"
  shows "safe (queued_ok s w) (walk_each backend key excluded project losers queued w)"
  using assms
proof (induction losers arbitrary: queued w)
  case (Cons loser losers)
  have "order_ok (q_order (c_item (snd loser)))" using Cons.prems(2) by (auto simp: arcs_ok_def intro: cand_order)
  note shadows = queued_shadows_ok [OF Cons.prems(1) this Cons.prems(3)]
  have follows: "candidate_follows (snd loser)" using Cons.prems(4) by simp
  show ?case
    unfolding walk_each.simps
    by (rule queued_ok_seq [OF shadows [OF follows]]) (use Cons in \<open>simp add: arcs_ok_def\<close>)
qed (simp add: queued_ok_def)

lemma walk_group_ok:
  assumes "walk_ok s w" and "queued \<longrightarrow> w_queue w \<noteq> []"
  shows "safe (queued_ok s w) (walk_group backend key queued w)"
proof -
  have same: "queued_ok s w (queued, w)" using assms by (simp add: queued_ok_def)
  have "safe (queued_ok s w) (walk_each backend key excluded project losers queued
      (put_selection key (sel\<lparr>sel_walked := walked\<rparr>) w))"
    if sel: "selection w key = Some sel" and seen: "first_seen (sel_walked sel) (filter P (sel_candidates sel)) = (losers, walked)"
      and follows: "\<And>c. P c \<Longrightarrow> candidate_follows (snd c)"
    for sel P losers walked excluded project
  proof -
    let ?w = "put_selection key (sel\<lparr>sel_walked := walked\<rparr>) w"
    note ok = selection_ok [OF assms(1) sel]
    have put: "keep_ok s w ?w" using ok by (intro put_same_ok [OF assms(1) sel]) simp_all
    have losers: "set losers \<subseteq> set (filter P (sel_candidates sel))"
      using first_seen_subset [of "sel_walked sel" "filter P (sel_candidates sel)"] seen by simp
    then have "arcs_ok s (node_count (w_graph ?w)) losers" using ok(3) by (auto simp: arcs_ok_def)
    then have "safe (queued_ok s ?w) (walk_each backend key excluded project losers queued ?w)"
      using assms(2) losers follows by (intro walk_each_ok keep_ok_walk [OF put]) auto
    then show ?thesis by (rule safe_mono) (auto simp: queued_ok_def intro: keep_ok_trans [OF put])
  qed
  with same show ?thesis
    unfolding walk_group_def Let_def by (auto split: option.splits prod.splits)
qed

lemma walk_excluded_ok:
  assumes "walk_ok s w"
  shows "safe (queued_ok s w) (walk_excluded_dependencies backend w)"
proof -
  have "safe (queued_ok s w) (walk_groups backend keys queued w)"
    if "walk_ok s w" "queued \<longrightarrow> w_queue w \<noteq> []" for keys queued w
    using that
  proof (induction keys arbitrary: queued w)
    case (Cons key keys)
    show ?case
      unfolding walk_groups.simps
      by (rule queued_ok_seq [OF walk_group_ok [OF Cons.prems]]) (use Cons.IH in simp)
  qed (simp add: queued_ok_def)
  then show ?thesis using assms by (simp add: walk_excluded_dependencies_def)
qed

section \<open>One item\<close>

lemma pop_ok:
  assumes "walk_ok s w" and "heap_pop (w_queue w) = Some (item, rest)"
  shows "walk_ok s (w\<lparr>w_queue := rest\<rparr>)" "placed (node_count (w_graph w)) item"
    "length (w_queue w) = Suc (length rest)"
proof -
  have m: "mset (w_queue w) = mset (item # rest)" using heap_pop_mset [OF assms(2)] by simp
  have q: "queue_ok (node_count (w_graph w)) (w_next_declared_at w) (w_queue w)" using assms(1) by (simp add: walk_ok_def)
  have "distinct (map q_declared_at (item # rest))"
    using q m by (metis mset_eq_imp_distinct_iff mset_map queue_ok_def)
  moreover have "set (w_queue w) = insert item (set rest)" using heap_pop_set [OF assms(2)] .
  moreover show "length (w_queue w) = Suc (length rest)" using m by (metis length_Cons size_mset)
  ultimately have "queue_ok (node_count (w_graph w)) (w_next_declared_at w) rest" and
    placed: "placed (node_count (w_graph w)) item"
    using q by (auto simp: queue_ok_def)
  then show "walk_ok s (w\<lparr>w_queue := rest\<rparr>)" using assms(1) by (simp add: walk_parts)
  show "placed (node_count (w_graph w)) item" using placed .
qed

lemma read_item_ok:
  assumes "read_item s item w = (outcome, w')" and "placed n item"
  shows "safe (read_ok s n) outcome \<and> (\<exists>cache. w' = w\<lparr>w_relocations := cache\<rparr>)"
  using resolve_item_ok [OF assms(2), of s] assms(1)
  by (auto simp: read_item_def answers_def map_err_def split: prod.splits sum.splits intro!: safe_raise)

lemma mediate_ok:
  assumes "mediate s item outcome w = Some r" and "walk_ok s w" and "placed (node_count (w_graph w)) item"
    and "safe (read_ok s (node_count (w_graph w))) outcome"
  shows "safe (step_ok s w) r"
proof -
  have live: "safe (\<lambda>_. True) (is_live w item)"
    using assms(2,3) by (auto simp: is_live_def walk_ok_def placed_def index_at_def split: option.splits)
  let ?add = "and_then outcome (\<lambda>res. (case res of None \<Rightarrow> Inr w | Some res \<Rightarrow> add_resolution (s_backend s) res w))"
  have add: "safe (step_ok s w) ?add"
    using assms(2) by (intro safe_and_then [OF assms(4)]) (auto simp: read_ok_def add_resolution_ok split: option.splits)
  show ?thesis
  proof (cases "is_live w item")
    case (Inl e)
    with assms(1) live show ?thesis by (cases e) (auto simp: mediate_def)
  next
    case live: (Inr alive)
    show ?thesis
    proof (cases alive)
      case True
      show ?thesis
      proof (cases ?add)
        case (Inl e)
        with assms(1) add live True show ?thesis by (cases e) (auto simp: mediate_def)
      next
        case (Inr v)
        with add have v: "step_ok s w v" by simp
        have "mediate_loop s v = Some r" using assms(1) live True Inr by (simp add: mediate_def)
        with safe_step_after [OF v mediate_loop_ok [OF _ step_ok_walk [OF v]]] show ?thesis .
      qed
    qed (use assms live in \<open>auto simp: mediate_def\<close>)
  qed
qed

section \<open>The end of a walk\<close>

lemma graph_ok_unscoped:
  assumes "graph_ok g" and "unscoped g' = unscoped g" and "g_edges g' = g_edges g" and "g_root g' = g_root g"
  shows "graph_ok g'"
  using assms(1,3,4) unscoped_count [OF assms(2)] by (simp add: graph_ok_def)

lemma finish_Inr:
  assumes "finish visit backend w = Inr g"
  shows "unscoped g = unscoped (w_graph w) \<and> g_edges g = g_edges (w_graph w) \<and> g_root g = g_root (w_graph w) \<and>
    first_conflict w = None"
proof -
  have "select_scopes visit (w_graph w) = Inr g \<and> first_conflict w = None"
    using assms by (auto simp: finish_def raise_def map_err_def and_then_Inr split: sum.splits option.splits)
  then show ?thesis using select_scopes_shape by blast
qed

text \<open>What one turn of the outer loop leaves: the walk to go on with, or the graph.\<close>

definition round_ok :: "Solver \<Rightarrow> Walk \<Rightarrow> Walk + Graph \<Rightarrow> bool" where
  "round_ok s w r =
     (case r of
        Inl w' \<Rightarrow> walk_ok s w' \<and> w_next_declared_at w \<le> w_next_declared_at w' \<and>
          (if w_queue w = []
           then w_queue w' \<noteq> [] \<and> w_next_declared_at w + length (w_queue w') \<le> w_next_declared_at w'
           else w_next_declared_at w + length (w_queue w') < w_next_declared_at w' + length (w_queue w))
      | Inr g \<Rightarrow> graph_ok g)"

lemma drained_ok:
  assumes "walk_ok s w" and "w_queue w = []"
  shows "safe (round_ok s w) (drained visit s w)"
  unfolding drained_def
proof (rule safe_and_then [OF walk_excluded_ok [OF assms(1)]])
  fix p assume "queued_ok s w p"
  then have p: "keep_ok s w (snd p)" "fst p \<Longrightarrow> w_queue (snd p) \<noteq> []" by (simp_all add: queued_ok_def)
  have go_on: "round_ok s w (Inl (snd p))" if "fst p"
    using p that assms(2) by (simp add: round_ok_def keep_ok_def keep_def grows_def)
  have "graph_ok (w_graph (snd p))" using keep_ok_walk [OF p(1)] by (simp add: walk_ok_def)
  then have stop: "round_ok s w (Inr g)" if "finish visit (s_backend s) (snd p) = Inr g" for g
    using finish_Inr [OF that] graph_ok_unscoped by (simp add: round_ok_def)
  have "safe (round_ok s w) (and_then (finish visit (s_backend s) (snd p)) (\<lambda>g. Inr (Inr g)))"
  proof (rule safe_and_then)
    show "safe (\<lambda>g. round_ok s w (Inr g)) (finish visit (s_backend s) (snd p))"
      using stop by (cases "finish visit (s_backend s) (snd p)") (auto simp: finish_def raise_def map_err_def split: sum.splits)
  qed simp
  then have "safe (round_ok s w) (and_then (raise (refuse_unresolved_winners s (snd p))) (\<lambda>_.
      and_then (finish visit (s_backend s) (snd p)) (\<lambda>g. Inr (Inr g))))"
    by (intro safe_and_then [OF safe_raise [where P = "\<lambda>_. True"]]) simp_all
  with go_on show "safe (round_ok s w) (case p of (queued, w) \<Rightarrow>
       if queued then Inr (Inl w)
       else and_then (raise (refuse_unresolved_winners s w)) (\<lambda>_.
            and_then (finish visit (s_backend s) w) (\<lambda>g. Inr (Inr g))))"
    by (simp add: case_prod_beta)
qed

section \<open>Rounds\<close>

text \<open>One turn of the loop in \<open>solve\<close>, and the walks that a number of turns reach.\<close>

definition solve_round :: "visit_order \<Rightarrow> Solver \<Rightarrow> Walk \<Rightarrow> (Walk + Graph) result option" where
  "solve_round visit s w =
     (let w = snd (hint_queued s w) in
      case heap_pop (w_queue w) of
        None \<Rightarrow> Some (drained visit s w)
      | Some (item, rest) \<Rightarrow>
          (case read_item s item (w\<lparr>w_queue := rest\<rparr>) of (outcome, w) \<Rightarrow>
             map_option (\<lambda>r. and_then r (\<lambda>w. Inr (Inl w))) (mediate s item outcome w)))"

lemma solve_body:
  "(case heap_pop (w_queue (snd (hint_queued s w))) of
      None \<Rightarrow>
        (case drained visit s (snd (hint_queued s w)) of
           Inl e \<Rightarrow> Some (Inl e)
         | Inr r \<Rightarrow> (case r of Inl w \<Rightarrow> loop visit s w | Inr g \<Rightarrow> Some (Inr g)))
    | Some p \<Rightarrow>
        (let q = read_item s (fst p) ((snd (hint_queued s w))\<lparr>w_queue := snd p\<rparr>) in
         Option.bind (mediate s (fst p) (fst q) (snd q)) (\<lambda>r.
           case r of Inl e \<Rightarrow> Some (Inl e) | Inr w \<Rightarrow> loop visit s w))) =
   Option.bind (solve_round visit s w) (\<lambda>r.
     case r of Inl e \<Rightarrow> Some (Inl e) | Inr (Inl w) \<Rightarrow> loop visit s w | Inr (Inr g) \<Rightarrow> Some (Inr g))"
proof -
  let ?w = "snd (hint_queued s w)"
  show ?thesis
  proof (cases "heap_pop (w_queue ?w)")
    case None
    then show ?thesis unfolding solve_round_def Let_def by (auto split: sum.splits)
  next
    case (Some p)
    obtain item rest where p: "p = (item, rest)" by fastforce
    obtain outcome v where read: "read_item s item (?w\<lparr>w_queue := rest\<rparr>) = (outcome, v)" by fastforce
    show ?thesis
    proof (cases "mediate s item outcome v")
      case (Some r)
      then show ?thesis
        using \<open>heap_pop (w_queue ?w) = Some p\<close> p read unfolding solve_round_def Let_def by (cases r) simp_all
    qed (use Some p read in \<open>simp add: solve_round_def Let_def\<close>)
  qed
qed

lemmas solve_loop_round = solve_loop.simps [unfolded solve_body]

lemma hint_queued_fields [simp]:
  "walk_ok s (snd (hint_queued s w)) \<longleftrightarrow> walk_ok s w" "w_queue (snd (hint_queued s w)) = w_queue w"
  "w_next_declared_at (snd (hint_queued s w)) = w_next_declared_at w"
  by (auto simp: hint_queued_def)

lemma solve_round_ok:
  assumes "solve_round visit s w = Some r" and "walk_ok s w"
  shows "safe (round_ok s w) r"
proof -
  let ?w = "snd (hint_queued s w)"
  have ok: "walk_ok s ?w" using assms(2) by simp
  have eq: "round_ok s ?w = round_ok s w" by (auto simp: round_ok_def fun_eq_iff split: sum.splits)
  show ?thesis
  proof (cases "heap_pop (w_queue ?w)")
    case None
    then have "r = drained visit s ?w" "w_queue ?w = []"
      using assms(1) by (auto simp: solve_round_def Let_def)
    then show ?thesis using drained_ok [OF ok, of visit] by (simp only: eq)
  next
    case (Some p)
    obtain item rest where p: "p = (item, rest)" by fastforce
    note pop = pop_ok [OF ok Some [unfolded p]]
    let ?v = "?w\<lparr>w_queue := rest\<rparr>"
    obtain outcome v where read: "read_item s item ?v = (outcome, v)" by fastforce
    then obtain m where m: "mediate s item outcome v = Some m" "r = and_then m (\<lambda>w. Inr (Inl w))"
      using assms(1) Some p by (auto simp: solve_round_def Let_def)
    have item: "placed (node_count (w_graph ?w)) item" using pop(2) .
    obtain cache where v: "v = ?v\<lparr>w_relocations := cache\<rparr>" "safe (read_ok s (node_count (w_graph ?w))) outcome"
      using read_item_ok [OF read item] by blast
    have "safe (step_ok s v) m" using m(1) v pop by (intro mediate_ok) simp_all
    then show ?thesis
      unfolding m(2) by (rule safe_and_then) (use v(1) pop(3) in \<open>auto simp: round_ok_def step_ok_def grows_def\<close>)
  qed
qed

lemma start_each_ok:
  assumes "walk_ok s w" and "length (w_queue w) = w_next_declared_at w"
  shows "safe (\<lambda>w'. walk_ok s w' \<and> length (w_queue w') = w_next_declared_at w') (start_each s path index deps w)"
  using assms
proof (induction deps arbitrary: index w)
  case (Cons dep deps)
  let ?w = "w\<lparr>w_next_declared_at := w_next_declared_at w + 1\<rparr>"
  let ?item = "root_item ?w path index dep (w_next_declared_at w)"
  have "walk_ok s (?w\<lparr>w_queue := queue\<rparr>) \<and> length queue = w_next_declared_at w + 1"
    if "push_queue (w_queue w) ?item = Inr queue" for queue
  proof -
    have q: "queue = ?item # w_queue w" "length (w_queue w) < MAX_QUEUE_SIZE"
      "q_depth ?item \<le> MAX_DEPTH" "w_next_declared_at w < MAX_DECLARATIONS"
      using that by (auto simp: push_queue_def queue_limit_def root_item_def split: if_splits)
    have "placed (node_count (w_graph w)) ?item"
      using root_in_graph [OF Cons.prems(1)] by (simp add: placed_def root_item_def)
    moreover have "queue_ok (node_count (w_graph w)) (w_next_declared_at w) (w_queue w)"
      using Cons.prems(1) by (simp add: walk_ok_def)
    moreover have "q_declared_at ?item = w_next_declared_at w" by (simp add: root_item_def)
    ultimately have "queue_ok (node_count (w_graph w)) (w_next_declared_at w + 1) queue"
      using q by (fastforce simp: queue_ok_def)
    with Cons.prems q(1) show ?thesis by (simp add: walk_parts)
  qed
  then have push: "safe (\<lambda>queue. walk_ok s (?w\<lparr>w_queue := queue\<rparr>) \<and> length queue = w_next_declared_at w + 1)
      (raise (push_queue (w_queue w) ?item))"
    by (intro safe_raise) simp
  have "safe (\<lambda>w'. walk_ok s w' \<and> length (w_queue w') = w_next_declared_at w')
    (and_then (raise (check_declared s ?item)) (\<lambda>_.
      and_then (raise (push_queue (w_queue w) ?item)) (\<lambda>queue.
        start_each s path (Suc index) deps (?w\<lparr>w_queue := queue\<rparr>))))"
    by (rule safe_and_then [OF safe_raise [where P = "\<lambda>_. True"]], simp, rule safe_and_then [OF push])
      (rule Cons.IH, simp_all)
  then show ?case by (simp add: declare_next_def Let_def)
qed simp

lemma start_ok: "safe (\<lambda>w. walk_ok s w \<and> length (w_queue w) = w_next_declared_at w) (start s root)"
  unfolding start_def
  by (rule start_each_ok)
    (simp_all add: walk_ok_def Walk_new_def Graph_new_def graph_ok_def node_count_def groups_ok_def selected_ok_def
      selection_def queue_ok_def work_ok_def)

inductive reached :: "visit_order \<Rightarrow> Solver \<Rightarrow> SolverRoot \<Rightarrow> nat \<Rightarrow> Walk \<Rightarrow> bool"
  for visit :: visit_order and s :: Solver and root :: SolverRoot where
  started: "start s root = Inr w \<Longrightarrow> reached visit s root 0 w"
| turned: "reached visit s root n w \<Longrightarrow> solve_round visit s w = Some (Inr (Inl w')) \<Longrightarrow>
    reached visit s root (Suc n) w'"

text \<open>
  The turns that are left: every declaration that may still be made and every item queued is one turn with an
  item, and between two of these the queue may drain once.
\<close>

definition turns_left :: "Walk \<Rightarrow> nat" where
  "turns_left w =
     2 * (MAX_DECLARATIONS - w_next_declared_at w + length (w_queue w)) + (if w_queue w = [] then 1 else 0)"

lemma walk_ok_declared: "walk_ok s w \<Longrightarrow> w_next_declared_at w \<le> MAX_DECLARATIONS"
  by (simp add: walk_ok_def queue_ok_def)

lemma round_turns_left:
  assumes "round_ok s w (Inl w')"
  shows "turns_left w' < turns_left w"
proof -
  have "w_next_declared_at w' \<le> MAX_DECLARATIONS" using assms by (auto simp: round_ok_def intro: walk_ok_declared)
  with assms show ?thesis by (auto simp: round_ok_def turns_left_def split: if_splits)
qed

lemma round_walk: "solve_round visit s w = Some (Inr (Inl w')) \<Longrightarrow> walk_ok s w \<Longrightarrow> round_ok s w (Inl w')"
  using solve_round_ok by fastforce

lemma start_walk:
  assumes "start s root = Inr w"
  shows "walk_ok s w" "turns_left w \<le> 2 * MAX_DECLARATIONS + 1"
proof -
  have w: "walk_ok s w" "length (w_queue w) = w_next_declared_at w" using start_ok [of s root] assms by simp_all
  then show "walk_ok s w" "turns_left w \<le> 2 * MAX_DECLARATIONS + 1"
    using walk_ok_declared [OF w(1)] by (simp_all add: turns_left_def)
qed

text \<open>The turns keep the contract of steps that make progress.\<close>

interpretation turns: descent "\<lambda>w w'. solve_round visit s w = Some (Inr (Inl w'))" "walk_ok s" turns_left for visit s
proof
  fix w w'
  assume w: "walk_ok s w" "solve_round visit s w = Some (Inr (Inl w'))"
  then have "round_ok s w (Inl w')" using round_walk by blast
  then show "walk_ok s w'" "turns_left w' < turns_left w" using round_turns_left by (simp_all add: round_ok_def)
qed

lemma reached_turns:
  "reached visit s root n w \<Longrightarrow>
     \<exists>w0. start s root = Inr w0 \<and> ((\<lambda>w w'. solve_round visit s w = Some (Inr (Inl w'))) ^^ n) w0 w"
  by (induction rule: reached.induct) auto

lemma reached_walk_ok:
  assumes "reached visit s root n w"
  shows "walk_ok s w \<and> n + turns_left w \<le> 2 * MAX_DECLARATIONS + 1"
proof -
  obtain w0 where w0: "start s root = Inr w0" "((\<lambda>w w'. solve_round visit s w = Some (Inr (Inl w'))) ^^ n) w0 w"
    using reached_turns [OF assms] by blast
  from turns.steps_bounded [OF w0(2)] start_walk [OF w0(1)] show ?thesis by simp
qed

lemma solve_loop_ok:
  assumes "solve_loop visit s w = Some r" and "walk_ok s w"
  shows "safe graph_ok r"
proof -
  have "walk_ok s w \<longrightarrow> safe graph_ok r"
  proof (rule solve_loop.raw_induct [where P = "\<lambda>visit s w r. walk_ok s w \<longrightarrow> safe graph_ok r", OF _ assms(1)], rule impI)
    fix loop visit s w r
    assume 1: "\<And>visit s w r. loop visit s w = Some r \<Longrightarrow> walk_ok s w \<longrightarrow> safe graph_ok r" and
      2: "(case heap_pop (w_queue (snd (hint_queued s w))) of
        None \<Rightarrow>
          (case drained visit s (snd (hint_queued s w)) of
             Inl e \<Rightarrow> Some (Inl e)
           | Inr r \<Rightarrow> (case r of Inl w \<Rightarrow> loop visit s w | Inr g \<Rightarrow> Some (Inr g)))
      | Some p \<Rightarrow>
          (let q = read_item s (fst p) ((snd (hint_queued s w))\<lparr>w_queue := snd p\<rparr>) in
           Option.bind (mediate s (fst p) (fst q) (snd q)) (\<lambda>r.
             case r of Inl e \<Rightarrow> Some (Inl e) | Inr w \<Rightarrow> loop visit s w))) = Some r" and ok: "walk_ok s w"
    then obtain x where x: "solve_round visit s w = Some x"
      "(case x of Inl e \<Rightarrow> Some (Inl e) | Inr (Inl w) \<Rightarrow> loop visit s w | Inr (Inr g) \<Rightarrow> Some (Inr g)) = Some r"
      unfolding solve_body by (auto simp: bind_eq_Some_conv)
    have safe: "safe (round_ok s w) x" using solve_round_ok [OF x(1) ok] .
    show "safe graph_ok r"
    proof (cases x)
      case (Inl e)
      with safe x(2) show ?thesis by (cases e) auto
    next
      case (Inr y)
      then show ?thesis using safe x(2) 1 by (cases y) (auto simp: round_ok_def)
    qed
  qed
  with assms(2) show ?thesis by blast
qed

section \<open>Properties\<close>


text \<open>
  Property C7. Every walk that the loop of \<open>solve\<close> reaches satisfies the invariant: the edges join nodes of the graph and
  none enters the root, the merged groups end in keys that stand for themselves, every group has its own node,
  the list and the set of dirty groups agree, and items, candidates and loads refer to nodes that exist.
\<close>

theorem reached_walks_well_formed: "reached visit s root n w \<Longrightarrow> walk_ok s w"
  using reached_walk_ok by blast

text \<open>
  Property C4. The loop of \<open>solve\<close> ends: it turns at most twice for each declaration that the limit admits, and once more.
\<close>

theorem solve_turns_bounded: "reached visit s root n w \<Longrightarrow> n \<le> 2 * MAX_DECLARATIONS + 1"
  using reached_walk_ok by fastforce

text \<open>
  Property C8. Solving returns, with a graph or an error, if the mediation of every item that it reaches does.
\<close>

theorem solve_returns:
  assumes "\<And>n w item rest outcome w'. reached visit s root n w \<Longrightarrow>
      heap_pop (w_queue (snd (hint_queued s w))) = Some (item, rest) \<Longrightarrow>
      read_item s item ((snd (hint_queued s w))\<lparr>w_queue := rest\<rparr>) = (outcome, w') \<Longrightarrow> mediate s item outcome w' \<noteq> None"
  shows "\<exists>r. solve visit s root = Some r"
proof (cases "start s root")
  case (Inr w)
  have "reached visit s root n w \<longrightarrow> (\<exists>r. solve_loop visit s w = Some r)" for n
    using start_walk(1) [OF Inr]
  proof (induction w arbitrary: n rule: turns.step_induct [of s _ visit])
    case (step w)
    show ?case
    proof
      assume w: "reached visit s root n w"
      obtain x where x: "solve_round visit s w = Some x"
        using assms [OF w] by (fastforce simp: solve_round_def Let_def split: option.splits prod.splits)
      show "\<exists>r. solve_loop visit s w = Some r"
        using solve_loop_round [of visit s w] x step(2) reached.turned [OF w]
        by (cases x; cases "\<exists>w'. x = Inr (Inl w')") (auto split: sum.splits)
    qed
  qed
  with Inr show ?thesis by (auto simp: solve_def intro: reached.started)
qed (simp add: solve_def)

text \<open>
  Property C9. In every walk that \<open>solve\<close> reaches, the item it takes next is the first by depth, then by place in the tree of
  declarations, then by number of declaration, and it comes strictly before every item left.
\<close>

theorem solve_takes_items_breadth_first:
  assumes "reached visit s root n w" and "heap_pop (w_queue w) = Some (item, rest)"
  shows "mset (w_queue w) = add_mset item (mset rest) \<and>
    (\<forall>other \<in> set rest.
      (q_depth item, order_path (q_order item), q_declared_at item) <
      (q_depth other, order_path (q_order other), q_declared_at other))"
proof -
  have "queue_ok (node_count (w_graph w)) (w_next_declared_at w) (w_queue w)"
    using reached_walk_ok [OF assms(1)] by (simp add: walk_ok_def)
  then have "list_all item_ok (w_queue w)" "distinct (map q_declared_at (w_queue w))"
    by (auto simp: queue_ok_def list_all_iff item_ok_def placed_def)
  with heap_pop_mset [OF assms(2)] heap_pop_least [OF assms(2)] show ?thesis by blast
qed

text \<open>A root that declares a dependency which relocates twice.\<close>

definition dependency_on :: "string \<Rightarrow> Dependency" where
  "dependency_on a =
     \<lparr>d_group_id = ''g'', d_artifact_id = a, d_version = Some ''1'', d_type = None, d_classifier = None,
      d_scope = None, d_optional = None, d_exclusions = [], d_system_path = None\<rparr>"

definition root_on :: "string list \<Rightarrow> SolverRoot" where
  "root_on names =
     \<lparr>sr_coord = plain_coord ''r'' ''1'', sr_dependencies = map dependency_on names, sr_scope = Compile\<rparr>"

definition item_on :: "nat \<Rightarrow> string \<Rightarrow> QueueItem" where
  "item_on i a =
     \<lparr>q_parent = 0, q_parent_generation = ROOT_GENERATION, q_dependency = dependency_on a,
      q_managed_scope = False, q_depth = 1, q_order = OrderNode i 1 RootOrder,
      q_declared_at = i, q_exclusions = [], q_path = PathNode_root (plain_coord ''r'' ''1''), q_shadow = None\<rparr>"

definition walk_on :: "QueueItem list \<Rightarrow> Walk" where
  "walk_on queue = fresh_walk\<lparr>w_queue := queue, w_next_declared_at := length queue\<rparr>"

lemma root_item_on:
  "i < 100 \<Longrightarrow> root_item ((walk_on queue)\<lparr>w_next_declared_at := n\<rparr>) (PathNode_root (plain_coord ''r'' ''1'')) i (dependency_on a) i =
     item_on i a"
  by (simp add: root_item_def item_on_def order_child_def u32_max_def walk_on_def fresh_walk_def Walk_new_def Graph_new_def)

lemma push_item_on: "length queue < 100 \<Longrightarrow> i < 100 \<Longrightarrow> push_queue queue (item_on i a) = Inr (item_on i a # queue)"
  by (simp add: push_queue_def queue_limit_def item_on_def MAX_QUEUE_SIZE_def MAX_DEPTH_def MAX_DECLARATIONS_def)

lemma start_root_on:
  "start relocating (root_on names) =
     start_each relocating (PathNode_root (plain_coord ''r'' ''1'')) 0 (map dependency_on names) (walk_on [])"
  by (simp add: start_def root_on_def walk_on_def fresh_walk_def relocating_def example_backend_def new_node_def Walk_new_def)

lemma start_each_on:
  assumes "i = length queue" and "i < 100" and "check_declared relocating (item_on i a) = Inr ()"
  shows "start_each relocating (PathNode_root (plain_coord ''r'' ''1'')) i (dependency_on a # deps) (walk_on queue) =
    start_each relocating (PathNode_root (plain_coord ''r'' ''1'')) (Suc i) deps (walk_on (item_on i a # queue))"
proof -
  have declares: "declare_next (walk_on queue) = (i, (walk_on queue)\<lparr>w_next_declared_at := Suc i\<rparr>)"
    using assms(1) by (simp add: declare_next_def walk_on_def)
  have fields: "w_queue (walk_on queue) = queue"
    "(walk_on queue)\<lparr>w_next_declared_at := Suc i, w_queue := item_on i a # queue\<rparr> = walk_on (item_on i a # queue)"
    using assms(1) by (simp_all add: walk_on_def)
  show ?thesis
    using assms by (simp add: declares root_item_on push_item_on fields [unfolded assms(1)] raise_def map_err_def Let_def)
qed

lemma check_items_on:
  "check_declared relocating (item_on 0 ''a'') = Inr ()" "check_declared relocating (item_on 1 ''c'') = Inr ()"
  by code_simp+

lemma start_on_a: "start relocating (root_on [''a'']) = Inr (walk_on [item_on 0 ''a''])"
  by (simp add: start_root_on start_each_on check_items_on del: start_each.simps(2))

lemma start_on_two: "start relocating (root_on [''a'', ''c'']) = Inr (walk_on [item_on 1 ''c'', item_on 0 ''a''])"
  using check_items_on(2) by (simp add: start_root_on start_each_on check_items_on(1) del: start_each.simps(2))

lemma round_on_a:
  "case solve_round id relocating (walk_on [item_on 0 ''a'']) of
     Some (Inr (Inl w)) \<Rightarrow> w_queue w = [] \<and>
       (case walk_excluded_dependencies (s_backend relocating) w of Inr (queued, _) \<Rightarrow> \<not> queued | _ \<Rightarrow> False)
   | _ \<Rightarrow> False"
  by code_simp

lemma reached_on_a:
  obtains w where "reached id relocating (root_on [''a'']) 1 w" "w_queue w = []"
    "\<And>n v. reached id relocating (root_on [''a'']) n v \<Longrightarrow> v = (walk_on [item_on 0 ''a'']) \<or> v = w"
proof -
  obtain w where w: "solve_round id relocating (walk_on [item_on 0 ''a'']) = Some (Inr (Inl w))" "w_queue w = []"
    "\<exists>v. walk_excluded_dependencies (s_backend relocating) w = Inr (False, v)"
    using round_on_a by (auto split: option.splits sum.splits)
  have hint: "hint_queued relocating w = ([], w)" by (simp add: hint_queued_def relocating_def example_backend_def)
  have no_round: "solve_round id relocating w \<noteq> Some (Inr (Inl v))" for v
    using w(2,3) by (auto simp: solve_round_def hint drained_def and_then_Inr)
  have start: "reached id relocating (root_on [''a'']) 0 (walk_on [item_on 0 ''a''])"
    by (rule reached.started [OF start_on_a])
  have "v = walk_on [item_on 0 ''a''] \<or> v = w" if "reached id relocating (root_on [''a'']) n v" for n v
    using that by (induction rule: reached.induct) (use w(1) no_round start_on_a in auto)
  moreover have "reached id relocating (root_on [''a'']) 1 w" using reached.turned [OF start w(1)] by simp
  ultimately show ?thesis using w(2) that by blast
qed

theorem reached_walks_well_formed_witness: "\<exists>w. reached id relocating (root_on [''a'']) 1 w \<and> walk_ok relocating w"
proof -
  obtain w where w: "reached id relocating (root_on [''a'']) 1 w" using reached_on_a .
  with reached_walks_well_formed [OF w] show ?thesis by blast
qed

theorem solve_turns_bounded_witness: "\<exists>w. reached id relocating (root_on [''a'']) 1 w \<and> 1 \<le> 2 * MAX_DECLARATIONS + 1"
proof -
  obtain w where w: "reached id relocating (root_on [''a'']) 1 w" using reached_on_a .
  with solve_turns_bounded [OF w] show ?thesis by blast
qed

theorem solve_returns_witness: "\<exists>r. solve id relocating (root_on [''a'']) = Some r"
proof (rule solve_returns)
  fix n v item rest outcome v'
  assume v: "reached id relocating (root_on [''a'']) n v"
    and pop: "heap_pop (w_queue (snd (hint_queued relocating v))) = Some (item, rest)"
    and read: "read_item relocating item ((snd (hint_queued relocating v))\<lparr>w_queue := rest\<rparr>) = (outcome, v')"
  obtain w where w: "w_queue w = []" "v = (walk_on [item_on 0 ''a'']) \<or> v = w" using reached_on_a v by metis
  have "v \<noteq> w" using pop w(1) by auto
  with w(2) have "solve_round id relocating v \<noteq> None" using round_on_a by (auto split: option.splits)
  then show "mediate relocating item outcome v' \<noteq> None" using pop read by (auto simp: solve_round_def)
qed

theorem solve_takes_items_breadth_first_witness:
  "\<exists>w. reached id relocating (root_on [''a'', ''c'']) 0 w \<and>
     heap_pop (w_queue w) = Some (item_on 0 ''a'', [item_on 1 ''c'']) \<and>
     order_path (q_order (item_on 0 ''a'')) < order_path (q_order (item_on 1 ''c''))"
proof -
  let ?w = "walk_on [item_on 1 ''c'', item_on 0 ''a'']"
  have reach: "reached id relocating (root_on [''a'', ''c'']) 0 ?w" by (rule reached.started [OF start_on_two])
  have pop: "heap_pop (w_queue ?w) = Some (item_on 0 ''a'', [item_on 1 ''c''])" by code_simp
  from solve_takes_items_breadth_first [OF reach pop] reach pop show ?thesis by (auto simp: item_on_def)
qed

lemma map_filter_Nil: "List.map_filter f xs = [] \<longleftrightarrow> (\<forall>x \<in> set xs. f x = None)"
  by (induction xs) (auto simp: List.map_filter_simps split: option.splits)

lemma first_conflict_None: "first_conflict w = None \<longleftrightarrow> (\<forall>(key, sel) \<in> set (w_selected w). sel_conflict sel = None)"
  unfolding first_conflict_def by (auto simp: map_filter_Nil split_beta)

text \<open>
  The walk that a resolution ends with: nothing is queued, the walk below excluded dependencies queues nothing, and no
  group is left in conflict.
\<close>

definition settled_walk :: "Solver \<Rightarrow> Walk \<Rightarrow> Walk \<Rightarrow> bool" where
  "settled_walk s w w' \<longleftrightarrow> w_queue w = [] \<and>
     walk_excluded_dependencies (s_backend s) (snd (hint_queued s w)) = Inr (False, w') \<and>
     (\<forall>(key, sel) \<in> set (w_selected w'). sel_conflict sel = None)"

lemma solve_round_graph:
  assumes "solve_round visit s w = Some (Inr (Inr g))"
  shows "\<exists>w'. settled_walk s w w' \<and> unscoped g = unscoped (w_graph w') \<and> g_edges g = g_edges (w_graph w')"
proof (cases "heap_pop (w_queue w)")
  case None
  then have "drained visit s (snd (hint_queued s w)) = Inr (Inr g)" "w_queue w = []"
    using assms by (simp_all add: solve_round_def Let_def)
  then obtain w' where "walk_excluded_dependencies (s_backend s) (snd (hint_queued s w)) = Inr (False, w')"
    "finish visit (s_backend s) w' = Inr g"
    by (auto simp: drained_def and_then_Inr split: if_splits)
  with finish_Inr [of visit "s_backend s" w' g] \<open>w_queue w = []\<close> show ?thesis
    by (auto simp: settled_walk_def first_conflict_None)
next
  case (Some p)
  then show ?thesis using assms by (auto simp: solve_round_def Let_def and_then_Inr split: prod.splits)
qed

lemma solve_loop_graph:
  assumes "walk_ok s w" and "solve_loop visit s w = Some (Inr g)" and "reached visit s root n w"
  shows "\<exists>m v v'. reached visit s root m v \<and> settled_walk s v v' \<and> unscoped g = unscoped (w_graph v') \<and>
    g_edges g = g_edges (w_graph v')"
  using assms
proof (induction w arbitrary: n rule: turns.step_induct [of s _ visit])
  case (step w)
  obtain x where x: "solve_round visit s w = Some x"
    "(case x of Inl e \<Rightarrow> Some (Inl e) | Inr (Inl w) \<Rightarrow> solve_loop visit s w | Inr (Inr g) \<Rightarrow> Some (Inr g)) = Some (Inr g)"
    using step.prems(1) solve_loop_round [of visit s w] by (auto simp: bind_eq_Some_conv)
  then consider w' where "x = Inr (Inl w')" "solve_loop visit s w' = Some (Inr g)" | "x = Inr (Inr g)"
    by (auto split: sum.splits)
  then show ?case
  proof cases
    case 1
    with step.IH x(1) reached.turned [OF step.prems(2)] show ?thesis by blast
  next
    case 2
    with solve_round_graph [of visit s w g] x(1) step.prems(2) show ?thesis by blast
  qed
qed

text \<open>
  Property C2. What \<open>solve\<close> returns is a well-formed graph: its edges join nodes of it and none enters the root. It is the
  graph, up to the scopes, of a walk that the loop reached with an empty queue, with nothing left to walk below
  excluded dependencies, and with no group in conflict.
\<close>

theorem solved_graph_well_formed:
  assumes "solve visit s root = Some (Inr g)"
  shows "graph_ok g \<and> (\<exists>n w w'. reached visit s root n w \<and> settled_walk s w w' \<and>
    unscoped g = unscoped (w_graph w') \<and> g_edges g = g_edges (w_graph w'))"
proof -
  obtain w where w: "start s root = Inr w" "solve_loop visit s w = Some (Inr g)"
    using assms by (auto simp: solve_def split: sum.splits)
  have "graph_ok g" using solve_loop_ok [OF w(2) start_walk(1) [OF w(1)]] by simp
  moreover have "reached visit s root 0 w" using w(1) by (rule reached.started)
  ultimately show ?thesis using solve_loop_graph [OF start_walk(1) [OF w(1)] w(2)] by blast
qed

lemma select_scopes_pair:
  assumes "length (g_nodes g) = 2" and "g_edges g = [(0, 1, e)]" and "g_root g = 0"
  shows "\<exists>g'. select_scopes id g = Inr g'"
proof -
  obtain a b where nodes: "g_nodes g = [a, b]" using assms(1) by (auto simp: length_Suc_conv numeral_2_eq_2)
  have co: "ConflictOrder_of id g =
      \<lparr>co_order = [1], co_depth = [usize_max, 1], co_children = [[], []], co_in_degree = [0, 0]\<rparr>"
    by (simp add: ConflictOrder_of_def nodes assms(2,3) node_count_def conflict_walk.simps neighbors_def outgoing_def
        visit_child_def at_or_def usize_max_def Let_def)
  have direct: "direct_edges id g = [(1, e)]" by (simp add: direct_edges_def assms(2,3) outgoing_def)
  show ?thesis
    by (simp add: select_scopes_def co select_start_def direct Let_def nodes assms(3) node_count_def graph_node_def at_or_def)
      (simp add: nodes assms(3) node_count_def graph_node_def at_or_def select_loop.simps
        select_step_def mark_cycles_def release_children_def nearest_left_def Let_def min_by_def)
qed

lemma note_winners_relocating: "note_winners (s_backend relocating) g sels = Inr ()"
  by (induction sels) (auto simp: relocating_def example_backend_def split: option.splits)

lemma drained_on_a:
  "case solve_round id relocating (walk_on [item_on 0 ''a'']) of
     Some (Inr (Inl w)) \<Rightarrow> w_queue w = [] \<and>
       (case walk_excluded_dependencies (s_backend relocating) w of
          Inr (queued, v) \<Rightarrow> \<not> queued \<and> length (g_nodes (w_graph v)) = 2 \<and> g_root (w_graph v) = 0 \<and>
            map (\<lambda>(a, b, e). (a, b)) (g_edges (w_graph v)) = [(0, 1)] \<and>
            refuse_unresolved_winners relocating v = Inr () \<and> first_conflict v = None
        | _ \<Rightarrow> False)
   | _ \<Rightarrow> False"
  by code_simp

lemma joined_pair: "map (\<lambda>(a, b, e). (a, b)) es = [(0, 1)] \<Longrightarrow> \<exists>e. es = [(0, 1, e)]"
  by auto

lemma solved_on_a: "\<exists>g. solve id relocating (root_on [''a'']) = Some (Inr g)"
proof -
  obtain w v where w: "solve_round id relocating (walk_on [item_on 0 ''a'']) = Some (Inr (Inl w))" "w_queue w = []"
    "walk_excluded_dependencies (s_backend relocating) w = Inr (False, v)" "refuse_unresolved_winners relocating v = Inr ()"
    "first_conflict v = None" "length (g_nodes (w_graph v)) = 2" "g_root (w_graph v) = 0"
    "map (\<lambda>(a, b, e). (a, b)) (g_edges (w_graph v)) = [(0, 1)]"
    using drained_on_a by (auto split: option.splits sum.splits)
  obtain scoped where scoped: "select_scopes id (w_graph v) = Inr scoped"
    using joined_pair [OF w(8)] select_scopes_pair [OF w(6) _ w(7)] by blast
  have hint: "hint_queued relocating w = ([], w)" by (simp add: hint_queued_def relocating_def example_backend_def)
  obtain g where "finish id (s_backend relocating) v = Inr g"
    using w(5) scoped by (auto simp: finish_def note_winners_relocating raise_def map_err_def)
  then have "solve_round id relocating w = Some (Inr (Inr g))"
    using w(2-4) by (simp add: solve_round_def hint drained_def raise_def map_err_def)
  then have "solve_loop id relocating w = Some (Inr g)" by (simp add: solve_loop_round [of id relocating w])
  then have "solve_loop id relocating (walk_on [item_on 0 ''a'']) = Some (Inr g)"
    using w(1) by (simp add: solve_loop_round [of id relocating "walk_on [item_on 0 ''a'']"])
  then show ?thesis by (simp add: solve_def start_on_a)
qed

theorem solved_graph_well_formed_witness: "\<exists>g. solve id relocating (root_on [''a'']) = Some (Inr g) \<and> graph_ok g"
  using solved_on_a solved_graph_well_formed by blast

end
