(* ===== verification/Parallel_Map.thy ===== *)
theory Parallel_Map
  imports Rust_Std
begin

text \<open>
  \<^verbatim>\<open>par_map\<close> of \<^verbatim>\<open>rv-maven-types/src/par.rs\<close>: the items of a slice are mapped on up to eight threads that take the
  next index from one atomic counter. A step relation interleaves the threads: taking an index is one atomic
  step, computing its result is another. The caller is thread 0; how many workers the operating system starts
  is open. A call of \<^verbatim>\<open>f\<close> gives a result or panics with a payload.
\<close>

section \<open>Definitions\<close>

definition MAX_PAR_MAP_THREADS :: nat where
  "MAX_PAR_MAP_THREADS = 8"

definition usize_count :: nat where
  "usize_count = 2 ^ 64"

text \<open>
  What a thread of \<^verbatim>\<open>work\<close> is about to do: take an index, call \<^verbatim>\<open>f\<close> on the item at one, or nothing more,
  because it returned what it did or panicked.
\<close>

datatype ('p, 'r) Thread =
  Taking "(nat \<times> 'r) list"
| Calling nat "(nat \<times> 'r) list"
| Returned "(nat \<times> 'r) list"
| Panicked 'p

record ('p, 'r) ParMap =
  pm_next :: nat
  pm_threads :: "('p, 'r) Thread list"

text \<open>\<^verbatim>\<open>fetch_add\<close> on the counter, which wraps, and \<^verbatim>\<open>items.get(index)\<close>.\<close>

definition take_index :: "'t list \<Rightarrow> nat \<Rightarrow> (nat \<times> 'r) list \<Rightarrow> ('p, 'r) ParMap \<Rightarrow> ('p, 'r) ParMap" where
  "take_index items i done' s =
     s\<lparr>pm_next := (pm_next s + 1) mod usize_count,
       pm_threads := (pm_threads s)[i :=
         if pm_next s < length items then Calling (pm_next s) done' else Returned done']\<rparr>"

definition call_item ::
  "('t \<Rightarrow> 'p + 'r) \<Rightarrow> 't list \<Rightarrow> nat \<Rightarrow> nat \<Rightarrow> (nat \<times> 'r) list \<Rightarrow> ('p, 'r) ParMap \<Rightarrow> ('p, 'r) ParMap" where
  "call_item f items i index done' s =
     s\<lparr>pm_threads := (pm_threads s)[i :=
       case f (items ! index) of Inr r \<Rightarrow> Taking (done' @ [(index, r)]) | Inl p \<Rightarrow> Panicked p]\<rparr>"

inductive par_step :: "('t \<Rightarrow> 'p + 'r) \<Rightarrow> 't list \<Rightarrow> ('p, 'r) ParMap \<Rightarrow> ('p, 'r) ParMap \<Rightarrow> bool"
  for f :: "'t \<Rightarrow> 'p + 'r" and items :: "'t list" where
  take: "i < length (pm_threads s) \<Longrightarrow> pm_threads s ! i = Taking done' \<Longrightarrow>
    par_step f items s (take_index items i done' s)"
| call: "i < length (pm_threads s) \<Longrightarrow> pm_threads s ! i = Calling index done' \<Longrightarrow>
    par_step f items s (call_item f items i index done' s)"

inductive_cases par_stepE: "par_step f items s s'"

definition par_start :: "nat \<Rightarrow> ('p, 'r) ParMap" where
  "par_start started = \<lparr>pm_next = 0, pm_threads = replicate (Suc started) (Taking [])\<rparr>"

fun stopped :: "('p, 'r) Thread \<Rightarrow> bool" where
  "stopped (Returned _) = True"
| "stopped (Panicked _) = True"
| "stopped _ = False"

definition par_finished :: "('p, 'r) ParMap \<Rightarrow> bool" where
  "par_finished s = list_all stopped (pm_threads s)"

text \<open>
  The end: the caller's own panic, or the first of a worker in the order they are joined, resumes; otherwise
  what each thread did is placed, and every item must be mapped. \<open>None\<close> is the panic of \<^verbatim>\<open>expect\<close>.
\<close>

definition place :: "(nat \<times> 'r) list \<Rightarrow> 'r option list \<Rightarrow> 'r option list" where
  "place done' out = fold (\<lambda>(index, r) out. out[index := Some r]) done' out"

fun join_threads :: "('p, 'r) Thread list \<Rightarrow> 'r option list \<Rightarrow> 'p + 'r option list" where
  "join_threads [] out = Inr out"
| "join_threads (Panicked p # ts) out = Inl p"
| "join_threads (Returned done' # ts) out = join_threads ts (place done' out)"
| "join_threads (_ # ts) out = join_threads ts out"

definition par_result :: "'t list \<Rightarrow> ('p, 'r) ParMap \<Rightarrow> 'p + 'r list option" where
  "par_result items s =
     map_sum id (\<lambda>out. if list_all (\<lambda>r. r \<noteq> None) out then Some (map the out) else None)
       (join_threads (pm_threads s) (replicate (length items) None))"

text \<open>One thread only, for a machine or a slice that allows no more: the items in order.\<close>

fun map_in_order :: "('t \<Rightarrow> 'p + 'r) \<Rightarrow> 't list \<Rightarrow> 'p + 'r list" where
  "map_in_order f [] = Inr []"
| "map_in_order f (x # xs) = and_then (f x) (\<lambda>r. and_then (map_in_order f xs) (\<lambda>rs. Inr (r # rs)))"

definition par_threads :: "nat \<Rightarrow> 't list \<Rightarrow> nat" where
  "par_threads available items = min (min available MAX_PAR_MAP_THREADS) (length items)"

text \<open>
  What a call of \<^verbatim>\<open>par_map\<close> may give: with more than one thread to run on, \<open>started\<close> of the workers that the call
  asks for run beside the caller.
\<close>

inductive par_map :: "nat \<Rightarrow> ('t \<Rightarrow> 'p + 'r) \<Rightarrow> 't list \<Rightarrow> 'p + 'r list option \<Rightarrow> bool"
  for available :: nat and f :: "'t \<Rightarrow> 'p + 'r" and items :: "'t list" where
  alone: "par_threads available items \<le> 1 \<Longrightarrow> par_map available f items (map_sum id Some (map_in_order f items))"
| together: "par_threads available items > 1 \<Longrightarrow> started < par_threads available items \<Longrightarrow>
    (par_step f items)\<^sup>*\<^sup>* (par_start started) s \<Longrightarrow> par_finished s \<Longrightarrow>
    par_map available f items (par_result items s)"

section \<open>The invariant of the threads\<close>

fun did :: "('p, 'r) Thread \<Rightarrow> (nat \<times> 'r) list" where
  "did (Taking d) = d"
| "did (Calling _ d) = d"
| "did (Returned d) = d"
| "did (Panicked p) = []"

fun calling :: "('p, 'r) Thread \<Rightarrow> nat option" where
  "calling (Calling n _) = Some n"
| "calling _ = None"

text \<open>
  Every index below the counter is done, called, or lost to a panic; what is done is what \<^verbatim>\<open>f\<close> gives; the
  counter runs past the end only by one for each thread that returned.
\<close>

definition returned :: "('p, 'r) Thread \<Rightarrow> bool" where
  "returned t = (case t of Returned _ \<Rightarrow> True | _ \<Rightarrow> False)"

definition thread_ok :: "('t \<Rightarrow> 'p + 'r) \<Rightarrow> 't list \<Rightarrow> ('p, 'r) Thread \<Rightarrow> bool" where
  "thread_ok f items t \<longleftrightarrow>
     (\<forall>(n, r) \<in> set (did t). n < length items \<and> f (items ! n) = Inr r) \<and>
     (\<forall>n. calling t = Some n \<longrightarrow> n < length items) \<and>
     (\<forall>p. t = Panicked p \<longrightarrow> (\<exists>x \<in> set items. f x = Inl p))"

definition covered :: "('p, 'r) Thread \<Rightarrow> nat set" where
  "covered t = fst ` set (did t) \<union> set_option (calling t)"

definition returns :: "('p, 'r) Thread list \<Rightarrow> nat" where
  "returns ts = length (filter returned ts)"

definition par_ok :: "('t \<Rightarrow> 'p + 'r) \<Rightarrow> 't list \<Rightarrow> ('p, 'r) ParMap \<Rightarrow> bool" where
  "par_ok f items s \<longleftrightarrow>
     list_all (thread_ok f items) (pm_threads s) \<and>
     pm_next s \<le> length items + returns (pm_threads s) \<and>
     (returns (pm_threads s) > 0 \<longrightarrow> length items \<le> pm_next s) \<and>
     ((\<exists>p. Panicked p \<in> set (pm_threads s)) \<or>
      {0..<min (pm_next s) (length items)} \<subseteq> \<Union>(covered ` set (pm_threads s)))"

lemma par_start_ok: "par_ok f items (par_start started)"
  by (auto simp: par_ok_def par_start_def thread_ok_def list_all_iff returns_def returned_def)

lemma returns_update:
  assumes "i < length ts" and "\<not> returned (ts ! i)"
  shows "returns (ts[i := t]) = (if returned t then Suc (returns ts) else returns ts)"
  using assms
proof (induction ts arbitrary: i)
  case (Cons u us)
  then show ?case by (cases i) (auto simp: returns_def)
qed simp

lemma returns_less: "i < length ts \<Longrightarrow> \<not> returned (ts ! i) \<Longrightarrow> returns ts < length ts"
  unfolding returns_def by (rule length_filter_less) (auto intro: nth_mem)

lemma covered_update:
  assumes "i < length ts" and "covered (ts ! i) \<subseteq> covered t"
  shows "\<Union>(covered ` set ts) \<union> covered t \<subseteq> \<Union>(covered ` set (ts[i := t]))"
proof -
  have "covered u \<subseteq> \<Union>(covered ` set (ts[i := t]))" if u: "u \<in> set ts" for u
  proof -
    obtain j where j: "j < length ts" "u = ts ! j" using u by (metis in_set_conv_nth)
    show ?thesis
    proof (cases "j = i")
      case True
      with j assms set_update_memI [OF assms(1)] show ?thesis by blast
    next
      case False
      with j have "ts[i := t] ! j = u" by simp
      with j(1) have "u \<in> set (ts[i := t])" by (metis length_list_update nth_mem)
      then show ?thesis by blast
    qed
  qed
  then show ?thesis using set_update_memI [OF assms(1)] by blast
qed

lemma list_all_update: "list_all P xs \<Longrightarrow> P x \<Longrightarrow> list_all P (xs[i := x])"
  using set_update_subset_insert [of xs i x] by (auto simp: list_all_iff)

lemma panic_update:
  assumes "Panicked p \<in> set ts" and "i < length ts" and "\<not> stopped (ts ! i)"
  shows "Panicked p \<in> set (ts[i := t])"
proof -
  obtain j where j: "j < length ts" "ts ! j = Panicked p" using assms(1) by (metis in_set_conv_nth)
  with assms(3) have "i \<noteq> j" by auto
  with j have "ts[i := t] ! j = Panicked p" "j < length (ts[i := t])" by simp_all
  then show ?thesis by (metis nth_mem)
qed

lemma take_index_ok:
  fixes s :: "('p, 'r) ParMap"
  assumes "par_ok f items s" and "length items + length (pm_threads s) < usize_count"
    and i: "i < length (pm_threads s)" "pm_threads s ! i = Taking done'"
  shows "par_ok f items (take_index items i done' s)"
proof -
  let ?ts = "pm_threads s"
  let ?t = "if pm_next s < length items then Calling (pm_next s) done' else Returned done' :: ('p, 'r) Thread"
  have runs: "\<not> returned (?ts ! i)" "\<not> stopped (?ts ! i)" using i(2) by (simp_all add: returned_def)
  have no_wrap: "pm_next s + 1 < usize_count"
    using assms(1,2) returns_less [OF i(1) runs(1)] by (simp add: par_ok_def)
  have "thread_ok f items (?ts ! i)" using assms(1) i(1) by (simp add: par_ok_def list_all_length)
  then have "thread_ok f items ?t" using i(2) by (simp add: thread_ok_def)
  then have all: "list_all (thread_ok f items) (?ts[i := ?t])"
    using assms(1) by (intro list_all_update) (simp_all add: par_ok_def)
  have returns: "returns (?ts[i := ?t]) = (if pm_next s < length items then returns ?ts else Suc (returns ?ts))"
    using returns_update [OF i(1) runs(1), of ?t] by (simp add: returned_def)
  have cover: "\<Union>(covered ` set ?ts) \<union> covered ?t \<subseteq> \<Union>(covered ` set (?ts[i := ?t]))"
    by (rule covered_update [OF i(1)]) (auto simp: covered_def i(2))
  have "(\<exists>p. Panicked p \<in> set (?ts[i := ?t])) \<or>
      {0..<min (pm_next s + 1) (length items)} \<subseteq> \<Union>(covered ` set (?ts[i := ?t]))"
  proof (cases "\<exists>p. Panicked p \<in> set ?ts")
    case True
    then show ?thesis using panic_update [OF _ i(1) runs(2)] by blast
  next
    case False
    then have old: "{0..<min (pm_next s) (length items)} \<subseteq> \<Union>(covered ` set ?ts)"
      using assms(1) by (auto simp: par_ok_def)
    have "k \<in> \<Union>(covered ` set ?ts) \<union> covered ?t" if "k < min (pm_next s + 1) (length items)" for k
    proof (cases "k < pm_next s")
      case True
      with old that show ?thesis by auto
    next
      case False
      with that have "k = pm_next s" "pm_next s < length items" by auto
      then show ?thesis by (simp add: covered_def)
    qed
    then have "{0..<min (pm_next s + 1) (length items)} \<subseteq> \<Union>(covered ` set ?ts) \<union> covered ?t"
      by (meson atLeastLessThan_iff subsetI)
    with cover show ?thesis by (meson order_trans)
  qed
  moreover have "pm_next (take_index items i done' s) = pm_next s + 1"
    "pm_threads (take_index items i done' s) = ?ts[i := ?t]"
    using no_wrap by (simp_all add: take_index_def)
  ultimately show ?thesis
    using all returns assms(1) unfolding par_ok_def by simp linarith
qed

lemma call_item_ok:
  assumes "par_ok f items s" and i: "i < length (pm_threads s)" "pm_threads s ! i = Calling index done'"
  shows "par_ok f items (call_item f items i index done' s)"
proof -
  let ?ts = "pm_threads s"
  let ?t = "case f (items ! index) of Inr r \<Rightarrow> Taking (done' @ [(index, r)]) | Inl p \<Rightarrow> Panicked p"
  have runs: "\<not> returned (?ts ! i)" "\<not> stopped (?ts ! i)" using i(2) by (simp_all add: returned_def)
  have old: "thread_ok f items (?ts ! i)" using assms(1) i(1) by (simp add: par_ok_def list_all_length)
  then have "thread_ok f items ?t" using i(2) by (auto simp: thread_ok_def split: sum.splits)
  then have all: "list_all (thread_ok f items) (?ts[i := ?t])"
    using assms(1) by (intro list_all_update) (simp_all add: par_ok_def)
  have returns: "returns (?ts[i := ?t]) = returns ?ts"
    using returns_update [OF i(1) runs(1), of ?t] by (simp add: returned_def split: sum.splits)
  have "(\<exists>p. Panicked p \<in> set (?ts[i := ?t])) \<or>
      {0..<min (pm_next s) (length items)} \<subseteq> \<Union>(covered ` set (?ts[i := ?t]))"
  proof (cases "\<exists>p. Panicked p \<in> set ?ts \<or> f (items ! index) = Inl p")
    case True
    then show ?thesis using panic_update [OF _ i(1) runs(2)] set_update_memI [OF i(1), of ?t] by fastforce
  next
    case False
    then obtain r where r: "f (items ! index) = Inr r" by (cases "f (items ! index)") auto
    then have "covered (?ts ! i) \<subseteq> covered ?t" using i(2) by (auto simp: covered_def)
    from covered_update [OF i(1) this] False assms(1) show ?thesis by (auto simp: par_ok_def)
  qed
  with all returns assms(1) show ?thesis by (simp add: par_ok_def call_item_def)
qed

lemma par_step_ok:
  assumes "par_step f items s s'" and "par_ok f items s" and "length items + length (pm_threads s) < usize_count"
  shows "par_ok f items s' \<and> length (pm_threads s') = length (pm_threads s)"
  using assms(1)
proof (rule par_stepE)
  fix i done'
  assume "s' = take_index items i done' s" "i < length (pm_threads s)" "pm_threads s ! i = Taking done'"
  with take_index_ok [OF assms(2,3)] show ?thesis by (simp add: take_index_def)
next
  fix i index done'
  assume "s' = call_item f items i index done' s" "i < length (pm_threads s)" "pm_threads s ! i = Calling index done'"
  with call_item_ok [OF assms(2)] show ?thesis by (simp add: call_item_def)
qed

section \<open>The result\<close>

lemma place_nth:
  assumes "k < length out" and "\<forall>(n, r) \<in> set done'. g n = r"
  shows "place done' out ! k = (if k \<in> fst ` set done' then Some (g k) else out ! k)"
  using assms
proof (induction done' arbitrary: out)
  case (Cons e done')
  obtain n r where e: "e = (n, r)" by fastforce
  have "place (e # done') out = place done' (out[n := Some r])" by (simp add: place_def e)
  with Cons.IH [of "out[n := Some r]"] Cons.prems e show ?case by (auto simp: nth_list_update)
qed (simp add: place_def)

lemma place_length [simp]: "length (place done' out) = length out"
  unfolding place_def by (induction done' arbitrary: out) auto

lemma join_threads_Inl: "join_threads ts out = Inl p \<Longrightarrow> Panicked p \<in> set ts"
  by (induction ts out rule: join_threads.induct) auto

lemma join_threads_panic: "Panicked p \<in> set ts \<Longrightarrow> \<exists>q. join_threads ts out = Inl q"
  by (induction ts out rule: join_threads.induct) auto

lemma join_threads_length: "join_threads ts out = Inr out' \<Longrightarrow> length out' = length out"
  by (induction ts out rule: join_threads.induct) auto

lemma join_threads_nth:
  assumes "join_threads ts out = Inr out'" and "\<forall>t \<in> set ts. \<forall>(n, r) \<in> set (did t). g n = r"
    and "list_all stopped ts" and "k < length out"
  shows "out' ! k = (if k \<in> \<Union>((\<lambda>t. fst ` set (did t)) ` set ts) then Some (g k) else out ! k)"
  using assms
proof (induction ts out rule: join_threads.induct)
  case (3 done' ts out)
  have "place done' out ! k = (if k \<in> fst ` set done' then Some (g k) else out ! k)"
    using 3 by (intro place_nth) auto
  with 3 show ?case by auto
qed auto

lemma map_nth_projr: "map (\<lambda>k. g (xs ! k)) [0..<length xs] = map g xs"
  by (intro nth_equalityI) auto

lemma par_finished_result:
  assumes "par_ok f items s" and "par_finished s" and "pm_threads s \<noteq> []"
  shows "if \<forall>x \<in> set items. \<exists>r. f x = Inr r then par_result items s = Inr (Some (map (\<lambda>x. projr (f x)) items))
    else \<exists>x \<in> set items. \<exists>p. f x = Inl p \<and> par_result items s = Inl p"
proof -
  let ?ts = "pm_threads s" and ?n = "length items"
  have ok: "thread_ok f items t" "stopped t" if "t \<in> set ?ts" for t
    using assms(1,2) that by (simp_all add: par_ok_def par_finished_def list_all_iff)
  show ?thesis
  proof (cases "join_threads ?ts (replicate ?n None)")
    case (Inl p)
    then obtain x where "x \<in> set items" "f x = Inl p"
      using ok(1) [OF join_threads_Inl [OF Inl]] by (auto simp: thread_ok_def)
    moreover from this have "\<not> (\<forall>x \<in> set items. \<exists>r. f x = Inr r)" by (metis sum.distinct(1))
    moreover have "par_result items s = Inl p" using Inl by (simp add: par_result_def)
    ultimately show ?thesis by auto
  next
    case (Inr out)
    then have none: "Panicked p \<notin> set ?ts" for p using join_threads_panic [of p ?ts "replicate ?n None"] by auto
    have returned: "returned t" if "t \<in> set ?ts" for t
      using ok(2) [OF that] none that by (cases t) (auto simp: returned_def)
    then have "returns ?ts > 0" using assms(3) by (cases ?ts) (auto simp: returns_def)
    then have "{0..<?n} \<subseteq> \<Union>(covered ` set ?ts)" using assms(1) none by (auto simp: par_ok_def min_def)
    moreover have "covered t = fst ` set (did t)" if "t \<in> set ?ts" for t
      using returned [OF that] by (cases t) (auto simp: returned_def covered_def)
    ultimately have all: "k \<in> \<Union>((\<lambda>t. fst ` set (did t)) ` set ?ts)" if "k < ?n" for k using that by fastforce
    let ?g = "\<lambda>k. projr (f (items ! k))"
    have g: "\<forall>t \<in> set ?ts. \<forall>(n, r) \<in> set (did t). ?g n = r" using ok(1) by (fastforce simp: thread_ok_def)
    have nth: "out ! k = Some (?g k)" if "k < ?n" for k
      using join_threads_nth [OF Inr g, of k] all [OF that] that assms(2) by (simp add: par_finished_def)
    have len: "length out = ?n" using join_threads_length [OF Inr] by simp
    have "\<exists>r. f x = Inr r" if x: "x \<in> set items" for x
    proof -
      obtain k where k: "k < ?n" "x = items ! k" using x by (metis in_set_conv_nth)
      then obtain t r where "t \<in> set ?ts" "(k, r) \<in> set (did t)" using all [of k] by fastforce
      with ok(1) k(2) show ?thesis by (fastforce simp: thread_ok_def)
    qed
    moreover have "out = map (\<lambda>k. Some (?g k)) [0..<?n]" using nth len by (intro nth_equalityI) auto
    then have "par_result items s = Inr (Some (map (\<lambda>x. projr (f x)) items))"
      using Inr by (simp add: par_result_def list_all_iff comp_def map_nth_projr [where g = "\<lambda>x. projr (f x)"])
    ultimately show ?thesis by simp
  qed
qed

section \<open>Progress\<close>

text \<open>The steps that are left: two for every index not taken, one for every call, one for every thread that runs.\<close>

fun steps_of :: "('p, 'r) Thread \<Rightarrow> nat" where
  "steps_of (Taking _) = 1"
| "steps_of (Calling _ _) = 2"
| "steps_of _ = 0"

definition steps_left :: "'t list \<Rightarrow> ('p, 'r) ParMap \<Rightarrow> nat" where
  "steps_left items s = 2 * (length items - pm_next s) + sum_list (map steps_of (pm_threads s))"

lemma steps_of_update:
  "i < length ts \<Longrightarrow> sum_list (map steps_of (ts[i := t])) + steps_of (ts ! i) = sum_list (map steps_of ts) + steps_of t"
proof (induction ts arbitrary: i)
  case (Cons u us)
  then show ?case by (cases i) auto
qed simp

lemma par_step_left:
  fixes s :: "('p, 'r) ParMap"
  assumes "par_step f items s s'" and "par_ok f items s" and "length items + length (pm_threads s) < usize_count"
  shows "steps_left items s' < steps_left items s"
  using assms(1)
proof (rule par_stepE)
  fix i done'
  assume s': "s' = take_index items i done' s" and i: "i < length (pm_threads s)" "pm_threads s ! i = Taking done'"
  let ?t = "if pm_next s < length items then Calling (pm_next s) done' else Returned done' :: ('p, 'r) Thread"
  have "\<not> returned (pm_threads s ! i)" using i(2) by (simp add: returned_def)
  then have "pm_next s + 1 < usize_count"
    using assms(2,3) returns_less [OF i(1)] by (simp add: par_ok_def)
  then have "pm_next s' = pm_next s + 1" "pm_threads s' = (pm_threads s)[i := ?t]" by (simp_all add: s' take_index_def)
  with steps_of_update [OF i(1), of ?t] i(2) show ?thesis by (auto simp: steps_left_def split: if_splits)
next
  fix i index done'
  assume s': "s' = call_item f items i index done' s" and
    i: "i < length (pm_threads s)" "pm_threads s ! i = Calling index done'"
  let ?t = "case f (items ! index) of Inr r \<Rightarrow> Taking (done' @ [(index, r)]) | Inl p \<Rightarrow> Panicked p"
  have "steps_of ?t < 2" by (simp split: sum.splits)
  moreover have "pm_next s' = pm_next s" "pm_threads s' = (pm_threads s)[i := ?t]" by (simp_all add: s' call_item_def)
  ultimately show ?thesis using steps_of_update [OF i(1), of ?t] i(2) by (simp add: steps_left_def)
qed

lemma par_step_possible: "\<not> par_finished s \<Longrightarrow> \<exists>s'. par_step f items s s'"
proof -
  assume "\<not> par_finished s"
  then obtain i where i: "i < length (pm_threads s)" "\<not> stopped (pm_threads s ! i)"
    by (auto simp: par_finished_def list_all_length)
  then show ?thesis by (cases "pm_threads s ! i") (auto intro: par_step.intros)
qed

text \<open>The threads keep the contract of steps that make progress.\<close>

definition par_good :: "('t \<Rightarrow> 'p + 'r) \<Rightarrow> 't list \<Rightarrow> nat \<Rightarrow> ('p, 'r) ParMap \<Rightarrow> bool" where
  "par_good f items started s \<longleftrightarrow>
     par_ok f items s \<and> length (pm_threads s) = Suc started \<and> length items + Suc started < usize_count"

interpretation par: descent "par_step f items" "par_good f items started" "steps_left items" for f items started
proof
  fix s s'
  assume "par_good f items started s" "par_step f items s s'"
  then show "par_good f items started s'" "steps_left items s' < steps_left items s"
    using par_step_ok [of f items s s'] par_step_left [of f items s s'] by (simp_all add: par_good_def)
qed

lemma par_start_good: "length items + Suc started < usize_count \<Longrightarrow> par_good f items started (par_start started)"
  by (simp add: par_good_def par_start_ok) (simp add: par_start_def)

lemmas par_reached_good = par.steps_good [OF _ par_start_good]

section \<open>Properties\<close>

lemma map_in_order_result:
  "if \<forall>x \<in> set items. \<exists>r. f x = Inr r then map_in_order f items = Inr (map (\<lambda>x. projr (f x)) items)
   else \<exists>x \<in> set items. \<exists>p. f x = Inl p \<and> map_in_order f items = Inl p"
proof (induction items)
  case (Cons x xs)
  then show ?case by (cases "f x") (auto split: if_splits)
qed simp

lemma par_threads_bound: "started < par_threads available items \<Longrightarrow> length items < 2 ^ 63 \<Longrightarrow>
    length items + Suc started < usize_count"
  by (simp add: par_threads_def MAX_PAR_MAP_THREADS_def usize_count_def)

text \<open>
  Property C11. Mapping in parallel is mapping: for every number of threads that the machine allows, every number of
  workers that start and every interleaving of them, the result is \<^verbatim>\<open>f\<close> of each item, in order, each item mapped
  exactly where it belongs; where \<^verbatim>\<open>f\<close> panics on some item, the call panics with the payload of such an item. No
  slice is longer than \<^verbatim>\<open>isize::MAX\<close>, so the counter never wraps.
\<close>

theorem par_map_is_map:
  assumes "par_map available f items result" and "length items < 2 ^ 63"
  shows "if \<forall>x \<in> set items. \<exists>r. f x = Inr r then result = Inr (Some (map (\<lambda>x. projr (f x)) items))
    else \<exists>x \<in> set items. \<exists>p. f x = Inl p \<and> result = Inl p"
  using assms(1)
proof cases
  case alone
  with map_in_order_result [of items f] show ?thesis by (auto split: if_splits)
next
  case (together started s)
  have "par_ok f items s \<and> length (pm_threads s) = Suc started"
    using par_reached_good [OF together(4) par_threads_bound [OF together(3) assms(2)]] by (simp add: par_good_def)
  with par_finished_result [of f items s] together(1,5) show ?thesis by (cases "pm_threads s") auto
qed

text \<open>
  Property C22. A parallel map ends: however its threads were interleaved so far, each further step leaves fewer steps to go,
  and as long as some thread has not stopped a step is possible.
\<close>

theorem par_map_finishes:
  assumes "(par_step f items)\<^sup>*\<^sup>* (par_start started) s" and "started < par_threads available items"
    and "length items < 2 ^ 63"
  shows "(\<exists>s'. (par_step f items)\<^sup>*\<^sup>* s s' \<and> par_finished s') \<and>
    (\<forall>s'. par_step f items s s' \<longrightarrow> steps_left items s' < steps_left items s)"
proof -
  have good: "par_good f items started s" using par_reached_good [OF assms(1) par_threads_bound [OF assms(2,3)]] .
  obtain s' where s': "(par_step f items)\<^sup>*\<^sup>* s s'" "\<forall>s''. \<not> par_step f items s' s''" using par.steps_end [OF good] by blast
  then have "par_finished s'" using par_step_possible by blast
  with s'(1) par.step_less [OF good] show ?thesis by blast
qed

text \<open>Runs of a schedule, the list of the threads that step, for examples.\<close>

fun par_run :: "('t \<Rightarrow> 'p + 'r) \<Rightarrow> 't list \<Rightarrow> nat list \<Rightarrow> ('p, 'r) ParMap \<Rightarrow> ('p, 'r) ParMap" where
  "par_run f items [] s = s"
| "par_run f items (i # is) s =
     par_run f items is
       (if i < length (pm_threads s)
        then (case pm_threads s ! i of
                Taking done' \<Rightarrow> take_index items i done' s
              | Calling index done' \<Rightarrow> call_item f items i index done' s
              | _ \<Rightarrow> s)
        else s)"

lemma par_run_steps: "(par_step f items)\<^sup>*\<^sup>* s (par_run f items is s)"
proof (induction "is" arbitrary: s)
  case (Cons i "is")
  let ?s = "if i < length (pm_threads s)
      then (case pm_threads s ! i of
              Taking done' \<Rightarrow> take_index items i done' s
            | Calling index done' \<Rightarrow> call_item f items i index done' s
            | _ \<Rightarrow> s)
      else s"
  have "(par_step f items)\<^sup>*\<^sup>* s ?s" by (auto split: Thread.splits intro: par_step.intros)
  with Cons.IH [of ?s] show ?case by simp
qed simp

definition halve :: "nat \<Rightarrow> string + nat" where
  "halve n = (if n mod 2 = 0 then Inr (n div 2) else Inl ''odd'')"

definition two_threads :: "(string, nat) ParMap" where
  "two_threads = par_run halve [4, 6] [1, 0, 0, 0, 1, 1] (par_start 1)"

lemma two_threads_run:
  "(par_step halve [4, 6])\<^sup>*\<^sup>* (par_start 1) two_threads"
  "pm_threads two_threads = [Returned [(1, 3)], Returned [(0, 2)]]"
  unfolding two_threads_def
  by (rule par_run_steps)
    (simp add: par_start_def take_index_def call_item_def halve_def usize_count_def)

theorem par_map_is_map_witness: "par_map 2 halve [4, 6] (Inr (Some [2, 3]))"
proof -
  have "par_map 2 halve [4, 6] (par_result [4::nat, 6] two_threads)"
    using two_threads_run
    by (intro par_map.together [of _ _ 1]) (simp_all add: par_threads_def MAX_PAR_MAP_THREADS_def par_finished_def)
  moreover from par_map_is_map [OF this] have "par_result [4::nat, 6] two_threads = Inr (Some [2, 3])"
    by (simp add: halve_def)
  ultimately show ?thesis by simp
qed

theorem par_map_finishes_witness:
  "\<exists>s. (par_step halve [4, 6])\<^sup>*\<^sup>* (par_run halve [4, 6] [1, 0, 0] (par_start 1)) s \<and> par_finished s"
  using par_map_finishes [OF par_run_steps, of 1 2 "[4, 6]" halve "[1, 0, 0]"]
  by (simp add: par_threads_def MAX_PAR_MAP_THREADS_def)

end
