(* ===== verification/Http_Retry.thy ===== *)
theory Http_Retry
  imports Rust_Std
begin

text \<open>
  The retry rule of the HTTP clients, \<^verbatim>\<open>rv-http/src/retry.rs\<close>. A duration is a number of nanoseconds. The loop of \<^verbatim>\<open>run\<close>
  works on a state that has the counters of the call, the clock and the cooldown it shares with the other requests
  to its server. What the code gets from outside is a parameter: the outcome of each attempt, the delays of the
  backoff and the jitter, and what time and the other requests do between two accesses of the call to the clock
  and the cooldown. The inner and the outer loop are functions with a termination proof.
\<close>

section \<open>Definitions\<close>

subsection \<open>Durations\<close>

type_synonym duration = nat

definition second :: duration where
  "second = 1000000000"

definition DURATION_MAX :: duration where
  "DURATION_MAX = (2 ^ 64 - 1) * second + (second - 1)"

definition U32_MAX :: nat where
  "U32_MAX = 2 ^ 32 - 1"

definition saturating_mul :: "duration \<Rightarrow> nat \<Rightarrow> duration" where
  "saturating_mul d n = min (d * n) DURATION_MAX"

definition saturating_add :: "duration \<Rightarrow> duration \<Rightarrow> duration" where
  "saturating_add d e = min (d + e) DURATION_MAX"

definition checked_add :: "duration \<Rightarrow> duration \<Rightarrow> duration option" where
  "checked_add d e = (if d + e \<le> DURATION_MAX then Some (d + e) else None)"

text \<open>\<^verbatim>\<open>u32::try_from(n).unwrap_or(u32::MAX).saturating_add(1)\<close>\<close>

definition one_more :: "nat \<Rightarrow> nat" where
  "one_more n = min ((if n \<le> U32_MAX then n else U32_MAX) + 1) U32_MAX"

subsection \<open>Policies, outcomes and cooldowns\<close>

definition MAX_BUSY_WAIT :: duration where
  "MAX_BUSY_WAIT = 60 * second"

record RetryPolicy =
  po_retries :: nat
  po_budget :: duration

definition RetryPolicy_new :: "nat \<Rightarrow> duration \<Rightarrow> RetryPolicy" where
  "RetryPolicy_new retries timeout =
     \<lparr>po_retries = retries,
      po_budget = saturating_add (saturating_mul timeout (one_more retries)) (5 * second)\<rparr>"

datatype 'e Outcome = Permanent 'e | Transient 'e | Unresolved 'e | Busy 'e "duration option"

fun is_transient :: "'e Outcome \<Rightarrow> bool" where
  "is_transient (Permanent _) = False"
| "is_transient _ = True"

fun into_error :: "'e Outcome \<Rightarrow> 'e" where
  "into_error (Permanent e) = e"
| "into_error (Transient e) = e"
| "into_error (Unresolved e) = e"
| "into_error (Busy e _) = e"

record Cooldown =
  cd_until :: "nat option"
  cd_unresolvable :: bool

definition cooldown_hold :: "nat \<Rightarrow> duration \<Rightarrow> Cooldown \<Rightarrow> Cooldown" where
  "cooldown_hold now wait cd =
     (if (case cd_until cd of None \<Rightarrow> True | Some held \<Rightarrow> held < now + wait)
      then cd\<lparr>cd_until := Some (now + wait)\<rparr> else cd)"

definition cooldown_remaining :: "nat \<Rightarrow> Cooldown \<Rightarrow> duration" where
  "cooldown_remaining now cd = (case cd_until cd of None \<Rightarrow> 0 | Some until \<Rightarrow> until - now)"

subsection \<open>The loop of a call\<close>

text \<open>
  \<open>rq_attempt n\<close> is the outcome of the call's attempt \<open>n\<close>, \<open>rq_backoff n\<close> and \<open>rq_jitter n\<close> what the call's \<open>n\<close>-th delay
  takes from the backoff and the jitter, and \<open>rq_others n\<close> what happens to the clock and the cooldown before the
  call's \<open>n\<close>-th access to them.
\<close>

record ('e, 't) Request =
  rq_attempt :: "nat \<Rightarrow> 'e Outcome + 't"
  rq_backoff :: "nat \<Rightarrow> duration option"
  rq_jitter :: "nat \<Rightarrow> duration \<Rightarrow> duration"
  rq_others :: "nat \<Rightarrow> nat \<times> Cooldown \<Rightarrow> nat \<times> Cooldown"

record 'e Retrying =
  rt_retries :: nat
  rt_waited :: duration
  rt_unresolved :: bool
  rt_now :: nat
  rt_cooldown :: Cooldown
  rt_accesses :: nat
  rt_backoffs :: nat
  rt_attempts :: nat
  rt_slept :: "duration list"
  rt_noted :: "('e \<times> duration) list"

definition access :: "('e, 't) Request \<Rightarrow> 'e Retrying \<Rightarrow> 'e Retrying" where
  "access rq st =
     (case rq_others rq (rt_accesses st) (rt_now st, rt_cooldown st) of (now, cd) \<Rightarrow>
        st\<lparr>rt_now := now, rt_cooldown := cd, rt_accesses := rt_accesses st + 1\<rparr>)"

definition sleep :: "duration \<Rightarrow> 'e Retrying \<Rightarrow> 'e Retrying" where
  "sleep d st = st\<lparr>rt_now := rt_now st + d, rt_slept := rt_slept st @ [d]\<rparr>"

lemma access_keeps [simp]:
  "rt_retries (access rq st) = rt_retries st" "rt_waited (access rq st) = rt_waited st"
  "rt_unresolved (access rq st) = rt_unresolved st" "rt_attempts (access rq st) = rt_attempts st"
  "rt_slept (access rq st) = rt_slept st" "rt_noted (access rq st) = rt_noted st"
  by (simp_all add: access_def split: prod.splits)

lemma sleep_keeps [simp]:
  "rt_retries (sleep d st) = rt_retries st" "rt_waited (sleep d st) = rt_waited st"
  "rt_unresolved (sleep d st) = rt_unresolved st" "rt_attempts (sleep d st) = rt_attempts st"
  "rt_slept (sleep d st) = rt_slept st @ [d]" "rt_noted (sleep d st) = rt_noted st"
  by (simp_all add: sleep_def)

text \<open>The inner loop: the call sleeps as long as the cooldown lasts and the budget allows. \<open>None\<close> is the panic of \<open>+=\<close>.\<close>

function hold_back :: "RetryPolicy \<Rightarrow> ('e, 't) Request \<Rightarrow> 'e Retrying \<Rightarrow> 'e Retrying option" where
  "hold_back policy rq st =
     (let st = access rq st;
          held = min (cooldown_remaining (rt_now st) (rt_cooldown st)) (po_budget policy - rt_waited st)
      in if held = 0 then Some st
         else case checked_add (rt_waited st) held of
           None \<Rightarrow> None
         | Some waited \<Rightarrow> hold_back policy rq ((sleep held st)\<lparr>rt_waited := waited\<rparr>))"
  by pat_completeness auto
termination
  by (relation "measure (\<lambda>(policy, rq, st). po_budget policy - rt_waited st)")
    (auto simp: checked_add_def min_def split: if_splits)

declare hold_back.simps [simp del]

text \<open>Whether an attempt failed its lookup of the host name goes to the state, and a lookup that did not fail to the cooldown.\<close>

definition lookup_failed :: "'e Outcome + 't \<Rightarrow> bool" where
  "lookup_failed outcome = (case outcome of Inl (Unresolved _) \<Rightarrow> True | _ \<Rightarrow> False)"

definition note_lookup :: "('e, 't) Request \<Rightarrow> 'e Outcome + 't \<Rightarrow> 'e Retrying \<Rightarrow> 'e Retrying" where
  "note_lookup rq outcome st =
     (let st = st\<lparr>rt_unresolved := lookup_failed outcome\<rparr> in
      if lookup_failed outcome then st
      else let st = access rq st in
           if cd_unresolvable (rt_cooldown st)
           then let st = access rq st in st\<lparr>rt_cooldown := (rt_cooldown st)\<lparr>cd_unresolvable := False\<rparr>\<rparr>
           else st)"

text \<open>The outcome of an attempt: the call ends, or an error is left with the \<^verbatim>\<open>Retry-After\<close> of a busy server.\<close>

definition judge ::
  "('e, 't) Request \<Rightarrow> bool \<Rightarrow> 'e Outcome + 't \<Rightarrow> 'e Retrying \<Rightarrow>
   (('e + 't) + ('e \<times> duration option option)) \<times> 'e Retrying" where
  "judge rq failed_before outcome st =
     (case outcome of
        Inr value \<Rightarrow> (Inl (Inr value), st)
      | Inl (Permanent error) \<Rightarrow> (Inl (Inl error), st)
      | Inl (Transient error) \<Rightarrow> (Inr (error, None), st)
      | Inl (Unresolved error) \<Rightarrow>
          if failed_before
          then let st = access rq st
               in (Inl (Inl error), st\<lparr>rt_cooldown := (rt_cooldown st)\<lparr>cd_unresolvable := True\<rparr>\<rparr>)
          else let st = access rq st
               in (if cd_unresolvable (rt_cooldown st) then Inl (Inl error) else Inr (error, None), st)
      | Inl (Busy error retry_after) \<Rightarrow> (Inr (error, Some retry_after), st))"

text \<open>The wait before the next attempt, or \<open>None\<close> for a \<^verbatim>\<open>Retry-After\<close> that is not waited for.\<close>

definition next_wait :: "('e, 't) Request \<Rightarrow> duration option option \<Rightarrow> 'e Retrying \<Rightarrow> duration option \<times> 'e Retrying" where
  "next_wait rq busy st =
     (case busy of
        None \<Rightarrow>
          (Some (case rq_backoff rq (rt_backoffs st) of Some d \<Rightarrow> d | None \<Rightarrow> 30 * second),
           st\<lparr>rt_backoffs := rt_backoffs st + 1\<rparr>)
      | Some retry_after \<Rightarrow>
          if (case retry_after of Some ra \<Rightarrow> ra > MAX_BUSY_WAIT | None \<Rightarrow> False) then (None, st)
          else
            let step = saturating_mul (5 * second) (one_more (rt_retries st));
                jittered = saturating_add step (rq_jitter rq (rt_retries st) step)
            in (Some (min (max jittered (case retry_after of Some ra \<Rightarrow> ra | None \<Rightarrow> 0)) MAX_BUSY_WAIT), st))"

text \<open>One attempt and what follows it: the end of the call, or \<open>None\<close> after the wait for the next.\<close>

definition turn :: "RetryPolicy \<Rightarrow> ('e, 't) Request \<Rightarrow> 'e Retrying \<Rightarrow> ('e + 't) option \<times> 'e Retrying" where
  "turn policy rq st =
     (let outcome = rq_attempt rq (rt_attempts st);
          failed_before = rt_unresolved st;
          st = note_lookup rq outcome (st\<lparr>rt_attempts := rt_attempts st + 1\<rparr>)
      in case judge rq failed_before outcome st of
           (Inl r, st) \<Rightarrow> (Some r, st)
         | (Inr (error, busy), st) \<Rightarrow>
             if rt_retries st \<ge> po_retries policy then (Some (Inl error), st)
             else (case next_wait rq busy st of
                 (None, st) \<Rightarrow> (Some (Inl error), st)
               | (Some wait, st) \<Rightarrow>
                   (case checked_add (rt_waited st) wait of
                      None \<Rightarrow> (Some (Inl error), st)
                    | Some spent \<Rightarrow>
                        if spent > po_budget policy then (Some (Inl error), st)
                        else
                          let st = st\<lparr>rt_waited := spent\<rparr>;
                              st = (if busy = None then st
                                    else let st = access rq st
                                         in st\<lparr>rt_cooldown := cooldown_hold (rt_now st) wait (rt_cooldown st)\<rparr>);
                              st = sleep wait (st\<lparr>rt_noted := rt_noted st @ [(error, wait)]\<rparr>)
                          in (None, st\<lparr>rt_retries := rt_retries st + 1\<rparr>))))"

lemma note_lookup_keeps [simp]:
  "rt_retries (note_lookup rq outcome st) = rt_retries st" "rt_waited (note_lookup rq outcome st) = rt_waited st"
  "rt_attempts (note_lookup rq outcome st) = rt_attempts st" "rt_slept (note_lookup rq outcome st) = rt_slept st"
  "rt_noted (note_lookup rq outcome st) = rt_noted st" "rt_unresolved (note_lookup rq outcome st) = lookup_failed outcome"
  by (simp_all add: note_lookup_def Let_def)

lemma judge_keeps:
  assumes "judge rq failed_before outcome st = (r, st')"
  shows "rt_retries st' = rt_retries st \<and> rt_waited st' = rt_waited st \<and> rt_attempts st' = rt_attempts st \<and>
    rt_slept st' = rt_slept st \<and> rt_noted st' = rt_noted st \<and> rt_unresolved st' = rt_unresolved st"
  using assms by (auto simp: judge_def Let_def split: sum.splits Outcome.splits if_splits)

lemma next_wait_keeps:
  assumes "next_wait rq busy st = (r, st')"
  shows "rt_retries st' = rt_retries st \<and> rt_waited st' = rt_waited st \<and> rt_attempts st' = rt_attempts st \<and>
    rt_slept st' = rt_slept st \<and> rt_noted st' = rt_noted st \<and> rt_unresolved st' = rt_unresolved st"
  using assms by (auto simp: next_wait_def Let_def split: option.splits if_splits)

text \<open>A turn that goes on: one retry more, the budget kept, one failure noted with the wait that follows it.\<close>

lemma turn_again:
  assumes "turn policy rq st = (None, st')"
  shows "rt_retries st < po_retries policy \<and> rt_retries st' = Suc (rt_retries st) \<and>
    rt_attempts st' = Suc (rt_attempts st) \<and>
    (\<exists>error wait. rt_waited st' = rt_waited st + wait \<and> rt_slept st' = rt_slept st @ [wait] \<and>
      rt_noted st' = rt_noted st @ [(error, wait)]) \<and> rt_waited st' \<le> po_budget policy \<and>
    rt_unresolved st' = lookup_failed (rq_attempt rq (rt_attempts st))"
  using assms
  by (auto simp: turn_def Let_def checked_add_def dest!: judge_keeps next_wait_keeps
      split: prod.splits sum.splits option.splits if_splits)

lemma turn_done:
  assumes "turn policy rq st = (Some r, st')"
  shows "rt_retries st' = rt_retries st \<and> rt_attempts st' = Suc (rt_attempts st) \<and> rt_waited st' = rt_waited st \<and>
    rt_slept st' = rt_slept st \<and> rt_noted st' = rt_noted st"
  using assms
  by (auto simp: turn_def Let_def dest!: judge_keeps next_wait_keeps
      split: prod.splits sum.splits option.splits if_splits)

lemma hold_back_keeps:
  "hold_back policy rq st = Some st' \<Longrightarrow> rt_retries st' = rt_retries st \<and> rt_attempts st' = rt_attempts st \<and>
     rt_noted st' = rt_noted st \<and> rt_unresolved st' = rt_unresolved st"
proof (induction policy rq st rule: hold_back.induct)
  case (1 policy rq st)
  show ?case
    using "1.prems" "1.IH" [OF refl refl]
    by (auto simp: hold_back.simps [of policy rq st] Let_def split: if_splits option.splits)
qed

function run_loop :: "RetryPolicy \<Rightarrow> ('e, 't) Request \<Rightarrow> 'e Retrying \<Rightarrow> (('e + 't) \<times> 'e Retrying) option" where
  "run_loop policy rq st =
     (case hold_back policy rq st of
        None \<Rightarrow> None
      | Some st \<Rightarrow>
          (case turn policy rq st of
             (Some r, st) \<Rightarrow> Some (r, st)
           | (None, st) \<Rightarrow> run_loop policy rq st))"
  by pat_completeness auto
termination
  by (relation "measure (\<lambda>(policy, rq, st). po_retries policy - rt_retries st)")
    (auto dest!: hold_back_keeps turn_again [OF sym])

declare run_loop.simps [simp del]

definition retry_start :: "nat \<Rightarrow> Cooldown \<Rightarrow> 'e Retrying" where
  "retry_start now cd =
     \<lparr>rt_retries = 0, rt_waited = 0, rt_unresolved = False, rt_now = now, rt_cooldown = cd, rt_accesses = 0,
      rt_backoffs = 0, rt_attempts = 0, rt_slept = [], rt_noted = []\<rparr>"

definition run ::
  "RetryPolicy \<Rightarrow> ('e, 't) Request \<Rightarrow> nat \<Rightarrow> Cooldown \<Rightarrow> (('e + 't) \<times> 'e Retrying) option" where
  "run policy rq now cd = run_loop policy rq (retry_start now cd)"

section \<open>What the loops keep\<close>

text \<open>The time waited is the time slept and within the budget.\<close>

definition waits_ok :: "RetryPolicy \<Rightarrow> 'e Retrying \<Rightarrow> bool" where
  "waits_ok policy st \<longleftrightarrow> rt_waited st \<le> po_budget policy \<and> sum_list (rt_slept st) = rt_waited st"

lemma hold_back_ok:
  assumes "po_budget policy \<le> DURATION_MAX" and "waits_ok policy st"
  shows "\<exists>st'. hold_back policy rq st = Some st' \<and> waits_ok policy st'"
  using assms
proof (induction policy rq st rule: hold_back.induct)
  case (1 policy rq st)
  let ?st = "access rq st"
  let ?held = "min (cooldown_remaining (rt_now ?st) (rt_cooldown ?st)) (po_budget policy - rt_waited ?st)"
  have ok: "waits_ok policy ?st" using "1.prems"(2) by (simp add: waits_ok_def)
  show ?case
  proof (cases "?held = 0")
    case True
    with ok show ?thesis by (simp add: hold_back.simps [of policy rq st] Let_def)
  next
    case False
    have "rt_waited ?st + ?held \<le> po_budget policy"
      using ok unfolding waits_ok_def by linarith
    then have add: "checked_add (rt_waited ?st) ?held = Some (rt_waited ?st + ?held)"
      using "1.prems"(1) by (simp only: checked_add_def if_True le_trans)
    let ?next = "(sleep ?held ?st)\<lparr>rt_waited := rt_waited ?st + ?held\<rparr>"
    have "waits_ok policy ?next" using ok \<open>rt_waited ?st + ?held \<le> po_budget policy\<close> by (simp add: waits_ok_def)
    then have "\<exists>st'. hold_back policy rq ?next = Some st' \<and> waits_ok policy st'"
      by (rule "1.IH" [OF refl refl False add "1.prems"(1)])
    moreover have "hold_back policy rq st = hold_back policy rq ?next"
      unfolding hold_back.simps [of policy rq st] Let_def using False add by (simp only: if_False option.case)
    ultimately show ?thesis by (simp only:)
  qed
qed

text \<open>A failure that is noted is one that may pass, and the wait after a busy answer is as long as the server asked for.\<close>

definition retried :: "('e, 't) Request \<Rightarrow> nat \<Rightarrow> 'e \<times> duration \<Rightarrow> bool" where
  "retried rq k note \<longleftrightarrow> (\<exists>o'. rq_attempt rq k = Inl o' \<and> is_transient o' \<and> into_error o' = fst note \<and>
     (case o' of
        Busy _ retry_after \<Rightarrow>
          snd note \<le> MAX_BUSY_WAIT \<and> min (5 * second * (k + 1)) MAX_BUSY_WAIT \<le> snd note \<and>
          (case retry_after of None \<Rightarrow> True | Some ra \<Rightarrow> ra \<le> snd note)
      | Unresolved _ \<Rightarrow> k > 0 \<longrightarrow> \<not> lookup_failed (rq_attempt rq (k - 1))
      | _ \<Rightarrow> True))"

definition run_ok :: "RetryPolicy \<Rightarrow> ('e, 't) Request \<Rightarrow> 'e Retrying \<Rightarrow> bool" where
  "run_ok policy rq st \<longleftrightarrow> waits_ok policy st \<and> rt_attempts st = rt_retries st \<and>
     rt_retries st \<le> po_retries policy \<and> length (rt_noted st) = rt_retries st \<and>
     (\<forall>k < length (rt_noted st). retried rq k (rt_noted st ! k)) \<and>
     (rt_unresolved st \<longleftrightarrow> rt_attempts st > 0 \<and> lookup_failed (rq_attempt rq (rt_attempts st - 1)))"

lemma busy_step: "min (5 * second * (k + 1)) MAX_BUSY_WAIT \<le> saturating_mul (5 * second) (one_more k)"
  by (auto simp: saturating_mul_def one_more_def U32_MAX_def MAX_BUSY_WAIT_def DURATION_MAX_def second_def min_def)

lemma busy_wait_least:
  assumes "next_wait rq (Some retry_after) st = (Some wait, st')" and "rt_retries st = k"
  shows "wait \<le> MAX_BUSY_WAIT \<and> min (5 * second * (k + 1)) MAX_BUSY_WAIT \<le> wait \<and>
    (case retry_after of None \<Rightarrow> True | Some ra \<Rightarrow> ra \<le> wait)"
proof -
  let ?step = "saturating_mul (5 * second) (one_more k)"
  let ?j = "saturating_add ?step (rq_jitter rq k ?step)"
  have "?step \<le> DURATION_MAX" by (simp add: saturating_mul_def)
  then have "?step \<le> ?j" by (simp add: saturating_add_def)
  with busy_step [of k] have "min (5 * second * (k + 1)) MAX_BUSY_WAIT \<le> ?j" by linarith
  moreover have "wait = min (max ?j (case retry_after of Some ra \<Rightarrow> ra | None \<Rightarrow> 0)) MAX_BUSY_WAIT \<and>
      (case retry_after of Some ra \<Rightarrow> ra \<le> MAX_BUSY_WAIT | None \<Rightarrow> True)"
    using assms by (auto simp: next_wait_def Let_def split: if_splits option.splits)
  ultimately show ?thesis by (cases retry_after) auto
qed

lemma judge_retry:
  assumes "judge rq failed_before outcome st = (Inr (error, busy), st')"
  shows "\<exists>o'. outcome = Inl o' \<and> is_transient o' \<and> into_error o' = error \<and>
    busy = (case o' of Busy _ retry_after \<Rightarrow> Some retry_after | _ \<Rightarrow> None) \<and>
    (lookup_failed outcome \<longrightarrow> \<not> failed_before)"
  using assms by (auto simp: judge_def lookup_failed_def Let_def split: sum.splits Outcome.splits if_splits)

lemma judge_stop:
  assumes "judge rq failed_before outcome st = (Inl r, st')"
  shows "r = map_sum into_error (\<lambda>v. v) outcome"
  using assms by (auto simp: judge_def Let_def split: sum.splits Outcome.splits if_splits)

lemma turn_noted:
  assumes "turn policy rq st = (None, st')" and "run_ok policy rq st"
  shows "\<exists>error wait. rt_noted st' = rt_noted st @ [(error, wait)] \<and> retried rq (rt_attempts st) (error, wait)"
proof -
  let ?outcome = "rq_attempt rq (rt_attempts st)"
  let ?st = "note_lookup rq ?outcome (st\<lparr>rt_attempts := rt_attempts st + 1\<rparr>)"
  obtain error busy st1 where j: "judge rq (rt_unresolved st) ?outcome ?st = (Inr (error, busy), st1)"
    using assms(1) by (auto simp: turn_def Let_def split: prod.splits sum.splits)
  obtain wait st2 where w: "next_wait rq busy st1 = (Some wait, st2)" "rt_noted st' = rt_noted st2 @ [(error, wait)]"
    using assms(1) j by (auto simp: turn_def Let_def split: prod.splits option.splits if_splits)
  have kept: "rt_noted st2 = rt_noted st" "rt_retries st1 = rt_attempts st"
    using judge_keeps [OF j] next_wait_keeps [OF w(1)] assms(2) by (simp_all add: run_ok_def)
  obtain o' where o': "?outcome = Inl o'" "is_transient o'" "into_error o' = error"
    "busy = (case o' of Busy _ retry_after \<Rightarrow> Some retry_after | _ \<Rightarrow> None)"
    "lookup_failed ?outcome \<longrightarrow> \<not> rt_unresolved st"
    using judge_retry [OF j] by blast
  have "retried rq (rt_attempts st) (error, wait)"
  proof (cases o')
    case (Busy e retry_after)
    with o'(4) w(1) have "next_wait rq (Some retry_after) st1 = (Some wait, st2)" by simp
    from busy_wait_least [OF this kept(2)] o'(1-3) Busy show ?thesis by (cases retry_after) (simp_all add: retried_def)
  next
    case (Unresolved e)
    then have "lookup_failed ?outcome" using o'(1) by (simp add: lookup_failed_def)
    with o'(5) assms(2) have "rt_attempts st > 0 \<longrightarrow> \<not> lookup_failed (rq_attempt rq (rt_attempts st - 1))"
      unfolding run_ok_def by blast
    with o'(1-3) Unresolved show ?thesis by (simp add: retried_def)
  qed (use o' in \<open>simp_all add: retried_def\<close>)
  with w(2) kept(1) show ?thesis by simp
qed

lemma turn_ok:
  assumes "turn policy rq st = (None, st')" and "run_ok policy rq st"
  shows "run_ok policy rq st'"
proof -
  note again = turn_again [OF assms(1)]
  obtain error wait where n: "rt_noted st' = rt_noted st @ [(error, wait)]" "retried rq (rt_attempts st) (error, wait)"
    using turn_noted [OF assms] by blast
  have "\<forall>k < length (rt_noted st'). retried rq k (rt_noted st' ! k)"
    using n assms(2) by (auto simp: run_ok_def nth_append less_Suc_eq)
  with again n(1) assms(2) show ?thesis by (auto simp: run_ok_def waits_ok_def)
qed

lemma turn_result:
  assumes "turn policy rq st = (Some r, st')"
  shows "r = map_sum into_error (\<lambda>v. v) (rq_attempt rq (rt_attempts st))"
proof -
  let ?outcome = "rq_attempt rq (rt_attempts st)"
  obtain x st1 where j: "judge rq (rt_unresolved st) ?outcome
      (note_lookup rq ?outcome (st\<lparr>rt_attempts := rt_attempts st + 1\<rparr>)) = (x, st1)" by fastforce
  show ?thesis
  proof (cases x)
    case (Inl a)
    with assms j judge_stop [OF j [unfolded Inl]] show ?thesis by (auto simp: turn_def Let_def)
  next
    case (Inr p)
    obtain error busy where p: "p = (error, busy)" by fastforce
    have "r = Inl error"
      using assms j Inr p by (auto simp: turn_def Let_def split: prod.splits option.splits if_splits)
    with judge_retry [OF j [unfolded Inr p]] show ?thesis by auto
  qed
qed

lemma run_loop_ok:
  assumes "po_budget policy \<le> DURATION_MAX" and "run_ok policy rq st"
  shows "\<exists>r st'. run_loop policy rq st = Some (r, st') \<and> waits_ok policy st' \<and> rt_retries st' \<le> po_retries policy \<and>
    rt_attempts st' = Suc (rt_retries st') \<and> length (rt_noted st') = rt_retries st' \<and>
    (\<forall>k < length (rt_noted st'). retried rq k (rt_noted st' ! k)) \<and>
    r = map_sum into_error (\<lambda>v. v) (rq_attempt rq (rt_retries st'))"
  using assms
proof (induction policy rq st rule: run_loop.induct)
  case (1 policy rq st)
  have waits: "waits_ok policy st" using "1.prems"(2) by (simp add: run_ok_def)
  obtain st1 where held: "hold_back policy rq st = Some st1" "waits_ok policy st1"
    using hold_back_ok [OF "1.prems"(1) waits] by blast
  have ok: "run_ok policy rq st1" using hold_back_keeps [OF held(1)] held(2) "1.prems"(2) by (simp add: run_ok_def)
  obtain x st2 where turned: "turn policy rq st1 = (x, st2)" by fastforce
  show ?case
  proof (cases x)
    case None
    have "run_ok policy rq st2" using turn_ok ok turned None by blast
    with "1.IH" [OF held(1) turned [symmetric] None "1.prems"(1)] held(1) turned None
    show ?thesis by (simp add: run_loop.simps [of policy rq st])
  next
    case (Some r)
    have "run_loop policy rq st = Some (r, st2)" using held(1) turned Some by (simp add: run_loop.simps [of policy rq st])
    moreover have "waits_ok policy st2 \<and> rt_retries st2 \<le> po_retries policy \<and> rt_attempts st2 = Suc (rt_retries st2) \<and>
        length (rt_noted st2) = rt_retries st2 \<and> (\<forall>k < length (rt_noted st2). retried rq k (rt_noted st2 ! k))"
      using turn_done [OF turned [unfolded Some]] ok by (simp add: run_ok_def waits_ok_def)
    moreover have "rt_retries st2 = rt_attempts st1" using turn_done [OF turned [unfolded Some]] ok by (simp add: run_ok_def)
    ultimately show ?thesis using turn_result [OF turned [unfolded Some]] by auto
  qed
qed

lemma retry_start_ok: "run_ok policy rq (retry_start now cd)"
  by (simp add: run_ok_def retry_start_def waits_ok_def)

section \<open>Properties\<close>

text \<open>
  Property C15. A request ends within its policy, whatever the server answers and whatever the other requests to it do to the
  shared cooldown: it makes at most one attempt more than the retries, all waits together, those for the cooldown
  included, stay within the budget, no addition of durations overflows, and what the caller gets is the value or
  the error of the last attempt.
\<close>

theorem run_within_policy:
  assumes "po_budget policy \<le> DURATION_MAX"
  shows "\<exists>r st. run policy rq now cd = Some (r, st) \<and>
    0 < rt_attempts st \<and> rt_attempts st \<le> po_retries policy + 1 \<and> sum_list (rt_slept st) \<le> po_budget policy \<and>
    r = map_sum into_error (\<lambda>v. v) (rq_attempt rq (rt_attempts st - 1))"
  using run_loop_ok [OF assms retry_start_ok, of rq now cd] by (auto simp: run_def waits_ok_def)

text \<open>
  Property C16. What is retried: every failure that the caller is told of before the last may pass; a lookup that failed is
  not retried after another that failed; and the wait after a busy answer is at least the server's \<^verbatim>\<open>Retry-After\<close>,
  at least five seconds for each retry so far, and at most a minute.
\<close>

theorem run_retries_what_may_pass:
  assumes "po_budget policy \<le> DURATION_MAX" and "run policy rq now cd = Some (r, st)" and "k < length (rt_noted st)"
  shows "k < po_retries policy \<and> retried rq k (rt_noted st ! k)"
  using run_loop_ok [OF assms(1) retry_start_ok, of rq now cd] assms(2,3) by (auto simp: run_def)

text \<open>A server that is busy once and asks for seven seconds.\<close>

definition busy_once :: "(string, string) Request" where
  "busy_once =
     \<lparr>rq_attempt = \<lambda>k. if k = 0 then Inl (Busy ''busy'' (Some (7 * second))) else Inr ''body'',
      rq_backoff = \<lambda>_. None, rq_jitter = \<lambda>_ _. 0, rq_others = \<lambda>_ s. s\<rparr>"

definition three_retries :: RetryPolicy where
  "three_retries = RetryPolicy_new 3 (30 * second)"

definition calm :: Cooldown where
  "calm = \<lparr>cd_until = None, cd_unresolvable = False\<rparr>"

lemma three_retries_budget: "po_retries three_retries = 3" "po_budget three_retries = 125 * second"
  by (simp_all add: three_retries_def RetryPolicy_new_def saturating_add_def saturating_mul_def one_more_def U32_MAX_def
      DURATION_MAX_def second_def)

lemma busy_once_run:
  "\<exists>st. run three_retries busy_once 0 calm = Some (Inr ''body'', st) \<and> rt_noted st = [(''busy'', 7 * second)]"
  by (simp add: run_def retry_start_def run_loop.simps hold_back.simps access_def busy_once_def calm_def Let_def
      cooldown_remaining_def turn_def note_lookup_def lookup_failed_def judge_def next_wait_def cooldown_hold_def
      three_retries_budget checked_add_def saturating_add_def saturating_mul_def one_more_def U32_MAX_def sleep_def
      DURATION_MAX_def MAX_BUSY_WAIT_def second_def)

theorem run_within_policy_witness:
  "\<exists>st. run three_retries busy_once 0 calm = Some (Inr ''body'', st) \<and> sum_list (rt_slept st) \<le> 125 * second"
proof -
  have "po_budget three_retries \<le> DURATION_MAX" by (simp add: three_retries_budget DURATION_MAX_def second_def)
  from run_within_policy [OF this, of busy_once 0 calm] busy_once_run show ?thesis
    by (auto simp: three_retries_budget)
qed

theorem run_retries_what_may_pass_witness: "retried busy_once 0 (''busy'', 7 * second)"
proof -
  have budget: "po_budget three_retries \<le> DURATION_MAX" by (simp add: three_retries_budget DURATION_MAX_def second_def)
  obtain st where st: "run three_retries busy_once 0 calm = Some (Inr ''body'', st)" "rt_noted st = [(''busy'', 7 * second)]"
    using busy_once_run by blast
  from run_retries_what_may_pass [OF budget st(1), of 0] st(2) show ?thesis by simp
qed

end
