(* ===== verification/Repository_Routing.thy ===== *)
theory Repository_Routing
  imports Resolver_Base "HOL-Library.Word"
begin

text \<open>
  Where a request goes and which credential it carries: the mirror that serves a repository
  (\<^verbatim>\<open>rv-repo/src/mirror.rs\<close>), the route of a request (\<^verbatim>\<open>rv-repo/src/routing.rs\<close>) and the lookup of credentials
  (\<^verbatim>\<open>rv-repo/src/auth.rs\<close>). Parsing of URLs is the \<^verbatim>\<open>url\<close> crate's and a parameter; so are the environment's variables.
  An error has the data its message is made of. Log messages are not modelled.
\<close>

section \<open>Definitions\<close>

subsection \<open>URLs\<close>

text \<open>A parsed URL: \<^verbatim>\<open>scheme\<close>, \<^verbatim>\<open>host_str\<close>, \<^verbatim>\<open>port_or_known_default\<close>, \<^verbatim>\<open>path\<close>, its text, and \<^verbatim>\<open>origin().ascii_serialization()\<close>.\<close>

record Url =
  u_scheme :: string
  u_host :: "string option"
  u_port :: "nat option"
  u_path :: string
  u_text :: string
  u_origin :: string

record UrlCrate =
  parse_url :: "string \<Rightarrow> Url option"
  set_path :: "Url \<Rightarrow> string \<Rightarrow> Url"

definition normalize_repo_url :: "UrlCrate \<Rightarrow> string \<Rightarrow> string" where
  "normalize_repo_url uc raw =
     (let trimmed = trim raw;
          plain = (if ends_with ''/'' trimmed then trimmed else trimmed @ ''/'')
      in case parse_url uc trimmed of
           Some file \<Rightarrow>
             if u_scheme file = ''file''
             then u_text (if ends_with ''/'' (u_path file) then file else set_path uc file (u_path file @ ''/''))
             else plain
         | None \<Rightarrow> plain)"

definition url_endpoint :: "UrlCrate \<Rightarrow> string \<Rightarrow> (string \<times> string \<times> nat) option" where
  "url_endpoint uc raw =
     Option.bind (parse_url uc raw) (\<lambda>u.
     Option.bind (u_host u) (\<lambda>host.
     Option.bind (u_port u) (\<lambda>port. Some (u_scheme u, to_ascii_lowercase host, port))))"

definition origins_differ :: "UrlCrate \<Rightarrow> string \<Rightarrow> string \<Rightarrow> bool" where
  "origins_differ uc from' to' =
     (case (url_endpoint uc from', url_endpoint uc to') of
        (Some a, Some b) \<Rightarrow> a \<noteq> b
      | _ \<Rightarrow> True)"

definition is_local_host :: "Url \<Rightarrow> bool" where
  "is_local_host u = (u_host u \<in> set [Some ''localhost'', Some ''127.0.0.1''])"

definition is_external_repo :: "UrlCrate \<Rightarrow> string \<Rightarrow> bool" where
  "is_external_repo uc raw =
     (case parse_url uc raw of None \<Rightarrow> True | Some u \<Rightarrow> \<not> (is_local_host u \<or> u_scheme u = ''file''))"

definition is_external_http_repo :: "UrlCrate \<Rightarrow> string \<Rightarrow> bool" where
  "is_external_http_repo uc raw =
     (case parse_url uc raw of None \<Rightarrow> True | Some u \<Rightarrow> u_scheme u = ''http'' \<and> \<not> is_local_host u)"

definition http_origin :: "UrlCrate \<Rightarrow> string \<Rightarrow> string option" where
  "http_origin uc raw =
     Option.bind (parse_url uc (trim raw)) (\<lambda>u.
       if u_scheme u \<in> set [''http'', ''https''] then Some (u_origin u) else None)"

subsection \<open>Repositories, mirrors and their configuration\<close>

datatype Provenance = Caller | Configured | LocalPom | FetchedPom

record DeclaredRepository = Repository +
  provenance :: Provenance

record MirrorConfig =
  mi_id :: "string option"
  mi_url :: string
  mirror_of :: "string list"
  mirror_of_layouts :: "string option"
  blocked :: bool

record AuthConfig =
  au_id :: "string option"
  au_username :: "string option"
  au_password :: "string option"
  au_token :: "string option"

record ConfigAuthLayers =
  project_auth :: "AuthConfig list"
  user_auth :: "AuthConfig list"
  settings_auth :: "AuthConfig list"

record SecurityConfig =
  allow_env_substitution :: "string list"
  allow_transitive_repositories :: bool
  transitive_repository_allowlist :: "string list"

text \<open>
  What the routes and the repository policy read of the configuration: the URLs of its repositories, its mirrors, the
  URLs that the user's own files name, its security settings, and its credentials.
\<close>

record RouteConfig =
  cf_repositories :: "string list"
  cf_mirrors :: "MirrorConfig list"
  cf_user_urls :: "string list"
  cf_security :: SecurityConfig
  cf_auth :: ConfigAuthLayers

subsection \<open>The mirror of a repository\<close>

definition trim_end_commas :: "string \<Rightarrow> string" where
  "trim_end_commas s = rev (dropWhile (\<lambda>c. c = CHR '','') (rev s))"

definition excluded_entry :: "string \<Rightarrow> string option" where
  "excluded_entry entry =
     (case strip_prefix ''!'' entry of Some rest \<Rightarrow> if rest = [] then None else Some rest | None \<Rightarrow> None)"

fun match_entries :: "string option \<Rightarrow> (string \<Rightarrow> bool) \<Rightarrow> string list \<Rightarrow> bool \<Rightarrow> bool" where
  "match_entries name wild [] matched = matched"
| "match_entries name wild (entry # entries) matched =
     (case excluded_entry entry of
        Some excluded \<Rightarrow> if Some excluded = name then False else match_entries name wild entries matched
      | None \<Rightarrow>
          if Some entry = name then True
          else match_entries name wild entries (matched \<or> wild entry))"

definition wild_entry :: "UrlCrate \<Rightarrow> string \<Rightarrow> string \<Rightarrow> bool" where
  "wild_entry uc raw entry =
     ((entry = ''external:*'' \<and> is_external_repo uc raw) \<or>
      (entry = ''external:http:*'' \<and> is_external_http_repo uc raw) \<or> entry = ''*'')"

definition match_pattern :: "UrlCrate \<Rightarrow> 'a Repository_scheme \<Rightarrow> string \<Rightarrow> bool" where
  "match_pattern uc repo pattern =
     (if pattern = ''*'' \<or> Some pattern = repo_id repo then True
      else match_entries (repo_id repo) (wild_entry uc (url repo)) (split_on CHR '','' (trim_end_commas pattern)) False)"

definition serves_layout :: "MirrorConfig \<Rightarrow> bool" where
  "serves_layout mirror =
     (let layouts = (case mirror_of_layouts mirror of Some l \<Rightarrow> l | None \<Rightarrow> ''default,legacy'') in
      if layouts = [] \<or> layouts = ''*'' \<or> layouts = ''default'' then True
      else match_entries (Some ''default'') (\<lambda>entry. entry = ''*'') (split_on CHR '','' (trim_end_commas layouts)) False)"

definition mirror_pattern :: "MirrorConfig \<Rightarrow> string" where
  "mirror_pattern mirror = join_with '','' (mirror_of mirror)"

definition matching_mirror :: "UrlCrate \<Rightarrow> MirrorConfig list \<Rightarrow> 'a Repository_scheme \<Rightarrow> MirrorConfig option" where
  "matching_mirror uc mirrors repo =
     (case find (\<lambda>m. repo_id repo = Some (mirror_pattern m) \<and> serves_layout m) mirrors of
        Some m \<Rightarrow> Some m
      | None \<Rightarrow> find (\<lambda>m. match_pattern uc repo (mirror_pattern m) \<and> serves_layout m) mirrors)"

definition resolve_mirror ::
  "UrlCrate \<Rightarrow> MirrorConfig list \<Rightarrow> 'a Repository_scheme \<Rightarrow> 'a Repository_scheme \<times> MirrorConfig option \<times> bool" where
  "resolve_mirror uc mirrors repo =
     (case matching_mirror uc mirrors repo of
        None \<Rightarrow> (repo, None, False)
      | Some m \<Rightarrow>
          let host_changed = origins_differ uc (url repo) (mi_url m);
              name = (if mi_id m = None \<and> \<not> host_changed then repo_id repo else mi_id m)
          in (repo\<lparr>repo_id := name, url := normalize_repo_url uc (mi_url m)\<rparr>, Some m, host_changed))"

subsection \<open>Credentials\<close>

datatype CredentialFile = ProjectFile | UserFile | SettingsFile

fun credential_label :: "CredentialFile \<Rightarrow> string" where
  "credential_label ProjectFile = ''project raeva.toml''"
| "credential_label UserFile = ''user config''"
| "credential_label SettingsFile = ''settings.xml''"

datatype Scheme = Basic string string | Bearer string

record SentCredential =
  sc_id :: "string option"
  sc_file :: CredentialFile
  sc_unset_variables :: "string list"

record Auth =
  a_scheme :: Scheme
  a_sent :: SentCredential

datatype RepoError =
  AuthSetup string "string option" string
| BlockedMirror "string option" string

definition by_file :: "ConfigAuthLayers \<Rightarrow> (CredentialFile \<times> AuthConfig list) list" where
  "by_file layers =
     [(ProjectFile, project_auth layers), (UserFile, user_auth layers), (SettingsFile, settings_auth layers)]"

text \<open>
  The references \<^verbatim>\<open>${env.NAME}\<close> of a text, each with the text before it, and the text after the last: what the loop of
  \<^verbatim>\<open>replace_env_refs\<close> goes through.
\<close>

lemma find_str_bound: "find_str p s = Some n \<Longrightarrow> n + length p \<le> length s"
proof (induction p s arbitrary: n rule: find_str.induct)
  case (2 p c cs)
  show ?case
  proof (cases "starts_with p (c # cs)")
    case True
    then have "length p \<le> length (c # cs)" unfolding starts_with_iff by (metis le_add1 length_append)
    with True "2.prems" show ?thesis by simp
  qed (use 2 in auto)
qed (simp split: if_splits)

function env_refs :: "string \<Rightarrow> (string \<times> string) list \<times> string" where
  "env_refs rest =
     (case find_str ''${env.'' rest of
        None \<Rightarrow> ([], rest)
      | Some start \<Rightarrow>
          let after = drop (start + 6) rest in
          (case find_str ''}'' after of
             None \<Rightarrow> ([], rest)
           | Some stop \<Rightarrow>
               (case env_refs (drop (stop + 1) after) of (refs, tail) \<Rightarrow>
                  ((take start rest, take stop after) # refs, tail))))"
  by pat_completeness auto
termination
  by (relation "measure length") (auto dest!: find_str_bound)

declare env_refs.simps [simp del]

definition replace_env_refs :: "string \<Rightarrow> (string \<Rightarrow> string option) \<Rightarrow> string" where
  "replace_env_refs input value =
     (case env_refs input of (refs, tail) \<Rightarrow>
        concat (map (\<lambda>(before, name). before @ (case value name of Some v \<Rightarrow> v | None \<Rightarrow> ''${env.'' @ name @ ''}'')) refs)
        @ tail)"

definition push_new :: "'a \<Rightarrow> 'a list \<Rightarrow> 'a list" where
  "push_new x xs = (if x \<in> set xs then xs else xs @ [x])"

definition unset_env_references :: "(string \<Rightarrow> string option) \<Rightarrow> string \<Rightarrow> string list" where
  "unset_env_references env input =
     fold (\<lambda>(before, name) names. if env name = None then push_new name names else names) (fst (env_refs input)) []"

definition incomplete_auth_error :: "AuthConfig \<Rightarrow> string \<Rightarrow> string \<Rightarrow> RepoError" where
  "incomplete_auth_error config source details = AuthSetup source (au_id config) details"

definition complete_scheme :: "AuthConfig \<Rightarrow> string \<Rightarrow> RepoError + Scheme" where
  "complete_scheme config source =
     (case au_token config of
        Some token \<Rightarrow>
          if token = [] then Inl (incomplete_auth_error config source ''bearer auth requires a non-empty token'')
          else Inr (Bearer token)
      | None \<Rightarrow>
          (case (au_username config, au_password config) of
             (Some username, Some password) \<Rightarrow>
               if username \<noteq> [] \<and> password \<noteq> [] then Inr (Basic username password)
               else Inl (incomplete_auth_error config source
                 ''basic auth requires a non-empty username and password, or bearer auth requires a non-empty token'')
           | _ \<Rightarrow> Inl (incomplete_auth_error config source
                 ''basic auth requires a non-empty username and password, or bearer auth requires a non-empty token'')))"

fun scheme_texts :: "Scheme \<Rightarrow> string list" where
  "scheme_texts (Basic username password) = [username, password]"
| "scheme_texts (Bearer token) = [token]"

definition build_complete_auth ::
  "(string \<Rightarrow> string option) \<Rightarrow> AuthConfig \<Rightarrow> CredentialFile \<Rightarrow> string \<Rightarrow> RepoError + Auth" where
  "build_complete_auth env config file source =
     and_then (complete_scheme config source) (\<lambda>scheme.
       let unset = (if file = SettingsFile
                    then fold push_new (concat (map (unset_env_references env) (scheme_texts scheme))) []
                    else [])
       in Inr \<lparr>a_scheme = scheme, a_sent = \<lparr>sc_id = au_id config, sc_file = file, sc_unset_variables = unset\<rparr>\<rparr>)"

text \<open>The origins that a credential may follow a fetched POM to, and how many were added, a number that wraps.\<close>

record NamedOrigins =
  no_origins :: "string list"
  no_generation :: "64 word"

definition NamedOrigins_add :: "UrlCrate \<Rightarrow> string \<Rightarrow> NamedOrigins \<Rightarrow> NamedOrigins" where
  "NamedOrigins_add uc raw named =
     (case http_origin uc raw of
        None \<Rightarrow> named
      | Some origin \<Rightarrow>
          if origin \<in> set (no_origins named) then named
          else \<lparr>no_origins = no_origins named @ [origin], no_generation = no_generation named + 1\<rparr>)"

record AuthStore =
  as_layers :: ConfigAuthLayers
  as_named_origins :: "NamedOrigins option"
  as_user_origins :: "string list option"

definition AuthStore_from_config :: "UrlCrate \<Rightarrow> RouteConfig \<Rightarrow> AuthStore" where
  "AuthStore_from_config uc config =
     \<lparr>as_layers = cf_auth config,
      as_named_origins = Some (fold (NamedOrigins_add uc)
        (cf_repositories config @ map mi_url (cf_mirrors config) @ cf_user_urls config @
         transitive_repository_allowlist (cf_security config))
        \<lparr>no_origins = [], no_generation = 0\<rparr>),
      as_user_origins = Some (List.map_filter (http_origin uc) (cf_user_urls config))\<rparr>"

definition auth_generation :: "AuthStore \<Rightarrow> 64 word" where
  "auth_generation store = (case as_named_origins store of None \<Rightarrow> 0 | Some named \<Rightarrow> no_generation named)"

definition withholds_id_credential :: "UrlCrate \<Rightarrow> AuthStore \<Rightarrow> DeclaredRepository \<Rightarrow> bool" where
  "withholds_id_credential uc store repo =
     (if provenance repo \<noteq> FetchedPom then False
      else case as_named_origins store of
        None \<Rightarrow> False
      | Some named \<Rightarrow>
          \<not> (case http_origin uc (url repo) of Some origin \<Rightarrow> origin \<in> set (no_origins named) | None \<Rightarrow> False))"

definition withholds_default_credential :: "UrlCrate \<Rightarrow> AuthStore \<Rightarrow> DeclaredRepository \<Rightarrow> bool" where
  "withholds_default_credential uc store repo =
     (case as_user_origins store of
        None \<Rightarrow> False
      | Some user_origins \<Rightarrow>
          \<not> (case http_origin uc (url repo) of Some origin \<Rightarrow> origin \<in> set user_origins | None \<Rightarrow> False))"

text \<open>The loop over the files for an id: \<open>None\<close> when no entry says anything about the id.\<close>

fun lookup_id ::
  "UrlCrate \<Rightarrow> (string \<Rightarrow> string option) \<Rightarrow> AuthStore \<Rightarrow> DeclaredRepository \<Rightarrow> string \<Rightarrow>
   (CredentialFile \<times> AuthConfig list) list \<Rightarrow> (RepoError + Auth option) option" where
  "lookup_id uc env store repo name [] = None"
| "lookup_id uc env store repo name ((file, configs) # files) =
     (case find (\<lambda>entry. au_id entry = Some name) configs of
        None \<Rightarrow> lookup_id uc env store repo name files
      | Some config \<Rightarrow>
          if au_token config = None \<and> au_username config = None \<and> au_password config = None
          then lookup_id uc env store repo name files
          else if withholds_id_credential uc store repo then Some (Inr None)
          else Some (and_then (build_complete_auth env config file (credential_label file)) (\<lambda>a. Inr (Some a))))"

fun lookup_default ::
  "(string \<Rightarrow> string option) \<Rightarrow> (CredentialFile \<times> AuthConfig list) list \<Rightarrow> RepoError + Auth option" where
  "lookup_default env [] = Inr None"
| "lookup_default env ((file, configs) # files) =
     (case find (\<lambda>entry. au_id entry = None) configs of
        None \<Rightarrow> lookup_default env files
      | Some config \<Rightarrow>
          and_then (build_complete_auth env config file (credential_label file @ '' default'')) (\<lambda>a. Inr (Some a)))"

definition lookup_auth ::
  "UrlCrate \<Rightarrow> (string \<Rightarrow> string option) \<Rightarrow> AuthStore \<Rightarrow> DeclaredRepository \<Rightarrow> bool \<Rightarrow> RepoError + Auth option" where
  "lookup_auth uc env store repo host_changed =
     (case Option.bind (repo_id repo) (\<lambda>name. lookup_id uc env store repo name (by_file (as_layers store))) of
        Some r \<Rightarrow> r
      | None \<Rightarrow>
          if host_changed then Inr None
          else if withholds_default_credential uc store repo then Inr None
          else lookup_default env (by_file (as_layers store)))"

subsection \<open>Routes\<close>

record Route =
  ro_origin :: string
  ro_endpoint :: DeclaredRepository
  ro_mirror :: "MirrorConfig option"
  ro_cross_origin :: bool
  ro_scope :: string
  ro_auth :: "(Auth option \<times> 64 word) option"

record Router =
  ru_mirrors :: "MirrorConfig list"
  ru_foreign_mirrors :: "string list"
  ru_auth :: AuthStore

definition ForeignMirrors_from_config :: "UrlCrate \<Rightarrow> RouteConfig \<Rightarrow> string list" where
  "ForeignMirrors_from_config uc config =
     map (\<lambda>m. normalize_repo_url uc (mi_url m))
       (filter (\<lambda>m. list_all (\<lambda>u. origins_differ uc u (mi_url m)) (cf_repositories config)) (cf_mirrors config))"

definition Router_from_config :: "UrlCrate \<Rightarrow> RouteConfig \<Rightarrow> Router" where
  "Router_from_config uc config =
     \<lparr>ru_mirrors = cf_mirrors config, ru_foreign_mirrors = ForeignMirrors_from_config uc config,
      ru_auth = AuthStore_from_config uc config\<rparr>"

definition cache_scope_key :: "string \<Rightarrow> 'a Repository_scheme \<Rightarrow> string" where
  "cache_scope_key origin_url endpoint =
     origin_url @ [CHR 0x1F] @ url endpoint @ [CHR 0x1F] @ ''id='' @ (case repo_id endpoint of Some i \<Rightarrow> i | None \<Rightarrow> [])"

definition route :: "UrlCrate \<Rightarrow> Router \<Rightarrow> DeclaredRepository \<Rightarrow> Route" where
  "route uc router repo =
     (case resolve_mirror uc (ru_mirrors router) repo of (endpoint, mirror, host_changed) \<Rightarrow>
        \<lparr>ro_origin = url repo, ro_endpoint = endpoint, ro_mirror = mirror,
         ro_cross_origin = (host_changed \<or> normalize_repo_url uc (url endpoint) \<in> set (ru_foreign_mirrors router)),
         ro_scope = cache_scope_key (url repo) endpoint, ro_auth = None\<rparr>)"

definition route_auth ::
  "UrlCrate \<Rightarrow> (string \<Rightarrow> string option) \<Rightarrow> AuthStore \<Rightarrow> Route \<Rightarrow> (RepoError + Auth option) \<times> Route" where
  "route_auth uc env store r =
     (case (case ro_mirror r of Some m \<Rightarrow> if blocked m then Some m else None | None \<Rightarrow> None) of
        Some m \<Rightarrow> (Inl (BlockedMirror (mi_id m) (mi_url m)), r)
      | None \<Rightarrow>
          (case ro_auth r of
             Some (a, generation) \<Rightarrow> (Inr a, r)
           | None \<Rightarrow>
               (case lookup_auth uc env store (ro_endpoint r) (ro_cross_origin r) of
                  Inl e \<Rightarrow> (Inl e, r)
                | Inr a \<Rightarrow> (Inr a, r\<lparr>ro_auth := Some (a, auth_generation store)\<rparr>))))"

section \<open>Lookups\<close>

lemma build_complete_auth_sent: "build_complete_auth env config file source = Inr a \<Longrightarrow> sc_id (a_sent a) = au_id config"
  by (auto simp: build_complete_auth_def and_then_Inr Let_def)

lemma lookup_id_sent:
  "lookup_id uc env store repo name files = Some (Inr (Some a)) \<Longrightarrow>
     sc_id (a_sent a) = Some name \<and> \<not> withholds_id_credential uc store repo"
proof (induction files rule: lookup_id.induct [of _ uc env store repo name])
  case (2 uc env store repo name fl configs fls)
  then show ?case
    by (auto simp: and_then_Inr dest!: build_complete_auth_sent find_Some_set split: option.splits if_splits)
qed simp

lemma lookup_default_sent: "lookup_default env files = Inr (Some a) \<Longrightarrow> sc_id (a_sent a) = None"
proof (induction env files rule: lookup_default.induct)
  case (2 env fl configs fls)
  then show ?case
    by (auto simp: and_then_Inr dest!: build_complete_auth_sent find_Some_set split: option.splits)
qed simp

lemma lookup_auth_sent:
  assumes "lookup_auth uc env store repo host_changed = Inr (Some a)"
  shows "case sc_id (a_sent a) of
      None \<Rightarrow> \<not> host_changed \<and> \<not> withholds_default_credential uc store repo
    | Some name \<Rightarrow> repo_id repo = Some name \<and> \<not> withholds_id_credential uc store repo"
proof -
  let ?found = "Option.bind (repo_id repo) (\<lambda>name. lookup_id uc env store repo name (by_file (as_layers store)))"
  show ?thesis
  proof (cases ?found)
    case None
    then have "\<not> host_changed \<and> \<not> withholds_default_credential uc store repo \<and>
        lookup_default env (by_file (as_layers store)) = Inr (Some a)"
      using assms by (simp add: lookup_auth_def split: if_splits)
    with lookup_default_sent [of env _ a] show ?thesis by auto
  next
    case (Some r)
    then have r: "r = Inr (Some a)" using assms by (simp add: lookup_auth_def)
    with Some obtain name where "repo_id repo = Some name"
      "lookup_id uc env store repo name (by_file (as_layers store)) = Some (Inr (Some a))"
      by (auto simp: bind_eq_Some_conv)
    with lookup_id_sent show ?thesis by fastforce
  qed
qed

section \<open>Named origins\<close>

definition origins_of :: "UrlCrate \<Rightarrow> string list \<Rightarrow> string set" where
  "origins_of uc urls = {origin. \<exists>u \<in> set urls. http_origin uc u = Some origin}"

lemma origins_of_simps [simp]:
  "origins_of uc [] = {}" "origins_of uc (us @ vs) = origins_of uc us \<union> origins_of uc vs"
  "origins_of uc (u # us) = set_option (http_origin uc u) \<union> origins_of uc us"
  by (auto simp: origins_of_def)

lemma NamedOrigins_add_set:
  "set (no_origins (NamedOrigins_add uc u named)) = set (no_origins named) \<union> set_option (http_origin uc u)"
  by (auto simp: NamedOrigins_add_def split: option.splits)

lemma NamedOrigins_fold_set:
  "set (no_origins (fold (NamedOrigins_add uc) urls named)) = set (no_origins named) \<union> origins_of uc urls"
  by (induction urls arbitrary: named) (auto simp: NamedOrigins_add_set)

definition named_urls :: "RouteConfig \<Rightarrow> string list" where
  "named_urls config =
     cf_repositories config @ map mi_url (cf_mirrors config) @ cf_user_urls config @
     transitive_repository_allowlist (cf_security config)"

text \<open>A store made from a configuration, to which the project's own POMs added the origins of their repositories.\<close>

definition store_of :: "UrlCrate \<Rightarrow> RouteConfig \<Rightarrow> string list \<Rightarrow> AuthStore" where
  "store_of uc config local_urls =
     (AuthStore_from_config uc config)\<lparr>as_named_origins :=
       map_option (fold (NamedOrigins_add uc) local_urls) (as_named_origins (AuthStore_from_config uc config))\<rparr>"

lemma store_of_named:
  "\<exists>named. as_named_origins (store_of uc config local_urls) = Some named \<and>
     set (no_origins named) = origins_of uc (named_urls config @ local_urls)"
  by (simp add: store_of_def AuthStore_from_config_def NamedOrigins_fold_set named_urls_def Un_assoc)

lemma map_filter_origins: "set (List.map_filter (http_origin uc) urls) = origins_of uc urls"
  by (induction urls) (auto simp: List.map_filter_simps split: option.splits)

lemma store_of_user: "as_user_origins (store_of uc config local_urls) = Some (List.map_filter (http_origin uc) (cf_user_urls config))"
  by (simp add: store_of_def AuthStore_from_config_def)

section \<open>Mirrors\<close>

text \<open>The entry of a pattern that decides about a repository: its id, or its id excluded.\<close>

definition decides :: "string option \<Rightarrow> string \<Rightarrow> bool" where
  "decides name entry \<longleftrightarrow> (case excluded_entry entry of Some excluded \<Rightarrow> Some excluded = name | None \<Rightarrow> Some entry = name)"

lemma match_entries_decides:
  "match_entries name wild entries matched =
     (case find (decides name) entries of
        Some entry \<Rightarrow> excluded_entry entry = None
      | None \<Rightarrow> matched \<or> list_ex (\<lambda>entry. excluded_entry entry = None \<and> wild entry) entries)"
  by (induction name wild entries matched rule: match_entries.induct)
    (auto simp: decides_def split: option.splits)

lemma resolve_mirror_id:
  assumes "resolve_mirror uc mirrors repo = (endpoint, mirror, host_changed)" and "repo_id endpoint = Some name"
  shows "case mirror of
      None \<Rightarrow> endpoint = repo
    | Some m \<Rightarrow> mi_id m = Some name \<or>
        (mi_id m = None \<and> repo_id repo = Some name \<and> \<not> origins_differ uc (url repo) (mi_url m))"
  using assms by (auto simp: resolve_mirror_def Let_def split: option.splits if_splits)

lemma resolve_mirror_host:
  assumes "resolve_mirror uc mirrors repo = (endpoint, mirror, host_changed)"
  shows "host_changed = (case mirror of None \<Rightarrow> False | Some m \<Rightarrow> origins_differ uc (url repo) (mi_url m))"
    "mirror = None \<Longrightarrow> endpoint = repo" "Repository.more endpoint = Repository.more repo"
  using assms by (auto simp: resolve_mirror_def Let_def split: option.splits)

lemma route_fields:
  assumes "resolve_mirror uc (ru_mirrors router) repo = (endpoint, mirror, host_changed)"
  shows "ro_endpoint (route uc router repo) = endpoint" "ro_mirror (route uc router repo) = mirror"
    "ro_auth (route uc router repo) = None" "host_changed \<Longrightarrow> ro_cross_origin (route uc router repo)"
  using assms by (simp_all add: route_def)

lemma route_auth_sent:
  assumes "route_auth uc env store r = (Inr (Some a), r')" and "ro_auth r = None"
  shows "lookup_auth uc env store (ro_endpoint r) (ro_cross_origin r) = Inr (Some a)"
    "\<And>m. ro_mirror r = Some m \<Longrightarrow> \<not> blocked m" "ro_endpoint r' = ro_endpoint r" "ro_mirror r' = ro_mirror r"
  using assms by (auto simp: route_auth_def split: option.splits if_splits sum.splits)

section \<open>Where a credential goes\<close>

lemma credential_sent:
  assumes "route_auth uc env (store_of uc config local_urls) (route uc (Router_from_config uc config) repo) =
      (Inr (Some a), r)"
  shows "(\<forall>m. ro_mirror r = Some m \<longrightarrow> \<not> blocked m) \<and>
    (case sc_id (a_sent a) of
       None \<Rightarrow>
         (\<exists>origin \<in> origins_of uc (cf_user_urls config). http_origin uc (url (ro_endpoint r)) = Some origin) \<and>
         (case ro_mirror r of None \<Rightarrow> ro_endpoint r = repo | Some m \<Rightarrow> \<not> origins_differ uc (url repo) (mi_url m))
     | Some name \<Rightarrow>
         (case ro_mirror r of
            None \<Rightarrow> ro_endpoint r = repo \<and> repo_id repo = Some name
          | Some m \<Rightarrow> mi_id m = Some name \<or>
              (mi_id m = None \<and> repo_id repo = Some name \<and> \<not> origins_differ uc (url repo) (mi_url m))) \<and>
         (provenance repo = FetchedPom \<longrightarrow>
            (\<exists>origin \<in> origins_of uc (named_urls config @ local_urls).
               http_origin uc (url (ro_endpoint r)) = Some origin)))"
proof -
  let ?router = "Router_from_config uc config" and ?store = "store_of uc config local_urls"
  obtain endpoint mirror host_changed where
    mirrored: "resolve_mirror uc (ru_mirrors ?router) repo = (endpoint, mirror, host_changed)" by (metis prod_cases3)
  note route = route_fields [OF mirrored]
  note sent = route_auth_sent [OF assms route(3)]
  have r: "ro_endpoint r = endpoint" "ro_mirror r = mirror" using sent(3,4) route(1,2) by simp_all
  note looked = lookup_auth_sent [OF sent(1), unfolded route(1)]
  have same: "provenance endpoint = provenance repo"
    using resolve_mirror_host(3) [OF mirrored] by (metis DeclaredRepository.ext_inject DeclaredRepository.surjective Repository.surjective Repository.ext_inject DeclaredRepository.select_convs(1))
  obtain named where named: "as_named_origins ?store = Some named"
    "set (no_origins named) = origins_of uc (named_urls config @ local_urls)" using store_of_named by blast
  have "\<exists>origin \<in> origins_of uc (cf_user_urls config). http_origin uc (url endpoint) = Some origin"
    if "\<not> withholds_default_credential uc ?store endpoint"
    using that by (auto simp: withholds_default_credential_def store_of_user map_filter_origins split: option.splits)
  moreover have "\<exists>origin \<in> origins_of uc (named_urls config @ local_urls). http_origin uc (url endpoint) = Some origin"
    if "\<not> withholds_id_credential uc ?store endpoint" "provenance repo = FetchedPom"
    using that same named by (auto simp: withholds_id_credential_def split: option.splits if_splits)
  moreover have "case mirror of None \<Rightarrow> endpoint = repo | Some m \<Rightarrow> \<not> origins_differ uc (url repo) (mi_url m)"
    if "\<not> ro_cross_origin (route uc ?router repo)"
    using that route(4) resolve_mirror_host(1,2) [OF mirrored] by (auto split: option.splits)
  moreover note resolve_mirror_id [OF mirrored]
  ultimately show ?thesis
    using looked sent(2) route(2) r by (auto split: option.splits)
qed

text \<open>A configuration of one repository with a mirror of everything on another host, and a default credential.\<close>

definition https_url :: "string \<Rightarrow> string \<Rightarrow> Url" where
  "https_url host path =
     \<lparr>u_scheme = ''https'', u_host = Some host, u_port = Some 443, u_path = path, u_text = ''https://'' @ host @ path,
      u_origin = ''https://'' @ host\<rparr>"

definition example_crate :: UrlCrate where
  "example_crate =
     \<lparr>parse_url = \<lambda>s.
        Option.bind (strip_prefix ''https://'' s) (\<lambda>rest.
          map_option (\<lambda>(host, path). https_url host (''/'' @ path)) (split_once CHR ''/'' rest)),
      set_path = \<lambda>u path. u\<lparr>u_path := path\<rparr>\<rparr>"

definition corporate :: "MirrorConfig list \<Rightarrow> RouteConfig" where
  "corporate mirrors =
     \<lparr>cf_repositories = [''https://nexus.corp/maven/''], cf_mirrors = mirrors,
      cf_user_urls = [''https://nexus.corp/maven/''], cf_security = \<lparr>allow_env_substitution = [], allow_transitive_repositories = False, transitive_repository_allowlist = []\<rparr>,
      cf_auth = \<lparr>project_auth = [],
        user_auth = [\<lparr>au_id = None, au_username = None, au_password = None, au_token = Some ''t0ken''\<rparr>],
        settings_auth = []\<rparr>\<rparr>"

definition corporate_repository :: DeclaredRepository where
  "corporate_repository =
     \<lparr>repo_id = Some ''corp'', url = ''https://nexus.corp/maven/'', releases_enabled = True, snapshots_enabled = False,
      snapshots_update_policy = Daily, releases_update_policy = Daily, releases_checksum_policy = Warn,
      snapshots_checksum_policy = Warn, provenance = FetchedPom\<rparr>"

definition foreign_mirror :: MirrorConfig where
  "foreign_mirror =
     \<lparr>mi_id = None, mi_url = ''https://cdn.example/maven/'', mirror_of = [''*''], mirror_of_layouts = None,
      blocked = False\<rparr>"

lemma foreign_mirror_gets_none:
  "fst (route_auth example_crate (\<lambda>_. None) (store_of example_crate (corporate [foreign_mirror]) [])
     (route example_crate (Router_from_config example_crate (corporate [foreign_mirror])) corporate_repository)) = Inr None"
  by code_simp

lemma corporate_direct:
  "ro_mirror (route example_crate (Router_from_config example_crate (corporate [])) corporate_repository) = None"
  "ro_endpoint (route example_crate (Router_from_config example_crate (corporate [])) corporate_repository) = corporate_repository"
  by code_simp+

end
