(* ===== verification/Repository_Admission.thy ===== *)
theory Repository_Admission
  imports Repository_Routing "HOL-Library.Sublist" "HOL-Library.Multiset"
begin

text \<open>
  Which of the repositories that POMs declare may be used, and what they may do: \<^verbatim>\<open>rv-repo/src/policy.rs\<close>, the grants of
  \<^verbatim>\<open>rv-repo/src/transport\<close> and the allowlist of \<^verbatim>\<open>rv-config/src/config.rs\<close>. The sets of the grants are lists without
  repetition. Whether a URL may hold a secret (\<^verbatim>\<open>secret_url_refusal\<close>) is a parameter, any test of URLs.
\<close>

section \<open>Definitions\<close>

subsection \<open>The allowlist\<close>

definition parse_url_origin :: "UrlCrate \<Rightarrow> string \<Rightarrow> Url option" where
  "parse_url_origin uc raw =
     Option.bind (parse_url uc raw) (\<lambda>u.
       if u_scheme u \<in> set [''http'', ''https''] \<and> u_host u \<noteq> None then Some u else None)"

text \<open>Two origins of HTTP URLs are the same exactly when their texts are.\<close>

definition url_origin_matches :: "Url \<Rightarrow> Url \<Rightarrow> bool" where
  "url_origin_matches allowed candidate =
     (if u_origin allowed \<noteq> u_origin candidate then False
      else let allowed_path = u_path allowed; candidate_path = u_path candidate in
        candidate_path = allowed_path \<or>
        (starts_with allowed_path candidate_path \<and>
         (ends_with ''/'' allowed_path \<or> starts_with ''/'' (drop (length allowed_path) candidate_path))))"

definition allows_transitive_repo_url :: "UrlCrate \<Rightarrow> SecurityConfig \<Rightarrow> string \<Rightarrow> bool" where
  "allows_transitive_repo_url uc security raw =
     (case parse_url_origin uc raw of
        None \<Rightarrow> False
      | Some candidate \<Rightarrow>
          if allow_transitive_repositories security then True
          else list_ex (\<lambda>allowed. url_origin_matches allowed candidate)
            (List.map_filter (parse_url_origin uc) (transitive_repository_allowlist security)))"

subsection \<open>Screening\<close>

datatype Declaration = LocalDeclaration | RemoteParent | Transitive

record Admission =
  admitted :: "DeclaredRepository list"
  dropped :: "DeclaredRepository list"
  secret_urls :: "DeclaredRepository list"
  blocked_http :: "DeclaredRepository list"

definition http_repository_blocked :: "UrlCrate \<Rightarrow> RouteConfig \<Rightarrow> DeclaredRepository \<Rightarrow> bool" where
  "http_repository_blocked uc config repo =
     (\<not> (\<not> (case parse_url uc (url repo) of Some u \<Rightarrow> u_scheme u = ''http'' | None \<Rightarrow> False) \<or>
         \<not> is_external_http_repo uc (url repo) \<or>
         list_ex (\<lambda>u. normalize_repo_url uc u = normalize_repo_url uc (url repo)) (cf_repositories config) \<or>
         fst (snd (resolve_mirror uc (cf_mirrors config) repo)) \<noteq> None))"

fun declared_provenance :: "Declaration \<Rightarrow> Provenance" where
  "declared_provenance LocalDeclaration = LocalPom"
| "declared_provenance RemoteParent = FetchedPom"
| "declared_provenance Transitive = FetchedPom"

fun admits_from :: "UrlCrate \<Rightarrow> RouteConfig \<Rightarrow> Declaration \<Rightarrow> string \<Rightarrow> bool" where
  "admits_from uc config LocalDeclaration raw = True"
| "admits_from uc config RemoteParent raw =
     (case parse_url uc raw of Some u \<Rightarrow> u_scheme u \<in> set [''http'', ''https''] | None \<Rightarrow> False)"
| "admits_from uc config Transitive raw = allows_transitive_repo_url uc (cf_security config) raw"

definition screen_repo ::
  "UrlCrate \<Rightarrow> RouteConfig \<Rightarrow> (string \<Rightarrow> bool) \<Rightarrow> Declaration \<Rightarrow> DeclaredRepository \<Rightarrow> Admission \<Rightarrow> Admission" where
  "screen_repo uc config refuses from' repo admission =
     (let repo = repo\<lparr>provenance := declared_provenance from'\<rparr> in
      if refuses (url repo) then admission\<lparr>secret_urls := secret_urls admission @ [repo]\<rparr>
      else if http_repository_blocked uc config repo
      then admission\<lparr>blocked_http := blocked_http admission @ [repo]\<rparr>
      else if admits_from uc config from' (url repo)
      then admission\<lparr>admitted := admitted admission @ [repo]\<rparr>
      else admission\<lparr>dropped := dropped admission @ [repo]\<rparr>)"

definition screen_with ::
  "UrlCrate \<Rightarrow> RouteConfig \<Rightarrow> (string \<Rightarrow> bool) \<Rightarrow> DeclaredRepository list \<Rightarrow> Declaration \<Rightarrow> Admission" where
  "screen_with uc config refuses repos from' =
     fold (screen_repo uc config refuses from') repos
       \<lparr>admitted = [], dropped = [], secret_urls = [], blocked_http = []\<rparr>"

subsection \<open>Grants\<close>

record Grants =
  trusted_origins :: "string list"
  trusted_hosts :: "string list"
  root_issuers :: "string list"

definition parsed_origin :: "UrlCrate \<Rightarrow> string \<Rightarrow> (Url \<times> string) option" where
  "parsed_origin uc raw =
     Option.bind (parse_url uc raw) (\<lambda>u.
       if u_scheme u \<in> set [''http'', ''https''] then Some (u, u_origin u) else None)"

definition normalized_host :: "string \<Rightarrow> string" where
  "normalized_host host =
     to_ascii_lowercase (rev (dropWhile (\<lambda>c. c = CHR '']'') (rev (dropWhile (\<lambda>c. c = CHR ''['') (trim host)))))"

definition exempt :: "UrlCrate \<Rightarrow> string \<Rightarrow> Grants \<Rightarrow> Grants" where
  "exempt uc raw grants =
     (case parsed_origin uc raw of
        None \<Rightarrow> grants
      | Some (u, origin) \<Rightarrow>
          let grants = (case u_host u of
                None \<Rightarrow> grants
              | Some host \<Rightarrow> grants\<lparr>trusted_hosts := push_new (normalized_host host) (trusted_hosts grants)\<rparr>)
          in grants\<lparr>trusted_origins := push_new origin (trusted_origins grants)\<rparr>)"

definition authorize_issuer :: "UrlCrate \<Rightarrow> string \<Rightarrow> Grants \<Rightarrow> Grants" where
  "authorize_issuer uc raw grants =
     (case parsed_origin uc raw of
        None \<Rightarrow> grants
      | Some (u, origin) \<Rightarrow> grants\<lparr>root_issuers := push_new origin (root_issuers grants)\<rparr>)"

text \<open>
  A policy, with what it shares: the grants with the clients of its transport, the named origins with the store of
  credentials.
\<close>

record RepositoryPolicy =
  rp_config :: RouteConfig
  rp_refuses :: "string \<Rightarrow> bool"
  rp_grants :: Grants
  rp_named_origins :: "NamedOrigins option"

definition grant :: "UrlCrate \<Rightarrow> DeclaredRepository \<Rightarrow> RepositoryPolicy \<Rightarrow> RepositoryPolicy" where
  "grant uc repo policy =
     (let fetched = (provenance repo = FetchedPom);
          policy = (if \<not> fetched \<or> allows_transitive_repo_url uc (cf_security (rp_config policy)) (url repo)
                    then policy\<lparr>rp_grants := exempt uc (url repo) (rp_grants policy)\<rparr> else policy)
      in if \<not> fetched
         then policy\<lparr>rp_grants := authorize_issuer uc (url repo) (rp_grants policy),
                     rp_named_origins := map_option (NamedOrigins_add uc (url repo)) (rp_named_origins policy)\<rparr>
         else policy)"

definition admit ::
  "UrlCrate \<Rightarrow> DeclaredRepository list \<Rightarrow> Declaration \<Rightarrow> RepositoryPolicy \<Rightarrow> Admission \<times> RepositoryPolicy" where
  "admit uc repos from' policy =
     (let admission = screen_with uc (rp_config policy) (rp_refuses policy) repos from'
      in (admission, fold (grant uc) (admitted admission) policy))"

text \<open>A resolution admits the repositories of one POM after the other.\<close>

definition admit_all ::
  "UrlCrate \<Rightarrow> (DeclaredRepository list \<times> Declaration) list \<Rightarrow> RepositoryPolicy \<Rightarrow> RepositoryPolicy" where
  "admit_all uc poms policy = fold (\<lambda>(repos, from') policy. snd (admit uc repos from' policy)) poms policy"

section \<open>What screening admits\<close>

text \<open>The list a repository goes to.\<close>

definition admissible :: "UrlCrate \<Rightarrow> RouteConfig \<Rightarrow> (string \<Rightarrow> bool) \<Rightarrow> Declaration \<Rightarrow> DeclaredRepository \<Rightarrow> bool" where
  "admissible uc config refuses from' repo \<longleftrightarrow>
     \<not> refuses (url repo) \<and> \<not> http_repository_blocked uc config repo \<and> admits_from uc config from' (url repo)"

definition declare_from :: "Declaration \<Rightarrow> DeclaredRepository \<Rightarrow> DeclaredRepository" where
  "declare_from from' repo = repo\<lparr>provenance := declared_provenance from'\<rparr>"

lemma declare_from_keeps [simp]:
  "url (declare_from from' repo) = url repo" "provenance (declare_from from' repo) = declared_provenance from'"
  by (simp_all add: declare_from_def)

lemma declare_from_fun: "declare_from from' = (\<lambda>repo. repo\<lparr>provenance := declared_provenance from'\<rparr>)"
  by (rule ext) (simp add: declare_from_def)

lemma screen_fold:
  "admitted (fold (screen_repo uc config refuses from') repos a) =
     admitted a @ filter (admissible uc config refuses from') (map (declare_from from') repos)"
  "secret_urls (fold (screen_repo uc config refuses from') repos a) =
     secret_urls a @ filter (\<lambda>r. refuses (url r)) (map (declare_from from') repos)"
  "blocked_http (fold (screen_repo uc config refuses from') repos a) =
     blocked_http a @ filter (\<lambda>r. \<not> refuses (url r) \<and> http_repository_blocked uc config r) (map (declare_from from') repos)"
  "dropped (fold (screen_repo uc config refuses from') repos a) =
     dropped a @ filter (\<lambda>r. \<not> refuses (url r) \<and> \<not> http_repository_blocked uc config r \<and>
       \<not> admits_from uc config from' (url r)) (map (declare_from from') repos)"
  by (induction repos arbitrary: a) (simp_all add: screen_repo_def Let_def admissible_def flip: declare_from_def)

lemmas screen_with_lists = screen_fold [of uc config refuses from' repos "\<lparr>admitted = [], dropped = [], secret_urls = [], blocked_http = []\<rparr>",
    folded screen_with_def, simplified] for uc config refuses from' repos

lemma screened_mset:
  "mset (map (declare_from from') repos) =
     mset (admitted (screen_with uc config refuses repos from')) + mset (dropped (screen_with uc config refuses repos from')) +
     mset (secret_urls (screen_with uc config refuses repos from')) + mset (blocked_http (screen_with uc config refuses repos from'))"
  unfolding screen_with_lists by (induction repos) (auto simp: admissible_def)

text \<open>The path of a URL below the path of another: the same, or continued after a slash.\<close>

definition path_below :: "string \<Rightarrow> string \<Rightarrow> bool" where
  "path_below parent path \<longleftrightarrow> (\<exists>rest. path = parent @ rest \<and> (rest = [] \<or> ends_with ''/'' parent \<or> starts_with ''/'' rest))"

lemma url_origin_matches_below:
  "url_origin_matches allowed candidate \<longleftrightarrow> u_origin allowed = u_origin candidate \<and> path_below (u_path allowed) (u_path candidate)"
  by (auto simp: url_origin_matches_def path_below_def Let_def starts_with_iff)

text \<open>An entry of the allowlist has the origin of a URL and a path above the URL's.\<close>

definition listed_above :: "UrlCrate \<Rightarrow> SecurityConfig \<Rightarrow> string \<Rightarrow> bool" where
  "listed_above uc security raw \<longleftrightarrow>
     (\<exists>u entry allowed. parse_url uc raw = Some u \<and> entry \<in> set (transitive_repository_allowlist security) \<and>
       parse_url uc entry = Some allowed \<and> u_origin allowed = u_origin u \<and> path_below (u_path allowed) (u_path u))"

lemma list_ex_map_filter: "list_ex P (List.map_filter f xs) \<longleftrightarrow> (\<exists>x y. x \<in> set xs \<and> f x = Some y \<and> P y)"
  by (induction xs) (auto simp: List.map_filter_simps split: option.splits)

lemma parse_url_origin_Some:
  "parse_url_origin uc raw = Some u \<longleftrightarrow>
     parse_url uc raw = Some u \<and> u_scheme u \<in> {''http'', ''https''} \<and> u_host u \<noteq> None"
  by (auto simp: parse_url_origin_def bind_eq_Some_conv split: if_splits)

lemma allows_transitive_repo_url_listed:
  assumes "allows_transitive_repo_url uc security raw"
  shows "(\<exists>u. parse_url uc raw = Some u \<and> u_scheme u \<in> {''http'', ''https''}) \<and>
    (allow_transitive_repositories security \<or> listed_above uc security raw)"
proof -
  obtain u where u: "parse_url_origin uc raw = Some u"
    "allow_transitive_repositories security \<or> list_ex (\<lambda>allowed. url_origin_matches allowed u)
      (List.map_filter (parse_url_origin uc) (transitive_repository_allowlist security))"
    using assms by (auto simp: allows_transitive_repo_url_def split: option.splits if_splits)
  then show ?thesis
    unfolding list_ex_map_filter parse_url_origin_Some url_origin_matches_below listed_above_def by blast
qed

lemma admits_from_http:
  "admits_from uc config from' raw \<Longrightarrow> from' = RemoteParent \<or> from' = Transitive \<Longrightarrow>
     \<exists>u. parse_url uc raw = Some u \<and> (u_scheme u = ''http'' \<or> u_scheme u = ''https'')"
  by (cases from') (auto dest: allows_transitive_repo_url_listed split: option.splits)

lemma admits_from_listed:
  "admits_from uc config Transitive raw \<Longrightarrow> \<not> allow_transitive_repositories (cf_security config) \<Longrightarrow>
     listed_above uc (cf_security config) raw"
  by (auto dest: allows_transitive_repo_url_listed)

lemma not_blocked_http:
  "\<not> http_repository_blocked uc config repo \<Longrightarrow> parse_url uc (url repo) = Some u \<Longrightarrow> u_scheme u = ''http'' \<Longrightarrow> \<not> is_local_host u \<Longrightarrow>
     (\<exists>configured \<in> set (cf_repositories config). normalize_repo_url uc configured = normalize_repo_url uc (url repo)) \<or>
     (\<exists>m. matching_mirror uc (cf_mirrors config) repo = Some m)"
  by (auto simp: http_repository_blocked_def is_external_http_repo_def list_ex_iff resolve_mirror_def Let_def split: option.splits)

text \<open>
  Property C13. The repositories a POM declares are sorted into the admitted and three kinds of refused ones: none is lost, none
  is listed twice, and the admitted ones keep their order. An admitted repository has a URL without a secret and the
  provenance of its POM. If a fetched POM declared it, it is on HTTP or HTTPS; if a dependency or a BOM did and the
  configuration does not allow all such repositories, an entry of the allowlist has its origin and a path
  above its path, at a segment boundary. Plain HTTP to another host than this one is admitted only where the configuration names
  the URL or a mirror for it.
\<close>

theorem admission_screens:
  assumes "screen_with uc config refuses repos from' = admission"
  shows "mset (admitted admission @ dropped admission @ secret_urls admission @ blocked_http admission) =
      mset (map (\<lambda>repo. repo\<lparr>provenance := declared_provenance from'\<rparr>) repos) \<and>
    subseq (admitted admission) (map (\<lambda>repo. repo\<lparr>provenance := declared_provenance from'\<rparr>) repos) \<and>
    (\<forall>repo \<in> set (admitted admission).
      \<not> refuses (url repo) \<and> provenance repo = declared_provenance from' \<and>
      (from' = RemoteParent \<or> from' = Transitive \<longrightarrow>
        (\<exists>u. parse_url uc (url repo) = Some u \<and> u_scheme u \<in> {''http'', ''https''})) \<and>
      (from' = Transitive \<and> \<not> allow_transitive_repositories (cf_security config) \<longrightarrow>
        listed_above uc (cf_security config) (url repo)) \<and>
      (\<forall>u. parse_url uc (url repo) = Some u \<and> u_scheme u = ''http'' \<and> \<not> is_local_host u \<longrightarrow>
        (\<exists>configured \<in> set (cf_repositories config). normalize_repo_url uc configured = normalize_repo_url uc (url repo)) \<or>
        matching_mirror uc (cf_mirrors config) repo \<noteq> None))"
proof (intro conjI)
  show "mset (admitted admission @ dropped admission @ secret_urls admission @ blocked_http admission) =
      mset (map (\<lambda>repo. repo\<lparr>provenance := declared_provenance from'\<rparr>) repos)"
    using screened_mset [of from' repos uc config refuses] assms by (simp add: declare_from_fun)
  show "subseq (admitted admission) (map (\<lambda>repo. repo\<lparr>provenance := declared_provenance from'\<rparr>) repos)"
    unfolding assms [symmetric] screen_with_lists by (simp add: declare_from_fun)
  show "\<forall>repo \<in> set (admitted admission).
      \<not> refuses (url repo) \<and> provenance repo = declared_provenance from' \<and>
      (from' = RemoteParent \<or> from' = Transitive \<longrightarrow>
        (\<exists>u. parse_url uc (url repo) = Some u \<and> u_scheme u \<in> {''http'', ''https''})) \<and>
      (from' = Transitive \<and> \<not> allow_transitive_repositories (cf_security config) \<longrightarrow>
        listed_above uc (cf_security config) (url repo)) \<and>
      (\<forall>u. parse_url uc (url repo) = Some u \<and> u_scheme u = ''http'' \<and> \<not> is_local_host u \<longrightarrow>
        (\<exists>configured \<in> set (cf_repositories config). normalize_repo_url uc configured = normalize_repo_url uc (url repo)) \<or>
        matching_mirror uc (cf_mirrors config) repo \<noteq> None)"
    unfolding assms [symmetric] screen_with_lists
    by (auto simp: admissible_def dest: admits_from_http admits_from_listed not_blocked_http)
qed

section \<open>What POMs gain\<close>

definition grant_origins :: "UrlCrate \<Rightarrow> string set \<Rightarrow> string set" where
  "grant_origins uc urls = {origin. \<exists>raw \<in> urls. \<exists>u. parsed_origin uc raw = Some (u, origin)}"

text \<open>The URLs that the POMs of one kind declare.\<close>

definition local_urls :: "(DeclaredRepository list \<times> Declaration) list \<Rightarrow> string list" where
  "local_urls poms = concat (map (\<lambda>(repos, from'). if from' = LocalDeclaration then map url repos else []) poms)"

definition allowed_urls :: "UrlCrate \<Rightarrow> SecurityConfig \<Rightarrow> (DeclaredRepository list \<times> Declaration) list \<Rightarrow> string set" where
  "allowed_urls uc security poms = {raw. \<exists>(repos, from') \<in> set poms. raw \<in> url ` set repos \<and> allows_transitive_repo_url uc security raw}"

lemma push_new_set [simp]: "set (push_new x xs) = insert x (set xs)"
  by (auto simp: push_new_def)

lemma exempt_sets:
  "set (trusted_origins (exempt uc raw g)) = set (trusted_origins g) \<union> grant_origins uc {raw}"
  "root_issuers (exempt uc raw g) = root_issuers g"
  by (auto simp: exempt_def grant_origins_def Let_def split: option.splits)

lemma authorize_issuer_sets:
  "set (root_issuers (authorize_issuer uc raw g)) = set (root_issuers g) \<union> grant_origins uc {raw}"
  "trusted_origins (authorize_issuer uc raw g) = trusted_origins g"
  by (auto simp: authorize_issuer_def grant_origins_def split: option.splits)

lemma grant_sets:
  "rp_config (grant uc repo policy) = rp_config policy" "rp_refuses (grant uc repo policy) = rp_refuses policy"
  "set (root_issuers (rp_grants (grant uc repo policy))) =
     set (root_issuers (rp_grants policy)) \<union> (if provenance repo = FetchedPom then {} else grant_origins uc {url repo})"
  "set (trusted_origins (rp_grants (grant uc repo policy))) =
     set (trusted_origins (rp_grants policy)) \<union>
     (if provenance repo \<noteq> FetchedPom \<or> allows_transitive_repo_url uc (cf_security (rp_config policy)) (url repo)
      then grant_origins uc {url repo} else {})"
  "rp_named_origins (grant uc repo policy) =
     (if provenance repo = FetchedPom then rp_named_origins policy
      else map_option (NamedOrigins_add uc (url repo)) (rp_named_origins policy))"
  by (simp_all add: grant_def Let_def exempt_sets authorize_issuer_sets)

lemma grant_origins_simps [simp]:
  "grant_origins uc {} = {}" "grant_origins uc (A \<union> B) = grant_origins uc A \<union> grant_origins uc B"
  "grant_origins uc (insert raw A) = grant_origins uc {raw} \<union> grant_origins uc A"
  by (auto simp: grant_origins_def)

lemma grant_origins_mono: "A \<subseteq> B \<Longrightarrow> grant_origins uc A \<subseteq> grant_origins uc B"
  by (auto simp: grant_origins_def)

lemma local_urls_simps [simp]:
  "local_urls [] = []"
  "local_urls ((repos, from') # poms) = (if from' = LocalDeclaration then map url repos else []) @ local_urls poms"
  by (simp_all add: local_urls_def)

lemma grants_fold_keeps:
  "rp_config (fold (grant uc) repos policy) = rp_config policy" "rp_refuses (fold (grant uc) repos policy) = rp_refuses policy"
  by (induction repos arbitrary: policy) (simp_all add: grant_sets)

lemma grants_fold_issuers:
  "set (root_issuers (rp_grants (fold (grant uc) repos policy))) = set (root_issuers (rp_grants policy)) \<union>
     grant_origins uc {url repo |repo. repo \<in> set repos \<and> provenance repo \<noteq> FetchedPom}"
  by (induction repos arbitrary: policy) (auto simp: grant_sets grant_origins_def)

lemma grants_fold_trusted:
  "set (trusted_origins (rp_grants (fold (grant uc) repos policy))) = set (trusted_origins (rp_grants policy)) \<union>
     grant_origins uc {url repo |repo. repo \<in> set repos \<and>
       (provenance repo \<noteq> FetchedPom \<or> allows_transitive_repo_url uc (cf_security (rp_config policy)) (url repo))}"
  by (induction repos arbitrary: policy) (auto simp: grant_sets grant_origins_def)

lemma grants_fold_named:
  "rp_named_origins (fold (grant uc) repos policy) =
     map_option (fold (NamedOrigins_add uc) (map url (filter (\<lambda>repo. provenance repo \<noteq> FetchedPom) repos)))
       (rp_named_origins policy)"
  by (induction repos arbitrary: policy) (simp_all add: grant_sets option.map_comp comp_def option.map_id option.map_ident)

text \<open>The repositories of the project's own POMs that are admitted, in the order of the POMs.\<close>

definition local_admitted ::
  "UrlCrate \<Rightarrow> RouteConfig \<Rightarrow> (string \<Rightarrow> bool) \<Rightarrow> (DeclaredRepository list \<times> Declaration) list \<Rightarrow> string list" where
  "local_admitted uc config refuses poms =
     concat (map (\<lambda>(repos, from'). if from' = LocalDeclaration
       then map url (admitted (screen_with uc config refuses repos from')) else []) poms)"

lemma admitted_provenance:
  "filter (\<lambda>repo. provenance repo \<noteq> FetchedPom) (admitted (screen_with uc config refuses repos from')) =
     (if from' = LocalDeclaration then admitted (screen_with uc config refuses repos from') else [])"
  by (cases from') (auto simp: screen_with_lists filter_empty_conv intro!: filter_cong)

lemma admit_all_keeps:
  "rp_config (admit_all uc poms policy) = rp_config policy" "rp_refuses (admit_all uc poms policy) = rp_refuses policy"
  by (induction poms arbitrary: policy) (auto simp: admit_all_def admit_def Let_def grants_fold_keeps)

lemma admit_all_Cons [simp]:
  "admit_all uc [] policy = policy"
  "admit_all uc ((repos, from') # poms) policy =
     admit_all uc poms (fold (grant uc) (admitted (screen_with uc (rp_config policy) (rp_refuses policy) repos from')) policy)"
  by (simp_all add: admit_all_def admit_def Let_def)

lemma admit_all_named:
  "rp_named_origins (admit_all uc poms policy) =
     map_option (fold (NamedOrigins_add uc) (local_admitted uc (rp_config policy) (rp_refuses policy) poms))
       (rp_named_origins policy)"
proof (induction poms arbitrary: policy)
  case Nil
  then show ?case by (simp add: local_admitted_def option.map_id option.map_ident)
next
  case (Cons pom poms)
  obtain repos from' where pom: "pom = (repos, from')" by (cases pom)
  show ?case
    unfolding pom admit_all_Cons Cons.IH
    by (simp add: grants_fold_keeps grants_fold_named admitted_provenance option.map_comp comp_def option.map_ident)
      (simp add: local_admitted_def)
qed

lemma local_admitted_origins: "origins_of uc (local_admitted uc config refuses poms) \<subseteq> origins_of uc (local_urls poms)"
  unfolding origins_of_def local_admitted_def local_urls_def by (fastforce simp: screen_with_lists split: if_splits)

lemma admit_all_issuers:
  "set (root_issuers (rp_grants (admit_all uc poms policy))) \<subseteq>
     set (root_issuers (rp_grants policy)) \<union> grant_origins uc (set (local_urls poms))"
proof (induction poms arbitrary: policy)
  case (Cons pom poms)
  obtain repos from' where pom: "pom = (repos, from')" by (cases pom)
  let ?admitted = "admitted (screen_with uc (rp_config policy) (rp_refuses policy) repos from')"
  have "grant_origins uc {url repo |repo. repo \<in> set ?admitted \<and> provenance repo \<noteq> FetchedPom} \<subseteq>
      grant_origins uc (set (local_urls (pom # poms)))"
    by (cases from') (auto simp: pom grant_origins_def screen_with_lists)
  moreover have "grant_origins uc (set (local_urls poms)) \<subseteq> grant_origins uc (set (local_urls (pom # poms)))"
    by (auto simp: pom grant_origins_def)
  ultimately show ?case
    using Cons.IH [of "fold (grant uc) ?admitted policy"] unfolding pom admit_all_Cons grants_fold_issuers by blast
qed simp

lemma admit_all_trusted:
  "set (trusted_origins (rp_grants (admit_all uc poms policy))) \<subseteq>
     set (trusted_origins (rp_grants policy)) \<union> grant_origins uc (set (local_urls poms)) \<union>
     grant_origins uc (allowed_urls uc (cf_security (rp_config policy)) poms)"
proof (induction poms arbitrary: policy)
  case (Cons pom poms)
  obtain repos from' where pom: "pom = (repos, from')" by (cases pom)
  let ?security = "cf_security (rp_config policy)"
  let ?admitted = "admitted (screen_with uc (rp_config policy) (rp_refuses policy) repos from')"
  have "grant_origins uc {url repo |repo. repo \<in> set ?admitted \<and>
        (provenance repo \<noteq> FetchedPom \<or> allows_transitive_repo_url uc ?security (url repo))} \<subseteq>
      grant_origins uc (set (local_urls (pom # poms))) \<union> grant_origins uc (allowed_urls uc ?security (pom # poms))"
    by (cases from') (auto simp: pom grant_origins_def screen_with_lists allowed_urls_def)
  moreover have "grant_origins uc (set (local_urls poms)) \<subseteq> grant_origins uc (set (local_urls (pom # poms)))"
    "grant_origins uc (allowed_urls uc ?security poms) \<subseteq> grant_origins uc (allowed_urls uc ?security (pom # poms))"
    by (auto simp: pom allowed_urls_def intro!: grant_origins_mono)
  ultimately show ?case
    using Cons.IH [of "fold (grant uc) ?admitted policy"] unfolding pom admit_all_Cons grants_fold_trusted
    by (simp add: grants_fold_keeps) blast
qed simp

section \<open>Properties\<close>

text \<open>
  Property C14. Whatever POMs a resolution admits repositories of, and in which order, a POM fetched from a repository gains
  nothing that the configuration does not allow. Only the origins of repositories that the project's own POMs declare
  become issuers of redirects and named origins of credentials. Only these and the origins of URLs that the
  configuration allows dependencies to declare become trusted for direct connections to private addresses.
\<close>

theorem fetched_poms_gain_nothing:
  "set (root_issuers (rp_grants (admit_all uc poms policy))) \<subseteq>
     set (root_issuers (rp_grants policy)) \<union> grant_origins uc (set (local_urls poms)) \<and>
   set (trusted_origins (rp_grants (admit_all uc poms policy))) \<subseteq>
     set (trusted_origins (rp_grants policy)) \<union> grant_origins uc (set (local_urls poms)) \<union>
     grant_origins uc (allowed_urls uc (cf_security (rp_config policy)) poms) \<and>
   (case rp_named_origins policy of
      None \<Rightarrow> rp_named_origins (admit_all uc poms policy) = None
    | Some named \<Rightarrow> (\<exists>named'. rp_named_origins (admit_all uc poms policy) = Some named' \<and>
        set (no_origins named) \<subseteq> set (no_origins named') \<and>
        set (no_origins named') \<subseteq> set (no_origins named) \<union> origins_of uc (local_urls poms)))"
  using admit_all_issuers admit_all_trusted local_admitted_origins
  by (fastforce simp: admit_all_named NamedOrigins_fold_set split: option.splits)

text \<open>
  Property C3. A credential goes only where the user's configuration lets it go, whatever repositories the POMs of a resolution
  declare and whichever mirror serves them. A blocked mirror gets none. The default credential, which names no
  repository, goes only to an origin that the user's own files name, and never to a mirror on another scheme, host
  or port than the repository's. A credential with an id goes to the repository of that id, to a mirror that is
  configured with that id, or to a mirror without an id on the repository's own origin; and if a POM fetched from a
  repository declared the repository, only to an origin that the configuration names or a repository of
  the project's own POMs has.
\<close>

theorem credentials_stay_home:
  assumes "rp_named_origins policy = as_named_origins (AuthStore_from_config uc config)"
    and "store = (AuthStore_from_config uc config)\<lparr>as_named_origins := rp_named_origins (admit_all uc poms policy)\<rparr>"
    and "route_auth uc env store (route uc (Router_from_config uc config) repo) = (Inr (Some a), r)"
  shows "(\<forall>m. ro_mirror r = Some m \<longrightarrow> \<not> blocked m) \<and>
    (case sc_id (a_sent a) of
       None \<Rightarrow>
         (\<exists>origin \<in> origins_of uc (cf_user_urls config). http_origin uc (url (ro_endpoint r)) = Some origin) \<and>
         (case ro_mirror r of None \<Rightarrow> ro_endpoint r = repo | Some m \<Rightarrow> \<not> origins_differ uc (url repo) (mi_url m))
     | Some name \<Rightarrow>
         (case ro_mirror r of
            None \<Rightarrow> ro_endpoint r = repo \<and> repo_id repo = Some name
          | Some m \<Rightarrow> mi_id m = Some name \<or>
              (mi_id m = None \<and> repo_id repo = Some name \<and> \<not> origins_differ uc (url repo) (mi_url m))) \<and>
         (provenance repo = FetchedPom \<longrightarrow>
            (\<exists>origin \<in> origins_of uc (named_urls config @ local_urls poms).
               http_origin uc (url (ro_endpoint r)) = Some origin)))"
proof -
  let ?local = "local_admitted uc (rp_config policy) (rp_refuses policy) poms"
  have "store = store_of uc config ?local" unfolding assms(2) store_of_def admit_all_named assms(1) ..
  note sent = credential_sent [OF assms(3) [unfolded this]]
  have "origins_of uc (named_urls config @ ?local) \<subseteq> origins_of uc (named_urls config @ local_urls poms)"
    using local_admitted_origins [of uc "rp_config policy" "rp_refuses policy" poms] by auto
  with sent show ?thesis by (auto split: option.splits)
qed

section \<open>Examples\<close>

definition approving :: RouteConfig where
  "approving = (corporate [])\<lparr>cf_security :=
     \<lparr>allow_env_substitution = [], allow_transitive_repositories = False,
      transitive_repository_allowlist = [''https://approved.corp/'']\<rparr>\<rparr>"

definition repository_at :: "string \<Rightarrow> DeclaredRepository" where
  "repository_at u = corporate_repository\<lparr>url := u\<rparr>"

lemma approving_admission:
  "screen_with example_crate approving (\<lambda>_. False)
     [repository_at ''https://approved.corp/maven/'', repository_at ''https://other.corp/maven/''] Transitive =
   \<lparr>admitted = [repository_at ''https://approved.corp/maven/''], dropped = [repository_at ''https://other.corp/maven/''],
    secret_urls = [], blocked_http = []\<rparr>"
  by code_simp

theorem admission_screens_witness: "listed_above example_crate (cf_security approving) ''https://approved.corp/maven/''"
  using admission_screens [OF approving_admission] by (simp add: approving_def repository_at_def)

definition corporate_policy :: RepositoryPolicy where
  "corporate_policy =
     \<lparr>rp_config = corporate [], rp_refuses = \<lambda>_. False,
      rp_grants = \<lparr>trusted_origins = [], trusted_hosts = [], root_issuers = []\<rparr>,
      rp_named_origins = as_named_origins (AuthStore_from_config example_crate (corporate []))\<rparr>"

definition project_poms :: "(DeclaredRepository list \<times> Declaration) list" where
  "project_poms = [([repository_at ''https://project.example/maven/''], LocalDeclaration), ([corporate_repository], Transitive)]"

lemma corporate_policy_named:
  "rp_named_origins corporate_policy = as_named_origins (AuthStore_from_config example_crate (corporate []))"
  by (simp add: corporate_policy_def)

lemma corporate_sends:
  "route_auth example_crate (\<lambda>_. None)
     ((AuthStore_from_config example_crate (corporate []))\<lparr>as_named_origins :=
        rp_named_origins (admit_all example_crate project_poms corporate_policy)\<rparr>)
     (route example_crate (Router_from_config example_crate (corporate [])) corporate_repository) =
   (Inr (Some \<lparr>a_scheme = Bearer ''t0ken'', a_sent = \<lparr>sc_id = None, sc_file = UserFile, sc_unset_variables = []\<rparr>\<rparr>),
    (route example_crate (Router_from_config example_crate (corporate [])) corporate_repository)\<lparr>ro_auth :=
      Some (Some \<lparr>a_scheme = Bearer ''t0ken'', a_sent = \<lparr>sc_id = None, sc_file = UserFile, sc_unset_variables = []\<rparr>\<rparr>, 2)\<rparr>)"
  by code_simp

theorem credentials_stay_home_witness:
  "\<exists>origin \<in> origins_of example_crate (cf_user_urls (corporate [])).
     http_origin example_crate (url corporate_repository) = Some origin"
  using credentials_stay_home [OF corporate_policy_named refl corporate_sends] by (simp add: corporate_direct)

end
