(* ===== verification/Spec2Isabelle.thy ===== *)
theory Spec2Isabelle
  imports Version_Range Coordinates Content_Digest Solver_Safety Parallel_Map Http_Retry Repository_Admission
begin

text \<open>
  raeva resolves the dependencies of Maven projects. This library models three of its parts: the types crate
  (\<^verbatim>\<open>src/rv-maven-types\<close>: versions, ranges, coordinates, digests, package URLs, the parallel map); the solver of the
  resolver crate (\<^verbatim>\<open>src/rv-resolver/src/solver\<close>, \<^verbatim>\<open>graph.rs\<close>), with the parts of the model crate that the solver reads
  (\<^verbatim>\<open>src/rv-maven-model/src/scope.rs\<close>, \<^verbatim>\<open>dependency.rs\<close>); and the decisions behind a request (\<^verbatim>\<open>mirror.rs\<close>, \<^verbatim>\<open>routing.rs\<close>,
  \<^verbatim>\<open>auth.rs\<close> and \<^verbatim>\<open>policy.rs\<close> of \<^verbatim>\<open>src/rv-repo/src\<close>, \<^verbatim>\<open>src/rv-http/src/retry.rs\<close>): which repositories POMs may add, which
  mirror serves a repository, which credential goes there, and how often a request is tried.

  \<^bold>\<open>How the parts interact.\<close> The solver takes a root project with its dependencies and walks the dependency tree
  breadth first. A queued declaration gets its version from the declaration or from the root's management,
  the backend lists the versions of a range, and the project that was read may relocate to another coordinate.
  Declarations of one artifact form a group; the group is mediated (nearest wins within all hard constraints),
  its winner's dependencies are queued, and a winner that loses is retired. At the end the graph's scopes are
  selected. Versions, ranges and coordinates are what every one of these steps compares and prints. The projects that
  the backend reads declare repositories; the policy admits some of them and grants what their origin may do. A request
  to a repository takes a route, through a mirror or not, with the credential the route looks up, and is retried
  within its policy.

  \<^bold>\<open>Conventions.\<close> A Rust \<^verbatim>\<open>str\<close> is a HOL string of its UTF-8 bytes. \<^verbatim>\<open>Result<T, E>\<close> is a sum with the error on the
  left. Maps are association lists, a \<^verbatim>\<open>BinaryHeap\<close> is a list with the pop of its greatest item. \<^verbatim>\<open>Arc\<close> pointers that
  the code compares by identity carry an allocation number. Unicode lower casing, hash functions, the backend's
  answers and the edge order of petgraph are arguments, since their code is not part of the repository. Every
  \<^verbatim>\<open>expect\<close>, index and checked subtraction of the walk is a branch with a panic as its value.

  \<^bold>\<open>Theories.\<close>
  \<^item> \<open>Rust_Std\<close>, \<open>Rust_Text\<close>: the prelude. Results, three-way comparisons with the contracts \<open>rust_ord\<close> and
    \<open>rust_total_ord\<close>, the contract \<open>descent\<close> of steps that keep an invariant and leave less to do (interpreted for the turns
    of \<open>solve\<close> and the threads of \<^verbatim>\<open>par_map\<close>), string operations of the standard library, UTF-8.
  \<^item> \<open>Maven_Version\<close> (\<^verbatim>\<open>version.rs\<close>): tokenizer, padding, \<^verbatim>\<open>Ord\<close>, \<^verbatim>\<open>Hash\<close>, sorting. The order is total on versions that
    start with a number, hashing agrees with equality, the loops compute their reference definitions.
  \<^item> \<open>Version_Range\<close> (\<^verbatim>\<open>range.rs\<close>): ranges, requirements, their display. Round trip, convexity, exact versions.
  \<^item> \<open>Coordinate_Component\<close>, \<open>Snapshot_Version\<close>, \<open>Coordinates\<close>, \<open>Content_Digest\<close> (\<^verbatim>\<open>component.rs\<close>, \<^verbatim>\<open>text.rs\<close>, \<^verbatim>\<open>snapshot.rs\<close>,
    \<^verbatim>\<open>coord.rs\<close>, \<^verbatim>\<open>layout.rs\<close>, \<^verbatim>\<open>digest.rs\<close>, \<^verbatim>\<open>purl.rs\<close>): checks of untrusted text, paths that stay below the
    repository root, round trips of every printed form.
  \<^item> \<open>Maven_Dependency\<close>, \<open>Resolver_Base\<close>: declarations, scopes, failures and their context.
  \<^item> \<open>Solver_Queue\<close> (\<^verbatim>\<open>solver/queue.rs\<close>): exclusions, paths, tree orders, the queue. Comparing tree orders refines the
    lexicographic order of index paths; the queue pops in breadth-first order. The contract \<open>cmp_on\<close> of
    comparisons that are total on a carrier is interpreted for tree orders, queue keys and queue items.
  \<^item> \<open>Dependency_Graph\<close>, \<open>Scope_Selection\<close> (\<^verbatim>\<open>graph.rs\<close>): the resolved graph and the selection of scopes.
  \<^item> \<open>Solver_Management\<close> (\<^verbatim>\<open>solver/management.rs\<close>): the merged management, requirements, hard constraints. The text of
    a constraint determines it.
  \<^item> \<open>Relocation_Chain\<close> (\<^verbatim>\<open>solver/relocation.rs\<close>): the chain loop and its cache.
  \<^item> \<open>Candidate_Load\<close>, \<open>Mediation\<close>, \<open>Solver_Walk\<close>, \<open>Solver_Loop\<close> (\<^verbatim>\<open>solver/mod.rs\<close>): loading a candidate, one group, the
    walk's state and its operations, and the three loops \<open>reconsider\<close>, \<open>mediate_loop\<close>, \<open>solve_loop\<close>.
  \<^item> \<open>Group_Winner\<close>: what mediation promises of one group, nearest first within all constraints, and the shortcut of
    settled groups.
  \<^item> \<open>Walk_Invariant\<close>, \<open>Load_Safety\<close>, \<open>Solver_Safety\<close>: the invariant \<open>walk_ok\<close> of the walk's graph, groups, selections,
    queue and work lists. One lemma for each operation shows that it keeps the invariant and does not panic; the loops
    follow by induction. \<open>reached\<close> is the reachability of walks in the loop of \<open>solve\<close>: every walk reached satisfies the
    invariant, the loop turns at most twice for each admitted declaration and once more, items are taken breadth
    first, and the graph returned is well formed, that of a walk without anything queued or in conflict. Merging of groups
    refines the least equivalence.
  \<^item> \<open>Parallel_Map\<close> (\<^verbatim>\<open>par.rs\<close>): the threads of \<^verbatim>\<open>par_map\<close> as a step relation. Every interleaving maps every item in its
    place, and the threads finish.
  \<^item> \<open>Http_Retry\<close> (\<^verbatim>\<open>retry.rs\<close>): the retry loop, with the clock and the cooldown that other requests change between its
    accesses. It ends within its budget and retries only what may pass.
  \<^item> \<open>Repository_Routing\<close> (\<^verbatim>\<open>mirror.rs\<close>, \<^verbatim>\<open>routing.rs\<close>, \<^verbatim>\<open>auth.rs\<close>): mirror selection, routes, the lookup of credentials.
  \<^item> \<open>Repository_Admission\<close> (\<^verbatim>\<open>policy.rs\<close>, the grants of \<^verbatim>\<open>transport\<close>, the allowlist of \<^verbatim>\<open>rv-config\<close>): which repositories
    are admitted, what admitting them changes, and where a credential goes after any sequence of admissions.

  \<^bold>\<open>Bounds.\<close> The loops of the types crate, of relocation chains (at most 32 relocations), of management passes (8), of
  the conflict order, of the scope selection and of retries terminate by a measure. Following a group's
  representative takes as many steps as the map has entries, which suffices for an acyclic map. Reachability in
  the graph takes as many rounds as there are nodes. The three loops of the solver are partial functions. The limit of
  1000000 declarations bounds the turns of \<open>solve_loop\<close>; that \<open>solve\<close> returns is proved for backends with which
  \<open>mediate\<close> returns. \<open>mediate_loop\<close> and \<open>reconsider\<close> have no bound of their own in the code, and none is shown for
  them: how long they load depends on what the backend answers.

  \<^bold>\<open>Not modelled.\<close> Input and output: the command line, configuration files, lock files, the artifact store, transport,
  metadata, exports and reports; the builder of effective models (\<^verbatim>\<open>rv-maven-model\<close> apart from the parts above),
  which works on XML and the environment; and the asynchronous backend of the resolver, which enters as the record of
  functions the solver calls. Parsing of URLs (the \<^verbatim>\<open>url\<close> crate), attempts, backoff and jitter of requests, and the variables
  of the environment are arguments. So is the test whether a URL may hold a secret (\<^verbatim>\<open>rv-config/src/redact.rs\<close>), which edits
  parsed URLs through that crate. Log messages, warnings that are given once, redaction in messages and the
  prefetch hints' effects are left out; the hints themselves are modelled. Memory is unbounded.
\<close>

end
